(* ===== verification/Prelude.thy ===== *)
theory Prelude
  imports Main "HOL-Library.Word" "HOL-Library.Monad_Syntax"
begin

unbundle bit_operations_syntax

text \<open>
  Shared vocabulary of the development: the machine types of the C code, the memory and string
  functions of the C library that the sources call, byte order, and generic lemmas on lists,
  options and modular arithmetic.

  Conventions.
  \<^item> A C array or buffer is a list of bytes; a C string is the list of its bytes before the
    terminating zero.
  \<^item> A C \<^verbatim>\<open>int\<close> is an \<^typ>\<open>int\<close>; where the code relies on the width, the
    value is reduced explicitly with \<open>int32\<close>.  A \<^verbatim>\<open>size_t\<close> is a \<^typ>\<open>nat\<close> with the
    wrap-around of its 64 bits written out (\<open>sz_add\<close>, \<open>sz_sub\<close>).
  \<^item> The byte order is that of the four Android ABIs the repository builds for
    (\<^verbatim>\<open>compile-hevtun.sh\<close>), all of them little-endian.
\<close>

section \<open>Named collections\<close>

named_theorems size_simps \<open>size arithmetic inside its bounds\<close>
named_theorems wire_simps \<open>unfolding of wire formats and constants\<close>
named_theorems frame_simps \<open>an update of one cell leaves the others alone\<close>

section \<open>Machine types\<close>

type_synonym byte = "8 word"
type_synonym u16 = "16 word"
type_synonym u32 = "32 word"
type_synonym cstring = "byte list"

definition int32 :: "int \<Rightarrow> int" where
  "int32 x = (x + 2 ^ 31) mod 2 ^ 32 - 2 ^ 31"

lemma int32_id: "- (2 ^ 31) \<le> x \<Longrightarrow> x < 2 ^ 31 \<Longrightarrow> int32 x = x"
  by (simp add: int32_def)

lemma int32_bounds: "- (2 ^ 31) \<le> int32 x" "int32 x < 2 ^ 31"
  by (simp_all add: int32_def)

definition SIZE_MOD :: nat where
  "SIZE_MOD = 2 ^ 64"

definition sz_add :: "nat \<Rightarrow> nat \<Rightarrow> nat" where
  "sz_add a b = (a + b) mod SIZE_MOD"

definition sz_sub :: "nat \<Rightarrow> nat \<Rightarrow> nat" where
  "sz_sub a b = (a + (SIZE_MOD - b mod SIZE_MOD)) mod SIZE_MOD"

lemma SIZE_MOD_pos [simp]: "0 < SIZE_MOD"
  by (simp add: SIZE_MOD_def)

lemma sz_add_id [size_simps]: "a + b < SIZE_MOD \<Longrightarrow> sz_add a b = a + b"
  by (simp add: sz_add_def)

lemma sz_sub_id [size_simps]:
  assumes "b \<le> a" "a < SIZE_MOD"
  shows "sz_sub a b = a - b"
proof -
  have "a + (SIZE_MOD - b mod SIZE_MOD) = (a - b) + SIZE_MOD"
    using assms by simp
  moreover have "(a - b + SIZE_MOD) mod SIZE_MOD = a - b"
    using assms by (simp only: mod_add_self2) simp
  ultimately show ?thesis by (simp only: sz_sub_def)
qed

lemma sz_bounds [simp]: "sz_add a b < SIZE_MOD" "sz_sub a b < SIZE_MOD"
  by (simp_all add: sz_add_def sz_sub_def)

section \<open>Byte order\<close>

definition byte_lo :: "u16 \<Rightarrow> byte" where
  "byte_lo w = ucast w"

definition byte_hi :: "u16 \<Rightarrow> byte" where
  "byte_hi w = ucast (drop_bit 8 w)"

definition mk_u16 :: "byte \<Rightarrow> byte \<Rightarrow> u16" where
  "mk_u16 hi lo = push_bit 8 (ucast hi) OR ucast lo"

text \<open>The two bytes of a \<^verbatim>\<open>uint16_t\<close> in memory, and a \<^verbatim>\<open>uint16_t\<close> read from memory.\<close>

definition u16_mem :: "u16 \<Rightarrow> byte list" where
  "u16_mem w = [byte_lo w, byte_hi w]"

definition mem_u16 :: "byte list \<Rightarrow> u16" where
  "mem_u16 bs = mk_u16 (bs ! 1) (bs ! 0)"

definition htons :: "u16 \<Rightarrow> u16" where
  "htons w = mk_u16 (byte_lo w) (byte_hi w)"

abbreviation ntohs :: "u16 \<Rightarrow> u16" where
  "ntohs \<equiv> htons"

lemma byte_lo_mk [simp]: "byte_lo (mk_u16 h l) = l"
  by (rule bit_word_eqI) (auto simp: byte_lo_def mk_u16_def bit_simps)

lemma byte_hi_mk [simp]: "byte_hi (mk_u16 h l) = h"
  by (rule bit_word_eqI) (auto simp: byte_hi_def mk_u16_def bit_simps dest: bit_imp_le_length)

lemma mk_u16_bytes [simp]: "mk_u16 (byte_hi w) (byte_lo w) = w"
  by (rule bit_word_eqI) (auto simp: byte_hi_def byte_lo_def mk_u16_def bit_simps)

lemma ntohs_htons [simp]: "ntohs (htons w) = w"
  by (simp add: htons_def)

lemma unat_of_nat_byte: "n < 256 \<Longrightarrow> unat (of_nat n :: byte) = n"
  by (simp add: unat_of_nat)

lemma uint_of_nat_byte: "n < 256 \<Longrightarrow> uint (of_nat n :: byte) = int n"
  by (simp add: unsigned_of_nat take_bit_nat_eq_self)

lemma htons_mk: "htons (mk_u16 x y) = mk_u16 y x"
  by (simp add: htons_def)

lemma mem_u16_mem [simp]: "mem_u16 (u16_mem w @ r) = w" "mem_u16 (u16_mem w) = w"
  by (simp_all add: mem_u16_def u16_mem_def)

lemma length_u16_mem [simp]: "length (u16_mem w) = 2"
  by (simp add: u16_mem_def)

lemma u16_mem_htons: "u16_mem (htons w) = [byte_hi w, byte_lo w]"
  by (simp add: u16_mem_def htons_def)

section \<open>Memory and string functions of the C library\<close>

text \<open>\<^verbatim>\<open>memcpy (dst + off, src, length src)\<close> inside the destination.\<close>

definition mem_put :: "'a list \<Rightarrow> nat \<Rightarrow> 'a list \<Rightarrow> 'a list" where
  "mem_put dst off src = take off dst @ src @ drop (off + length src) dst"

definition mem_get :: "'a list \<Rightarrow> nat \<Rightarrow> nat \<Rightarrow> 'a list" where
  "mem_get src off n = take n (drop off src)"

lemma length_mem_put [simp]:
  "off + length src \<le> length dst \<Longrightarrow> length (mem_put dst off src) = length dst"
  by (simp add: mem_put_def)

lemma mem_get_put:
  "off + length src \<le> length dst \<Longrightarrow> mem_get (mem_put dst off src) off (length src) = src"
  by (simp add: mem_put_def mem_get_def)

lemma nth_mem_put:
  assumes "off + length src \<le> length dst" "i < length dst"
  shows "mem_put dst off src ! i =
    (if off \<le> i \<and> i < off + length src then src ! (i - off) else dst ! i)"
  using assms by (auto simp: mem_put_def nth_append min_def)

text \<open>The string a \<^verbatim>\<open>char *\<close> into a buffer denotes: the bytes before the first zero.\<close>

definition cstr :: "byte list \<Rightarrow> cstring" where
  "cstr bs = takeWhile (\<lambda>b. b \<noteq> 0) bs"

lemma cstr_no_zero [simp]: "0 \<notin> set (cstr bs)"
  by (auto simp: cstr_def dest: set_takeWhileD)

lemma cstr_append_zero: "0 \<notin> set s \<Longrightarrow> cstr (s @ 0 # r) = s"
  unfolding cstr_def by (subst takeWhile_append2) auto

lemma cstr_id: "0 \<notin> set s \<Longrightarrow> cstr s = s"
  by (auto simp: cstr_def takeWhile_eq_all_conv)

lemma length_cstr_le: "length (cstr bs) \<le> length bs"
  by (simp add: cstr_def length_takeWhile_le)

text \<open>
  \<^verbatim>\<open>strncpy (dst, src, n)\<close>: at most \<open>n\<close> bytes of the string, padded with zeros to \<open>n\<close>;
  no terminating zero when the string has \<open>n\<close> bytes or more.
\<close>

definition strncpy :: "byte list \<Rightarrow> cstring \<Rightarrow> nat \<Rightarrow> byte list" where
  "strncpy dst src n = take n src @ replicate (n - length src) 0 @ drop n dst"

lemma length_strncpy [simp]: "n \<le> length dst \<Longrightarrow> length (strncpy dst src n) = length dst"
  by (simp add: strncpy_def min_def)

lemma cstr_strncpy:
  assumes "0 \<notin> set src" "length src < n"
  shows "cstr (strncpy dst src n) = src"
proof -
  have "replicate (n - length src) (0 :: byte) = 0 # replicate (n - length src - 1) 0"
    using assms(2) by (cases "n - length src") auto
  then show ?thesis
    using assms by (simp add: strncpy_def cstr_append_zero)
qed

text \<open>
  \<^verbatim>\<open>strcmp\<close>: the difference of the first bytes that differ, the end of a string counting as
  zero; \<^verbatim>\<open>memcmp\<close> on two blocks of the same length agrees with it.
\<close>

fun strcmp :: "cstring \<Rightarrow> cstring \<Rightarrow> int" where
  "strcmp [] [] = 0"
| "strcmp [] (b # bs) = - uint b"
| "strcmp (a # as) [] = uint a"
| "strcmp (a # as) (b # bs) = (if a = b then strcmp as bs else uint a - uint b)"

fun memcmp :: "byte list \<Rightarrow> byte list \<Rightarrow> int" where
  "memcmp (a # as) (b # bs) = (if a = b then memcmp as bs else uint a - uint b)"
| "memcmp _ _ = 0"

definition tolower :: "byte \<Rightarrow> byte" where
  "tolower b = (if 65 \<le> b \<and> b \<le> 90 then b + 32 else b)"

definition strcasecmp :: "cstring \<Rightarrow> cstring \<Rightarrow> int" where
  "strcasecmp a b = strcmp (map tolower a) (map tolower b)"

lemma strcmp_refl [simp]: "strcmp a a = 0"
  by (induction a) auto

lemma uint_neq: "a \<noteq> b \<Longrightarrow> uint (a :: byte) \<noteq> uint b"
  using word_uint_eq_iff by blast

lemma strcmp_eq_0:
  "0 \<notin> set a \<Longrightarrow> 0 \<notin> set b \<Longrightarrow> strcmp a b = 0 \<longleftrightarrow> a = b"
  by (induction a b rule: strcmp.induct) (auto simp: uint_0_iff dest: uint_neq)

lemma uint_pos: "b \<noteq> (0 :: byte) \<Longrightarrow> 0 < uint b"
  by (metis uint_0_iff uint_ge_0 order_le_less)

lemma strcmp_swap: "strcmp a b = - strcmp b a"
  by (induction a b rule: strcmp.induct) auto

lemma strcmp_trans:
  "0 \<notin> set a \<Longrightarrow> 0 \<notin> set b \<Longrightarrow> 0 \<notin> set c \<Longrightarrow>
   strcmp a b < 0 \<Longrightarrow> strcmp b c < 0 \<Longrightarrow> strcmp a c < 0"
proof (induction a b arbitrary: c rule: strcmp.induct)
  case (2 b bs)
  then show ?case by (cases c) (auto simp: uint_pos)
next
  case (4 a as b bs)
  then show ?case
    by (cases c) (auto split: if_splits)
qed auto

lemma memcmp_eq_0: "length a = length b \<Longrightarrow> memcmp a b = 0 \<longleftrightarrow> a = b"
  by (induction a b rule: memcmp.induct) (auto dest: uint_neq)

lemma memcmp_swap: "length a = length b \<Longrightarrow> memcmp a b = - memcmp b a"
  by (induction a b rule: memcmp.induct) auto

lemma memcmp_trans:
  "length a = length b \<Longrightarrow> length b = length c \<Longrightarrow>
   memcmp a b < 0 \<Longrightarrow> memcmp b c < 0 \<Longrightarrow> memcmp a c < 0"
proof (induction a b arbitrary: c rule: memcmp.induct)
  case (1 a as b bs)
  then show ?case by (cases c) (auto split: if_splits)
qed auto

section \<open>Lists\<close>

lemma remove1_append_notin: "x \<notin> set xs \<Longrightarrow> remove1 x (xs @ x # ys) = xs @ ys"
  by (simp add: remove1_append)

lemma split_distinct:
  assumes "x \<in> set xs" "distinct xs"
  obtains ys zs where "xs = ys @ x # zs" "x \<notin> set ys" "x \<notin> set zs" "remove1 x xs = ys @ zs"
  using assms
  by (metis distinct.simps(2) distinct_append not_distinct_conv_prefix remove1_append_notin
      split_list_first)

lemma last_opt_snoc: "(if xs @ [x] = [] then None else Some (last (xs @ [x]))) = Some x"
  by simp

end
