(* ===== verification/HevList.thy ===== *)
theory HevList
  imports Prelude
begin

text \<open>
  The intrusive doubly linked list of \<^verbatim>\<open>src/misc/hev-list.h\<close> and
  \<^verbatim>\<open>src/misc/hev-list.c\<close>, at the level of its pointers: a list object (\<^verbatim>\<open>HevList\<close>) and the
  \<^verbatim>\<open>next\<close> and \<^verbatim>\<open>prev\<close> fields of every node (\<^verbatim>\<open>HevListNode\<close>), which the code embeds
  in its session, DNS and frame structures.  Addresses are an arbitrary type \<^typ>\<open>'n\<close>, and
  \<^verbatim>\<open>NULL\<close> is \<^term>\<open>None\<close>.

  \<open>dlist\<close> relates a heap to the sequence of nodes it stores; the refinement lemmas show that
  \<^verbatim>\<open>hev_list_add_tail\<close> appends and \<^verbatim>\<open>hev_list_del\<close> removes.  The locale \<open>node_list\<close> is the
  contract the clients use (the session set, the DNS cache and the UDP frame queue), with the
  derived facts about the code's ``move to the tail'' idiom and about walks along the list.
\<close>

section \<open>The list and its operations\<close>

record 'n hev_list =
  lhead :: "'n option"
  ltail :: "'n option"
  lnext :: "'n \<Rightarrow> 'n option"
  lprev :: "'n \<Rightarrow> 'n option"

definition hev_list_node_prev :: "'n hev_list \<Rightarrow> 'n \<Rightarrow> 'n option" where
  "hev_list_node_prev L n = lprev L n"

definition hev_list_node_next :: "'n hev_list \<Rightarrow> 'n \<Rightarrow> 'n option" where
  "hev_list_node_next L n = lnext L n"

definition hev_list_first :: "'n hev_list \<Rightarrow> 'n option" where
  "hev_list_first L = lhead L"

definition hev_list_last :: "'n hev_list \<Rightarrow> 'n option" where
  "hev_list_last L = ltail L"

definition hev_list_add_tail :: "'n hev_list \<Rightarrow> 'n \<Rightarrow> 'n hev_list" where
  "hev_list_add_tail L new =
     (let L1 = L\<lparr>lprev := (lprev L)(new := ltail L), lnext := (lnext L)(new := None)\<rparr>;
          L2 = (case ltail L1 of
                  Some t \<Rightarrow> L1\<lparr>lnext := (lnext L1)(t := Some new)\<rparr>
                | None \<Rightarrow> L1\<lparr>lhead := Some new\<rparr>)
      in L2\<lparr>ltail := Some new\<rparr>)"

definition hev_list_del :: "'n hev_list \<Rightarrow> 'n \<Rightarrow> 'n hev_list" where
  "hev_list_del L node =
     (let L1 = (case lprev L node of
                  Some p \<Rightarrow> L\<lparr>lnext := (lnext L)(p := lnext L node)\<rparr>
                | None \<Rightarrow> L\<lparr>lhead := lnext L node\<rparr>)
      in (case lnext L1 node of
            Some q \<Rightarrow> L1\<lparr>lprev := (lprev L1)(q := lprev L1 node)\<rparr>
          | None \<Rightarrow> L1\<lparr>ltail := lprev L1 node\<rparr>))"

definition hev_list_empty :: "'n hev_list" where
  "hev_list_empty = \<lparr>lhead = None, ltail = None, lnext = (\<lambda>_. None), lprev = (\<lambda>_. None)\<rparr>"

text \<open>
  The loop \<^verbatim>\<open>for (n = first; n; n = next (n))\<close> of the destructors and of the event task: the
  nodes in the order it visits them.  A cyclic chain never ends, which is the value
  \<^term>\<open>None\<close>.
\<close>

partial_function (option) hev_list_walk ::
    "'n hev_list \<Rightarrow> 'n option \<Rightarrow> 'n list \<Rightarrow> 'n list option" where
  "hev_list_walk L p seen =
     (case p of
        None \<Rightarrow> Some (rev seen)
      | Some n \<Rightarrow> hev_list_walk L (hev_list_node_next L n) (n # seen))"

lemmas hev_list_defs =
  hev_list_add_tail_def hev_list_del_def hev_list_first_def hev_list_last_def
  hev_list_node_next_def hev_list_node_prev_def

section \<open>Abstraction to a sequence of nodes\<close>

definition hd_or :: "'n list \<Rightarrow> 'n option \<Rightarrow> 'n option" where
  "hd_or xs q = (case xs of [] \<Rightarrow> q | x # _ \<Rightarrow> Some x)"

definition last_or :: "'n option \<Rightarrow> 'n list \<Rightarrow> 'n option" where
  "last_or p xs = (if xs = [] then p else Some (last xs))"

fun dseg :: "'n hev_list \<Rightarrow> 'n option \<Rightarrow> 'n list \<Rightarrow> 'n option \<Rightarrow> bool" where
  "dseg L p [] q = True"
| "dseg L p (x # xs) q = (lprev L x = p \<and> lnext L x = hd_or xs q \<and> dseg L (Some x) xs q)"

definition dlist :: "'n hev_list \<Rightarrow> 'n list \<Rightarrow> bool" where
  "dlist L xs \<longleftrightarrow> distinct xs \<and> lhead L = hd_or xs None \<and> ltail L = last_or None xs \<and>
     dseg L None xs None"

lemma hd_or_simps [simp]: "hd_or [] q = q" "hd_or (x # xs) q = Some x"
  by (simp_all add: hd_or_def)

lemma hd_or_append [simp]: "hd_or (xs @ ys) q = hd_or xs (hd_or ys q)"
  by (cases xs) auto

lemma last_or_simps [simp]:
  "last_or p [] = p" "last_or p (x # xs) = last_or (Some x) xs" "last_or p (xs @ [x]) = Some x"
  by (simp_all add: last_or_def)

lemma last_or_append [simp]: "last_or p (xs @ ys) = last_or (last_or p xs) ys"
  by (simp add: last_or_def)

lemma dseg_append:
  "dseg L p (xs @ ys) q \<longleftrightarrow> dseg L p xs (hd_or ys q) \<and> dseg L (last_or p xs) ys q"
  by (induction xs arbitrary: p) auto

lemma dseg_frame [frame_simps]:
  "n \<notin> set xs \<Longrightarrow> dseg (L\<lparr>lnext := (lnext L)(n := v)\<rparr>) p xs q = dseg L p xs q"
  "n \<notin> set xs \<Longrightarrow> dseg (L\<lparr>lprev := (lprev L)(n := v)\<rparr>) p xs q = dseg L p xs q"
  "dseg (L\<lparr>lhead := w\<rparr>) p xs q = dseg L p xs q"
  "dseg (L\<lparr>ltail := w\<rparr>) p xs q = dseg L p xs q"
  by (induction xs arbitrary: p) auto

lemma dseg_agree:
  "(\<forall>n \<in> set xs. lnext L' n = lnext L n \<and> lprev L' n = lprev L n) \<Longrightarrow>
   dseg L p xs q \<Longrightarrow> dseg L' p xs q"
  by (induction xs arbitrary: p) auto

lemma dlist_empty: "dlist hev_list_empty []"
  by (simp add: dlist_def hev_list_empty_def)

lemma dlist_distinct: "dlist L xs \<Longrightarrow> distinct xs"
  by (simp add: dlist_def)

lemma dlist_add_tail:
  assumes "dlist L xs" "n \<notin> set xs"
  shows "dlist (hev_list_add_tail L n) (xs @ [n])"
proof (cases xs rule: rev_exhaust)
  case Nil
  with assms show ?thesis by (simp add: dlist_def hev_list_add_tail_def Let_def)
next
  case (snoc ys t)
  with assms have "distinct ys" "t \<notin> set ys" "n \<noteq> t" "n \<notin> set ys" "ltail L = Some t"
    "dseg L None ys (Some t)" "lprev L t = last_or None ys" "lhead L = hd_or (ys @ [t]) None"
    by (auto simp: dlist_def dseg_append)
  then show ?thesis
    using snoc
    by (auto simp: dlist_def hev_list_add_tail_def Let_def dseg_append frame_simps
        intro!: dseg_agree [of ys _ L])
qed

lemma dlist_del_split:
  assumes "dlist L (ys @ n # zs)"
  shows "dlist (hev_list_del L n) (ys @ zs)"
proof -
  from assms have d: "distinct (ys @ n # zs)" and n: "lprev L n = last_or None ys"
    "lnext L n = hd_or zs None" and y: "dseg L None ys (Some n)" and z: "dseg L (Some n) zs None"
    and h: "lhead L = hd_or (ys @ [n]) None" and t: "ltail L = last_or (Some n) zs"
    by (auto simp: dlist_def dseg_append)
  show ?thesis
  proof (cases ys rule: rev_exhaust)
    case Nil
    then show ?thesis using d n y z h t
      by (cases zs) (auto simp: dlist_def hev_list_del_def Let_def intro!: dseg_agree [of _ _ L])
  next
    case (snoc ys' a)
    then show ?thesis using d n y z h t
      by (cases zs) (auto simp: dlist_def hev_list_del_def Let_def dseg_append
          intro!: dseg_agree [of _ _ L])
  qed
qed

lemma dlist_del:
  assumes "dlist L xs" "n \<in> set xs"
  shows "dlist (hev_list_del L n) (remove1 n xs)"
proof -
  obtain ys zs where "xs = ys @ n # zs" "remove1 n xs = ys @ zs"
    using assms by (metis dlist_distinct split_distinct)
  with assms dlist_del_split show ?thesis by metis
qed

lemma dlist_first: "dlist L xs \<Longrightarrow> hev_list_first L = hd_or xs None"
  by (simp add: dlist_def hev_list_first_def)

lemma dseg_next:
  "dseg L p (ys @ n # zs) q \<Longrightarrow> lnext L n = hd_or zs q"
  by (simp add: dseg_append)

lemma dlist_next: "dlist L (ys @ n # zs) \<Longrightarrow> hev_list_node_next L n = hd_or zs None"
  by (auto simp: dlist_def hev_list_node_next_def dest: dseg_next)

lemma dlist_last: "dlist L xs \<Longrightarrow> hev_list_last L = last_or None xs"
  by (simp add: dlist_def hev_list_last_def)

section \<open>The contract of a node list\<close>

text \<open>
  What the clients rely on: a representation relation, an append, a removal, the first node and
  the successor of a node.
\<close>

locale node_list =
  fixes repr :: "'l \<Rightarrow> 'n list \<Rightarrow> bool"
    and add_tail :: "'l \<Rightarrow> 'n \<Rightarrow> 'l"
    and del :: "'l \<Rightarrow> 'n \<Rightarrow> 'l"
    and first :: "'l \<Rightarrow> 'n option"
    and succ :: "'l \<Rightarrow> 'n \<Rightarrow> 'n option"
  assumes repr_distinct: "repr l xs \<Longrightarrow> distinct xs"
    and repr_add_tail: "repr l xs \<Longrightarrow> n \<notin> set xs \<Longrightarrow> repr (add_tail l n) (xs @ [n])"
    and repr_del: "repr l xs \<Longrightarrow> n \<in> set xs \<Longrightarrow> repr (del l n) (remove1 n xs)"
    and repr_first: "repr l xs \<Longrightarrow> first l = (case xs of [] \<Rightarrow> None | x # _ \<Rightarrow> Some x)"
    and repr_succ: "repr l (ys @ n # zs) \<Longrightarrow>
      succ l n = (case zs of [] \<Rightarrow> None | z # _ \<Rightarrow> Some z)"
begin

lemma repr_touch:
  assumes "repr l xs" "n \<in> set xs"
  shows "repr (add_tail (del l n) n) (remove1 n xs @ [n])"
proof -
  have "repr (del l n) (remove1 n xs)" using assms by (rule repr_del)
  moreover have "n \<notin> set (remove1 n xs)"
    using repr_distinct [OF assms(1)] by simp
  ultimately show ?thesis by (rule repr_add_tail)
qed

lemma touch_set:
  assumes "repr l xs" "n \<in> set xs"
  shows "set (remove1 n xs @ [n]) = set xs" "length (remove1 n xs @ [n]) = length xs"
  using assms repr_distinct [OF assms(1)]
  by (auto simp: length_remove1 dest: length_pos_if_in_set)

lemma repr_pop:
  assumes "repr l (x # xs)"
  shows "first l = Some x" "repr (del l x) xs"
  using repr_first [OF assms] repr_del [OF assms, of x] by simp_all

lemma repr_first_None: "repr l xs \<Longrightarrow> first l = None \<longleftrightarrow> xs = []"
  by (auto simp: repr_first split: list.splits)

end

interpretation hl: node_list dlist hev_list_add_tail hev_list_del hev_list_first hev_list_node_next
  by unfold_locales
    (simp_all add: dlist_distinct dlist_add_tail dlist_del dlist_first dlist_next hd_or_def)

section \<open>Walking a list\<close>

lemma walk_suffix:
  assumes "dlist L (ys @ zs)"
  shows "hev_list_walk L (hd_or zs None) (rev ys) = Some (ys @ zs)"
  using assms
proof (induction zs arbitrary: ys)
  case Nil
  then show ?case by (simp add: hev_list_walk.simps)
next
  case (Cons z zs)
  have "hev_list_walk L (hd_or zs None) (rev (ys @ [z])) = Some ((ys @ [z]) @ zs)"
    using Cons.prems by (intro Cons.IH) simp
  with Cons.prems show ?case
    by (subst hev_list_walk.simps) (simp add: dlist_next)
qed

lemma walk_dlist: "dlist L xs \<Longrightarrow> hev_list_walk L (hev_list_first L) [] = Some xs"
  using walk_suffix [of L "[]" xs] by (simp add: dlist_first)

end
