(* ===== verification/HevRBTree.thy ===== *)
theory HevRBTree
  imports Prelude
begin

text \<open>
  The red-black tree of \<^verbatim>\<open>src/core/src/hev-rbtree.h\<close> and \<^verbatim>\<open>src/core/src/hev-rbtree.c\<close> at the
  level of its pointers.  A node's \<^verbatim>\<open>__parent_color\<close> word packs the parent pointer and the
  colour bit; here it is the pair of the two.  \<^verbatim>\<open>NULL\<close> is \<^term>\<open>None\<close>, and every function
  that follows a pointer returns an option, \<^term>\<open>None\<close> standing for the access through a
  \<^verbatim>\<open>NULL\<close> pointer and for a loop that does not end.

  This theory holds the program; \<open>HevRBTreeProofs\<close> relates it to trees.
\<close>

section \<open>Nodes\<close>

datatype rb_color = HEV_RBTREE_RED | HEV_RBTREE_BLACK

type_synonym 'n parent_color = "'n option \<times> rb_color"

record 'n rbtree =
  rb_root :: "'n option"
  rb_left :: "'n \<Rightarrow> 'n option"
  rb_right :: "'n \<Rightarrow> 'n option"
  rb_pc :: "'n \<Rightarrow> 'n parent_color"

definition hev_rbtree_empty :: "'n rbtree" where
  "hev_rbtree_empty = \<lparr>rb_root = None, rb_left = (\<lambda>_. None), rb_right = (\<lambda>_. None),
     rb_pc = (\<lambda>_. (None, HEV_RBTREE_RED))\<rparr>"

definition hev_rbtree_node_color :: "'n rbtree \<Rightarrow> 'n \<Rightarrow> rb_color" where
  "hev_rbtree_node_color s n = snd (rb_pc s n)"

definition hev_rbtree_node_is_red :: "'n rbtree \<Rightarrow> 'n \<Rightarrow> bool" where
  "hev_rbtree_node_is_red s n \<longleftrightarrow> hev_rbtree_node_color s n \<noteq> HEV_RBTREE_BLACK"

definition hev_rbtree_node_is_black :: "'n rbtree \<Rightarrow> 'n \<Rightarrow> bool" where
  "hev_rbtree_node_is_black s n \<longleftrightarrow> hev_rbtree_node_color s n = HEV_RBTREE_BLACK"

definition pc_is_black :: "'n parent_color \<Rightarrow> bool" where
  "pc_is_black pc \<longleftrightarrow> snd pc = HEV_RBTREE_BLACK"

definition pc_parent :: "'n parent_color \<Rightarrow> 'n option" where
  "pc_parent pc = fst pc"

definition hev_rbtree_node_parent :: "'n rbtree \<Rightarrow> 'n \<Rightarrow> 'n option" where
  "hev_rbtree_node_parent s n = fst (rb_pc s n)"

text \<open>
  The whole word read as a pointer: the parent when the colour bit is clear, and no valid pointer
  otherwise.
\<close>

definition hev_rbtree_node_red_parent :: "'n rbtree \<Rightarrow> 'n \<Rightarrow> 'n option option" where
  "hev_rbtree_node_red_parent s n =
     (if snd (rb_pc s n) = HEV_RBTREE_RED then Some (fst (rb_pc s n)) else None)"

definition hev_rbtree_node_empty :: "'n rbtree \<Rightarrow> 'n \<Rightarrow> bool" where
  "hev_rbtree_node_empty s n \<longleftrightarrow> rb_pc s n = (Some n, HEV_RBTREE_RED)"

definition hev_rbtree_node_set_black :: "'n rbtree \<Rightarrow> 'n \<Rightarrow> 'n rbtree" where
  "hev_rbtree_node_set_black s n =
     s\<lparr>rb_pc := (rb_pc s)(n := (fst (rb_pc s n), HEV_RBTREE_BLACK))\<rparr>"

definition hev_rbtree_node_set_parent :: "'n rbtree \<Rightarrow> 'n \<Rightarrow> 'n option \<Rightarrow> 'n rbtree" where
  "hev_rbtree_node_set_parent s n p = s\<lparr>rb_pc := (rb_pc s)(n := (p, snd (rb_pc s n)))\<rparr>"

definition hev_rbtree_node_set_parent_color ::
    "'n rbtree \<Rightarrow> 'n \<Rightarrow> 'n option \<Rightarrow> rb_color \<Rightarrow> 'n rbtree" where
  "hev_rbtree_node_set_parent_color s n p c = s\<lparr>rb_pc := (rb_pc s)(n := (p, c))\<rparr>"

definition set_left :: "'n rbtree \<Rightarrow> 'n \<Rightarrow> 'n option \<Rightarrow> 'n rbtree" where
  "set_left s n x = s\<lparr>rb_left := (rb_left s)(n := x)\<rparr>"

definition set_right :: "'n rbtree \<Rightarrow> 'n \<Rightarrow> 'n option \<Rightarrow> 'n rbtree" where
  "set_right s n x = s\<lparr>rb_right := (rb_right s)(n := x)\<rparr>"

text \<open>\<^verbatim>\<open>if (tmp) hev_rbtree_node_set_parent_color (tmp, p, c)\<close>\<close>

definition set_parent_color_opt ::
    "'n rbtree \<Rightarrow> 'n option \<Rightarrow> 'n option \<Rightarrow> rb_color \<Rightarrow> 'n rbtree" where
  "set_parent_color_opt s tmp p c =
     (case tmp of None \<Rightarrow> s | Some t \<Rightarrow> hev_rbtree_node_set_parent_color s t p c)"

text \<open>
  A link is the address the descent stopped at: the root field, or one of the two child fields of
  a node.
\<close>

datatype 'n rb_link = LinkRoot | LinkLeft 'n | LinkRight 'n

fun link_get :: "'n rbtree \<Rightarrow> 'n rb_link \<Rightarrow> 'n option" where
  "link_get s LinkRoot = rb_root s"
| "link_get s (LinkLeft n) = rb_left s n"
| "link_get s (LinkRight n) = rb_right s n"

fun link_set :: "'n rbtree \<Rightarrow> 'n rb_link \<Rightarrow> 'n option \<Rightarrow> 'n rbtree" where
  "link_set s LinkRoot x = s\<lparr>rb_root := x\<rparr>"
| "link_set s (LinkLeft n) x = set_left s n x"
| "link_set s (LinkRight n) x = set_right s n x"

definition hev_rbtree_node_link ::
    "'n rbtree \<Rightarrow> 'n \<Rightarrow> 'n option \<Rightarrow> 'n rb_link \<Rightarrow> 'n rbtree" where
  "hev_rbtree_node_link s node parent link =
     (let s1 = hev_rbtree_node_set_parent_color s node parent HEV_RBTREE_RED;
          s2 = set_left (set_right s1 node None) node None
      in link_set s2 link (Some node))"

definition hev_rbtree_change_child ::
    "'n rbtree \<Rightarrow> 'n \<Rightarrow> 'n option \<Rightarrow> 'n option \<Rightarrow> 'n rbtree" where
  "hev_rbtree_change_child s old new parent =
     (case parent of
        Some p \<Rightarrow> if rb_left s p = Some old then set_left s p new else set_right s p new
      | None \<Rightarrow> s\<lparr>rb_root := new\<rparr>)"

definition hev_rbtree_rotate_set_parents ::
    "'n rbtree \<Rightarrow> 'n \<Rightarrow> 'n \<Rightarrow> rb_color \<Rightarrow> 'n rbtree" where
  "hev_rbtree_rotate_set_parents s old new color =
     (let parent = hev_rbtree_node_parent s old;
          s1 = s\<lparr>rb_pc := (rb_pc s)(new := rb_pc s old)\<rparr>;
          s2 = hev_rbtree_node_set_parent_color s1 old (Some new) color
      in hev_rbtree_change_child s2 old (Some new) parent)"

section \<open>Traversal\<close>

partial_function (option) rb_leftmost :: "'n rbtree \<Rightarrow> 'n \<Rightarrow> 'n option" where
  "rb_leftmost s n = (case rb_left s n of None \<Rightarrow> Some n | Some m \<Rightarrow> rb_leftmost s m)"

partial_function (option) rb_rightmost :: "'n rbtree \<Rightarrow> 'n \<Rightarrow> 'n option" where
  "rb_rightmost s n = (case rb_right s n of None \<Rightarrow> Some n | Some m \<Rightarrow> rb_rightmost s m)"

partial_function (option) rb_climb_left :: "'n rbtree \<Rightarrow> 'n \<Rightarrow> 'n option option" where
  "rb_climb_left s n =
     (case hev_rbtree_node_parent s n of
        None \<Rightarrow> Some None
      | Some p \<Rightarrow> if rb_left s p = Some n then rb_climb_left s p else Some (Some p))"

partial_function (option) rb_climb_right :: "'n rbtree \<Rightarrow> 'n \<Rightarrow> 'n option option" where
  "rb_climb_right s n =
     (case hev_rbtree_node_parent s n of
        None \<Rightarrow> Some None
      | Some p \<Rightarrow> if rb_right s p = Some n then rb_climb_right s p else Some (Some p))"

definition hev_rbtree_node_prev :: "'n rbtree \<Rightarrow> 'n \<Rightarrow> 'n option option" where
  "hev_rbtree_node_prev s node =
     (if hev_rbtree_node_empty s node then Some None
      else case rb_left s node of
        Some m \<Rightarrow> map_option Some (rb_rightmost s m)
      | None \<Rightarrow> rb_climb_left s node)"

definition hev_rbtree_node_next :: "'n rbtree \<Rightarrow> 'n \<Rightarrow> 'n option option" where
  "hev_rbtree_node_next s node =
     (if hev_rbtree_node_empty s node then Some None
      else case rb_right s node of
        Some m \<Rightarrow> map_option Some (rb_leftmost s m)
      | None \<Rightarrow> rb_climb_right s node)"

definition hev_rbtree_first :: "'n rbtree \<Rightarrow> 'n option option" where
  "hev_rbtree_first s =
     (case rb_root s of None \<Rightarrow> Some None | Some n \<Rightarrow> map_option Some (rb_leftmost s n))"

definition hev_rbtree_last :: "'n rbtree \<Rightarrow> 'n option option" where
  "hev_rbtree_last s =
     (case rb_root s of None \<Rightarrow> Some None | Some n \<Rightarrow> map_option Some (rb_rightmost s n))"

section \<open>Insertion\<close>

text \<open>
  One round of the loop either breaks with a final heap (\<^term>\<open>Inl\<close>) or continues with a new
  heap, node and parent (\<^term>\<open>Inr\<close>).
\<close>

type_synonym 'n ins_round = "'n rbtree + ('n rbtree \<times> 'n \<times> 'n option)"

definition color_flip :: "'n rbtree \<Rightarrow> 'n \<Rightarrow> 'n \<Rightarrow> 'n \<Rightarrow> 'n ins_round" where
  "color_flip s tmp parent gparent =
     (let s1 = hev_rbtree_node_set_parent_color s tmp (Some gparent) HEV_RBTREE_BLACK;
          s2 = hev_rbtree_node_set_parent_color s1 parent (Some gparent) HEV_RBTREE_BLACK;
          node = gparent;
          parent' = hev_rbtree_node_parent s2 node
      in Inr (hev_rbtree_node_set_parent_color s2 node parent' HEV_RBTREE_RED, node, parent'))"

text \<open>Cases 2 and 3 when the parent is the left child of the grandparent.\<close>

definition insert_left_rotate :: "'n rbtree \<Rightarrow> 'n \<Rightarrow> 'n \<Rightarrow> 'n \<Rightarrow> 'n rbtree" where
  "insert_left_rotate s0 node parent0 gparent =
     (let (s, parent, tmp) =
        (if rb_right s0 parent0 = Some node then
           let tmp = rb_left s0 node;
               s1 = set_right s0 parent0 tmp;
               s2 = set_left s1 node (Some parent0);
               s3 = set_parent_color_opt s2 tmp (Some parent0) HEV_RBTREE_BLACK;
               s4 = hev_rbtree_node_set_parent_color s3 parent0 (Some node) HEV_RBTREE_RED
           in (s4, node, rb_right s4 node)
         else (s0, parent0, rb_right s0 parent0));
        s5 = set_left s gparent tmp;
        s6 = set_right s5 parent (Some gparent);
        s7 = set_parent_color_opt s6 tmp (Some gparent) HEV_RBTREE_BLACK
      in hev_rbtree_rotate_set_parents s7 gparent parent HEV_RBTREE_RED)"

text \<open>Cases 2 and 3 when the parent is the right child of the grandparent.\<close>

definition insert_right_rotate :: "'n rbtree \<Rightarrow> 'n \<Rightarrow> 'n \<Rightarrow> 'n \<Rightarrow> 'n rbtree" where
  "insert_right_rotate s0 node parent0 gparent =
     (let (s, parent, tmp) =
        (if rb_left s0 parent0 = Some node then
           let tmp = rb_right s0 node;
               s1 = set_left s0 parent0 tmp;
               s2 = set_right s1 node (Some parent0);
               s3 = set_parent_color_opt s2 tmp (Some parent0) HEV_RBTREE_BLACK;
               s4 = hev_rbtree_node_set_parent_color s3 parent0 (Some node) HEV_RBTREE_RED
           in (s4, node, rb_left s4 node)
         else (s0, parent0, rb_left s0 parent0));
        s5 = set_right s gparent tmp;
        s6 = set_left s5 parent (Some gparent);
        s7 = set_parent_color_opt s6 tmp (Some gparent) HEV_RBTREE_BLACK
      in hev_rbtree_rotate_set_parents s7 gparent parent HEV_RBTREE_RED)"

definition opt_is_red :: "'n rbtree \<Rightarrow> 'n option \<Rightarrow> bool" where
  "opt_is_red s tmp = (case tmp of None \<Rightarrow> False | Some t \<Rightarrow> hev_rbtree_node_is_red s t)"

definition insert_round :: "'n rbtree \<Rightarrow> 'n \<Rightarrow> 'n option \<Rightarrow> 'n ins_round option" where
  "insert_round s node parent =
     (case parent of
        None \<Rightarrow> Some (Inl (hev_rbtree_node_set_parent_color s node None HEV_RBTREE_BLACK))
      | Some p \<Rightarrow>
          if hev_rbtree_node_is_black s p then Some (Inl s)
          else do {
            gp \<leftarrow> hev_rbtree_node_red_parent s p;
            g \<leftarrow> gp;
            if rb_right s g \<noteq> Some p then
              (if opt_is_red s (rb_right s g) then do {
                 tmp \<leftarrow> rb_right s g;
                 Some (color_flip s tmp p g)
               } else Some (Inl (insert_left_rotate s node p g)))
            else
              (if opt_is_red s (rb_left s g) then do {
                 tmp \<leftarrow> rb_left s g;
                 Some (color_flip s tmp p g)
               } else Some (Inl (insert_right_rotate s node p g)))
          })"

partial_function (option) insert_loop :: "'n rbtree \<Rightarrow> 'n \<Rightarrow> 'n option \<Rightarrow> 'n rbtree option" where
  "insert_loop s node parent =
     Option.bind (insert_round s node parent)
       (\<lambda>r. case r of Inl s' \<Rightarrow> Some s' | Inr (s', node', parent') \<Rightarrow> insert_loop s' node' parent')"

definition hev_rbtree_insert_color :: "'n rbtree \<Rightarrow> 'n \<Rightarrow> 'n rbtree option" where
  "hev_rbtree_insert_color s node =
     do {
       parent \<leftarrow> hev_rbtree_node_red_parent s node;
       insert_loop s node parent
     }"

section \<open>Replacement\<close>

definition hev_rbtree_replace :: "'n rbtree \<Rightarrow> 'n \<Rightarrow> 'n \<Rightarrow> 'n rbtree" where
  "hev_rbtree_replace s victim new =
     (let parent = hev_rbtree_node_parent s victim;
          s1 = s\<lparr>rb_left := (rb_left s)(new := rb_left s victim),
                 rb_right := (rb_right s)(new := rb_right s victim),
                 rb_pc := (rb_pc s)(new := rb_pc s victim)\<rparr>;
          s2 = (case rb_left s1 victim of
                  Some l \<Rightarrow> hev_rbtree_node_set_parent s1 l (Some new) | None \<Rightarrow> s1);
          s3 = (case rb_right s2 victim of
                  Some r \<Rightarrow> hev_rbtree_node_set_parent s2 r (Some new) | None \<Rightarrow> s2)
      in hev_rbtree_change_child s3 victim (Some new) parent)"

section \<open>Removal\<close>

text \<open>
  The loop of case 3: from a successor candidate and its left child down to the last left child;
  the result is the successor's parent and the successor.
\<close>

partial_function (option) successor_loop :: "'n rbtree \<Rightarrow> 'n \<Rightarrow> 'n \<Rightarrow> ('n \<times> 'n) option" where
  "successor_loop s successor tmp =
     (case rb_left s tmp of
        None \<Rightarrow> Some (successor, tmp)
      | Some tmp' \<Rightarrow> successor_loop s tmp tmp')"

text \<open>Cases 2 and 3 of the unlinking: the node has two children.\<close>

definition erase_two :: "'n rbtree \<Rightarrow> 'n \<Rightarrow> 'n \<Rightarrow> ('n rbtree \<times> 'n option) option" where
  "erase_two s node child =
     do {
       (s1, parent, successor, child2) \<leftarrow>
         (case rb_left s child of
            None \<Rightarrow> Some (s, child, child, rb_right s child)
          | Some tmp \<Rightarrow> do {
              (parent, successor) \<leftarrow> successor_loop s child tmp;
              let child2 = rb_right s successor;
              let t1 = set_left s parent child2;
              let t2 = set_right t1 successor (Some child);
              Some (hev_rbtree_node_set_parent t2 child (Some successor), parent, successor, child2)
            });
       tmp \<leftarrow> rb_left s1 node;
       let s2 = set_left s1 successor (Some tmp);
       let s3 = hev_rbtree_node_set_parent s2 tmp (Some successor);
       let pc = rb_pc s3 node;
       let s4 = hev_rbtree_change_child s3 node (Some successor) (pc_parent pc);
       let (s5, rebalance) =
         (case child2 of
            Some c2 \<Rightarrow> (hev_rbtree_node_set_parent_color s4 c2 (Some parent) HEV_RBTREE_BLACK, None)
          | None \<Rightarrow> (s4, if hev_rbtree_node_is_black s4 successor then Some parent else None));
       Some (s5\<lparr>rb_pc := (rb_pc s5)(successor := pc)\<rparr>, rebalance)
     }"

definition erase_unlink :: "'n rbtree \<Rightarrow> 'n \<Rightarrow> ('n rbtree \<times> 'n option) option" where
  "erase_unlink s node =
     (let child = rb_right s node; tmp = rb_left s node; pc = rb_pc s node in
      case tmp of
        None \<Rightarrow>
          let parent = pc_parent pc;
              s1 = hev_rbtree_change_child s node child parent
          in (case child of
                Some c \<Rightarrow> Some (s1\<lparr>rb_pc := (rb_pc s1)(c := pc)\<rparr>, None)
              | None \<Rightarrow> Some (s1, if pc_is_black pc then parent else None))
      | Some t \<Rightarrow>
          (case child of
             None \<Rightarrow>
               let s1 = s\<lparr>rb_pc := (rb_pc s)(t := pc)\<rparr>
               in Some (hev_rbtree_change_child s1 node (Some t) (pc_parent pc), None)
           | Some c \<Rightarrow> erase_two s node c))"

text \<open>One round of the rebalancing loop, with the deficient subtree on the left.\<close>

type_synonym 'n era_round = "'n rbtree + ('n rbtree \<times> 'n option \<times> 'n)"

definition opt_is_black :: "'n rbtree \<Rightarrow> 'n option \<Rightarrow> bool" where
  "opt_is_black s tmp = (case tmp of None \<Rightarrow> True | Some t \<Rightarrow> hev_rbtree_node_is_black s t)"

definition sibling_flip :: "'n rbtree \<Rightarrow> 'n \<Rightarrow> 'n \<Rightarrow> 'n era_round" where
  "sibling_flip s sibling parent =
     (let s1 = hev_rbtree_node_set_parent_color s sibling (Some parent) HEV_RBTREE_RED
      in if hev_rbtree_node_is_red s1 parent then Inl (hev_rbtree_node_set_black s1 parent)
         else case hev_rbtree_node_parent s1 parent of
           Some parent' \<Rightarrow> Inr (s1, Some parent, parent')
         | None \<Rightarrow> Inl s1)"

definition erase_left_sibling :: "'n rbtree \<Rightarrow> 'n \<Rightarrow> 'n \<Rightarrow> ('n rbtree \<times> 'n) option" where
  "erase_left_sibling s parent sibling =
     (if hev_rbtree_node_is_red s sibling then do {
        tmp1 \<leftarrow> rb_left s sibling;
        let s1 = set_right s parent (Some tmp1);
        let s2 = set_left s1 sibling (Some parent);
        let s3 = hev_rbtree_node_set_parent_color s2 tmp1 (Some parent) HEV_RBTREE_BLACK;
        Some (hev_rbtree_rotate_set_parents s3 parent sibling HEV_RBTREE_RED, tmp1)
      } else Some (s, sibling))"

definition erase_left_rotate :: "'n rbtree \<Rightarrow> 'n \<Rightarrow> 'n \<Rightarrow> 'n rbtree option" where
  "erase_left_rotate s0 parent sibling0 =
     do {
       (s, sibling, tmp1) \<leftarrow>
         (if opt_is_black s0 (rb_right s0 sibling0) then do {
            tmp2 \<leftarrow> rb_left s0 sibling0;
            let tmp1 = rb_right s0 tmp2;
            let s1 = set_left s0 sibling0 tmp1;
            let s2 = set_right s1 tmp2 (Some sibling0);
            let s3 = set_right s2 parent (Some tmp2);
            let s4 = set_parent_color_opt s3 tmp1 (Some sibling0) HEV_RBTREE_BLACK;
            Some (s4, tmp2, sibling0)
          } else do {
            tmp1 \<leftarrow> rb_right s0 sibling0;
            Some (s0, sibling0, tmp1)
          });
       let tmp2 = rb_left s sibling;
       let s5 = set_right s parent tmp2;
       let s6 = set_left s5 sibling (Some parent);
       let s7 = hev_rbtree_node_set_parent_color s6 tmp1 (Some sibling) HEV_RBTREE_BLACK;
       let s8 = (case tmp2 of None \<Rightarrow> s7
                 | Some t \<Rightarrow> hev_rbtree_node_set_parent s7 t (Some parent));
       Some (hev_rbtree_rotate_set_parents s8 parent sibling HEV_RBTREE_BLACK)
     }"

definition erase_left :: "'n rbtree \<Rightarrow> 'n \<Rightarrow> 'n \<Rightarrow> 'n era_round option" where
  "erase_left s0 parent sibling0 =
     do {
       (s, sibling) \<leftarrow> erase_left_sibling s0 parent sibling0;
       if opt_is_black s (rb_right s sibling) \<and> opt_is_black s (rb_left s sibling)
       then Some (sibling_flip s sibling parent)
       else map_option Inl (erase_left_rotate s parent sibling)
     }"

text \<open>The same round with the deficient subtree on the right.\<close>

definition erase_right_sibling :: "'n rbtree \<Rightarrow> 'n \<Rightarrow> 'n \<Rightarrow> ('n rbtree \<times> 'n) option" where
  "erase_right_sibling s parent sibling =
     (if hev_rbtree_node_is_red s sibling then do {
        tmp1 \<leftarrow> rb_right s sibling;
        let s1 = set_left s parent (Some tmp1);
        let s2 = set_right s1 sibling (Some parent);
        let s3 = hev_rbtree_node_set_parent_color s2 tmp1 (Some parent) HEV_RBTREE_BLACK;
        Some (hev_rbtree_rotate_set_parents s3 parent sibling HEV_RBTREE_RED, tmp1)
      } else Some (s, sibling))"

definition erase_right_rotate :: "'n rbtree \<Rightarrow> 'n \<Rightarrow> 'n \<Rightarrow> 'n rbtree option" where
  "erase_right_rotate s0 parent sibling0 =
     do {
       (s, sibling, tmp1) \<leftarrow>
         (if opt_is_black s0 (rb_left s0 sibling0) then do {
            tmp2 \<leftarrow> rb_right s0 sibling0;
            let tmp1 = rb_left s0 tmp2;
            let s1 = set_right s0 sibling0 tmp1;
            let s2 = set_left s1 tmp2 (Some sibling0);
            let s3 = set_left s2 parent (Some tmp2);
            let s4 = set_parent_color_opt s3 tmp1 (Some sibling0) HEV_RBTREE_BLACK;
            Some (s4, tmp2, sibling0)
          } else do {
            tmp1 \<leftarrow> rb_left s0 sibling0;
            Some (s0, sibling0, tmp1)
          });
       let tmp2 = rb_right s sibling;
       let s5 = set_left s parent tmp2;
       let s6 = set_right s5 sibling (Some parent);
       let s7 = hev_rbtree_node_set_parent_color s6 tmp1 (Some sibling) HEV_RBTREE_BLACK;
       let s8 = (case tmp2 of None \<Rightarrow> s7
                 | Some t \<Rightarrow> hev_rbtree_node_set_parent s7 t (Some parent));
       Some (hev_rbtree_rotate_set_parents s8 parent sibling HEV_RBTREE_BLACK)
     }"

definition erase_right :: "'n rbtree \<Rightarrow> 'n \<Rightarrow> 'n \<Rightarrow> 'n era_round option" where
  "erase_right s0 parent sibling0 =
     do {
       (s, sibling) \<leftarrow> erase_right_sibling s0 parent sibling0;
       if opt_is_black s (rb_left s sibling) \<and> opt_is_black s (rb_right s sibling)
       then Some (sibling_flip s sibling parent)
       else map_option Inl (erase_right_rotate s parent sibling)
     }"

definition erase_round :: "'n rbtree \<Rightarrow> 'n option \<Rightarrow> 'n \<Rightarrow> 'n era_round option" where
  "erase_round s node parent =
     (if node \<noteq> rb_right s parent then do {
        sibling \<leftarrow> rb_right s parent;
        erase_left s parent sibling
      } else do {
        sibling \<leftarrow> rb_left s parent;
        erase_right s parent sibling
      })"

partial_function (option) erase_loop :: "'n rbtree \<Rightarrow> 'n option \<Rightarrow> 'n \<Rightarrow> 'n rbtree option" where
  "erase_loop s node parent =
     Option.bind (erase_round s node parent)
       (\<lambda>r. case r of Inl s' \<Rightarrow> Some s' | Inr (s', node', parent') \<Rightarrow> erase_loop s' node' parent')"

definition hev_rbtree_erase :: "'n rbtree \<Rightarrow> 'n \<Rightarrow> 'n rbtree option" where
  "hev_rbtree_erase s node =
     do {
       (s1, rebalance) \<leftarrow> erase_unlink s node;
       (case rebalance of
          Some parent \<Rightarrow> erase_loop s1 None parent
        | None \<Rightarrow> Some s1)
     }"

end
