(* ===== verification/HevRBTreeProofs.thy ===== *)
theory HevRBTreeProofs
  imports HevRBTree
begin

text \<open>
  Correctness of the pointer-level red-black tree.  A heap represents a tree (\<open>rb_repr\<close>); a
  position inside a tree is a context with a hole (\<open>rb_ctx\<close>).  Each rebalancing loop is shown
  to compute, on every heap that represents a context and a subtree, the heap of a tree-level
  function (\<open>ins_up\<close>, \<open>era_up\<close>); the tree-level functions are then shown to keep the
  in-order sequence and to restore the red-black invariants.
\<close>

section \<open>Trees, contexts and their representation\<close>

datatype 'n rbt = Lf | Nd "'n rbt" 'n rb_color "'n rbt"

fun nds :: "'n rbt \<Rightarrow> 'n set" where
  "nds Lf = {}"
| "nds (Nd l n c r) = insert n (nds l \<union> nds r)"

fun inord :: "'n rbt \<Rightarrow> 'n list" where
  "inord Lf = []"
| "inord (Nd l n c r) = inord l @ n # inord r"

lemma set_inord [simp]: "set (inord t) = nds t"
  by (induction t) auto

fun rootp :: "'n rbt \<Rightarrow> 'n option" where
  "rootp Lf = None"
| "rootp (Nd l n c r) = Some n"

fun colr :: "'n rbt \<Rightarrow> rb_color" where
  "colr Lf = HEV_RBTREE_BLACK"
| "colr (Nd l n c r) = c"

fun paint :: "rb_color \<Rightarrow> 'n rbt \<Rightarrow> 'n rbt" where
  "paint d Lf = Lf"
| "paint d (Nd l n c r) = Nd l n d r"

abbreviation blk :: "'n rbt \<Rightarrow> 'n rbt" where
  "blk \<equiv> paint HEV_RBTREE_BLACK"

lemma paint_simps [simp]:
  "nds (paint d t) = nds t" "inord (paint d t) = inord t" "rootp (paint d t) = rootp t"
  by (cases t; simp)+

lemma rootp_in: "rootp t = Some n \<Longrightarrow> n \<in> nds t"
  by (cases t) auto

datatype 'n rb_ctx = Top | CtxL 'n rb_color "'n rbt" "'n rb_ctx" | CtxR "'n rbt" 'n rb_color "'n rb_ctx"

fun plug :: "'n rb_ctx \<Rightarrow> 'n rbt \<Rightarrow> 'n rbt" where
  "plug Top t = t"
| "plug (CtxL n c r C) t = plug C (Nd t n c r)"
| "plug (CtxR l n c C) t = plug C (Nd l n c t)"

fun pre :: "'n rb_ctx \<Rightarrow> 'n list" where
  "pre Top = []"
| "pre (CtxL n c r C) = pre C"
| "pre (CtxR l n c C) = pre C @ inord l @ [n]"

fun post :: "'n rb_ctx \<Rightarrow> 'n list" where
  "post Top = []"
| "post (CtxL n c r C) = n # inord r @ post C"
| "post (CtxR l n c C) = post C"

lemma inord_plug: "inord (plug C t) = pre C @ inord t @ post C"
  by (induction C arbitrary: t) auto

fun cnds :: "'n rb_ctx \<Rightarrow> 'n set" where
  "cnds Top = {}"
| "cnds (CtxL n c r C) = insert n (nds r \<union> cnds C)"
| "cnds (CtxR l n c C) = insert n (nds l \<union> cnds C)"

lemma cnds_pre_post: "cnds C = set (pre C) \<union> set (post C)"
  by (induction C) auto

lemma nds_plug: "nds (plug C t) = cnds C \<union> nds t"
  by (induction C arbitrary: t) auto

fun cpar :: "'n rb_ctx \<Rightarrow> 'n option" where
  "cpar Top = None"
| "cpar (CtxL n c r C) = Some n"
| "cpar (CtxR l n c C) = Some n"

lemma cpar_in: "cpar C = Some n \<Longrightarrow> n \<in> cnds C"
  by (cases C) auto

text \<open>No node occurs twice, in a tree and in a context.\<close>

fun wft :: "'n rbt \<Rightarrow> bool" where
  "wft Lf = True"
| "wft (Nd l n c r) \<longleftrightarrow> n \<notin> nds l \<and> n \<notin> nds r \<and> nds l \<inter> nds r = {} \<and> wft l \<and> wft r"

lemma wft_distinct: "wft t \<longleftrightarrow> distinct (inord t)"
  by (induction t) auto

lemma wft_paint [simp]: "wft (paint d t) = wft t"
  by (cases t) auto

fun wfc :: "'n rb_ctx \<Rightarrow> bool" where
  "wfc Top = True"
| "wfc (CtxL n c r C) \<longleftrightarrow> n \<notin> nds r \<and> n \<notin> cnds C \<and> nds r \<inter> cnds C = {} \<and> wft r \<and> wfc C"
| "wfc (CtxR l n c C) \<longleftrightarrow> n \<notin> nds l \<and> n \<notin> cnds C \<and> nds l \<inter> cnds C = {} \<and> wft l \<and> wfc C"

lemma wft_plug: "wft (plug C t) \<longleftrightarrow> wfc C \<and> wft t \<and> cnds C \<inter> nds t = {}"
  by (induction C arbitrary: t) auto

text \<open>The heap cells of a tree below parent \<open>p\<close>, and those of a context around pointer \<open>x\<close>.\<close>

fun is_tree :: "('n \<Rightarrow> 'n option) \<Rightarrow> ('n \<Rightarrow> 'n option) \<Rightarrow> ('n \<Rightarrow> 'n parent_color) \<Rightarrow>
    'n option \<Rightarrow> 'n rbt \<Rightarrow> bool" where
  "is_tree L R P p Lf \<longleftrightarrow> True"
| "is_tree L R P p (Nd l n c r) \<longleftrightarrow>
     P n = (p, c) \<and> L n = rootp l \<and> R n = rootp r \<and>
     is_tree L R P (Some n) l \<and> is_tree L R P (Some n) r"

fun is_ctx :: "'n option \<Rightarrow> ('n \<Rightarrow> 'n option) \<Rightarrow> ('n \<Rightarrow> 'n option) \<Rightarrow> ('n \<Rightarrow> 'n parent_color) \<Rightarrow>
    'n rb_ctx \<Rightarrow> 'n option \<Rightarrow> bool" where
  "is_ctx rt L R P Top x \<longleftrightarrow> rt = x"
| "is_ctx rt L R P (CtxL n c r C) x \<longleftrightarrow>
     L n = x \<and> R n = rootp r \<and> P n = (cpar C, c) \<and> is_tree L R P (Some n) r \<and>
     is_ctx rt L R P C (Some n)"
| "is_ctx rt L R P (CtxR l n c C) x \<longleftrightarrow>
     R n = x \<and> L n = rootp l \<and> P n = (cpar C, c) \<and> is_tree L R P (Some n) l \<and>
     is_ctx rt L R P C (Some n)"

lemma is_tree_frame [simp]:
  "a \<notin> nds t \<Longrightarrow> is_tree (L(a := v)) R P p t = is_tree L R P p t"
  "a \<notin> nds t \<Longrightarrow> is_tree L (R(a := v)) P p t = is_tree L R P p t"
  "a \<notin> nds t \<Longrightarrow> is_tree L R (P(a := w)) p t = is_tree L R P p t"
  by (induction t arbitrary: p) auto

lemma is_ctx_frame [simp]:
  "a \<notin> cnds C \<Longrightarrow> is_ctx rt (L(a := v)) R P C x = is_ctx rt L R P C x"
  "a \<notin> cnds C \<Longrightarrow> is_ctx rt L (R(a := v)) P C x = is_ctx rt L R P C x"
  "a \<notin> cnds C \<Longrightarrow> is_ctx rt L R (P(a := w)) C x = is_ctx rt L R P C x"
  by (induction C arbitrary: x) auto

abbreviation tree_at :: "'n rbtree \<Rightarrow> 'n option \<Rightarrow> 'n rbt \<Rightarrow> bool" where
  "tree_at s \<equiv> is_tree (rb_left s) (rb_right s) (rb_pc s)"

abbreviation ctx_at :: "'n rbtree \<Rightarrow> 'n rb_ctx \<Rightarrow> 'n option \<Rightarrow> bool" where
  "ctx_at s \<equiv> is_ctx (rb_root s) (rb_left s) (rb_right s) (rb_pc s)"

definition rb_repr :: "'n rbtree \<Rightarrow> 'n rbt \<Rightarrow> bool" where
  "rb_repr s t \<longleftrightarrow> rb_root s = rootp t \<and> tree_at s None t \<and> wft t"

text \<open>A heap with a hole at \<open>C\<close> that holds the tree \<open>t\<close>.\<close>

definition rb_at :: "'n rbtree \<Rightarrow> 'n rb_ctx \<Rightarrow> 'n rbt \<Rightarrow> bool" where
  "rb_at s C t \<longleftrightarrow> ctx_at s C (rootp t) \<and> tree_at s (cpar C) t \<and>
     wfc C \<and> wft t \<and> cnds C \<inter> nds t = {}"

lemma plug_at:
  "ctx_at s C (rootp t) \<and> tree_at s (cpar C) t \<longleftrightarrow>
   rb_root s = rootp (plug C t) \<and> tree_at s None (plug C t)"
proof (induction C arbitrary: t)
  case Top
  show ?case by auto
next
  case (CtxL n c r C)
  show ?case unfolding plug.simps CtxL.IH [symmetric] by auto
next
  case (CtxR l n c C)
  show ?case unfolding plug.simps CtxR.IH [symmetric] by auto
qed

lemma rb_at_repr: "rb_at s C t \<longleftrightarrow> rb_repr s (plug C t)"
  unfolding rb_at_def rb_repr_def wft_plug using plug_at [of s C t] by auto

lemma rb_repr_unique: "rb_repr s t \<Longrightarrow> rb_repr s u \<Longrightarrow> t = u"
proof -
  have "is_tree L R P p t \<Longrightarrow> is_tree L R P p u \<Longrightarrow> rootp t = rootp u \<Longrightarrow> t = u"
    for L R P and p :: "'a option"
  proof (induction t arbitrary: p u)
    case Lf
    then show ?case by (cases u) auto
  next
    case (Nd l n c r)
    then show ?case by (cases u) auto
  qed
  then show "rb_repr s t \<Longrightarrow> rb_repr s u \<Longrightarrow> t = u"
    unfolding rb_repr_def by metis
qed

text \<open>Replacing the hole's pointer in the context's own cell.\<close>

lemma change_child_ctx:
  assumes "ctx_at s C (Some old)" "wfc C" "old \<notin> cnds C"
  shows "ctx_at (hev_rbtree_change_child s old new (cpar C)) C new"
    and "rb_pc (hev_rbtree_change_child s old new (cpar C)) = rb_pc s"
    and "nds t \<inter> cnds C = {} \<Longrightarrow>
      tree_at (hev_rbtree_change_child s old new (cpar C)) p t = tree_at s p t"
  using assms
  by (cases C; force simp: hev_rbtree_change_child_def set_left_def set_right_def
      dest: rootp_in)+

lemma rotate_set_parents_at:
  fixes s :: "'n rbtree"
  assumes "ctx_at s C (Some old)" "wfc C" "old \<notin> cnds C" "new \<notin> cnds C"
    and "rb_pc s old = (cpar C, c)"
    and "is_tree (rb_left s) (rb_right s) ((rb_pc s)(new := (cpar C, c), old := (Some new, color)))
           (cpar C) t"
    and "rootp t = Some new" "wft t" "cnds C \<inter> nds t = {}"
  shows "rb_at (hev_rbtree_rotate_set_parents s old new color) C t"
proof -
  let ?s = "s\<lparr>rb_pc := (rb_pc s)(new := (cpar C, c), old := (Some new, color))\<rparr>"
  have rot: "hev_rbtree_rotate_set_parents s old new color =
      hev_rbtree_change_child ?s old (Some new) (cpar C)"
    using assms(5) by (simp add: hev_rbtree_rotate_set_parents_def hev_rbtree_node_parent_def
        hev_rbtree_node_set_parent_color_def)
  have "ctx_at ?s C (Some old)" using assms by simp
  note cc = change_child_ctx [OF this assms(2,3)]
  have "nds t \<inter> cnds C = {}" using assms by auto
  then show ?thesis
    unfolding rb_at_def rot using assms cc by simp
qed

section \<open>Insertion at the tree level\<close>

abbreviation "Red \<equiv> HEV_RBTREE_RED"
abbreviation "Black \<equiv> HEV_RBTREE_BLACK"

text \<open>
  The tree that the insertion loop produces for a red tree in a hole.  A root that is a leaf and a
  red root above a red node do not arise from a red-black tree; they are left as they are.
\<close>

fun ins_up :: "'n rb_ctx \<Rightarrow> 'n rbt \<Rightarrow> 'n rbt" where
  "ins_up Top t = blk t"
| "ins_up (CtxL p Black r C) t = plug C (Nd t p Black r)"
| "ins_up (CtxR l p Black C) t = plug C (Nd l p Black t)"
| "ins_up (CtxL p Red r (CtxL g gc u C)) t =
     (if colr u = Red then ins_up C (Nd (Nd t p Black r) g Red (blk u))
      else plug C (Nd t p gc (Nd (blk r) g Red u)))"
| "ins_up (CtxR l p Red (CtxL g gc u C)) t =
     (if colr u = Red then ins_up C (Nd (Nd l p Black t) g Red (blk u))
      else case t of Lf \<Rightarrow> plug C (Nd (Nd l p Red Lf) g gc u)
        | Nd a n c b \<Rightarrow> plug C (Nd (Nd l p Red (blk a)) n gc (Nd (blk b) g Red u)))"
| "ins_up (CtxR l p Red (CtxR u g gc C)) t =
     (if colr u = Red then ins_up C (Nd (blk u) g Red (Nd l p Black t))
      else plug C (Nd (Nd u g Red (blk l)) p gc t))"
| "ins_up (CtxL p Red r (CtxR u g gc C)) t =
     (if colr u = Red then ins_up C (Nd (blk u) g Red (Nd t p Black r))
      else case t of Lf \<Rightarrow> plug C (Nd u g gc (Nd Lf p Red r))
        | Nd a n c b \<Rightarrow> plug C (Nd (Nd u g Red (blk a)) n gc (Nd (blk b) p Red r)))"
| "ins_up (CtxL p Red r Top) t = Nd t p Red r"
| "ins_up (CtxR l p Red Top) t = Nd l p Red t"

lemmas rb_field_defs =
  set_left_def set_right_def set_parent_color_opt_def hev_rbtree_node_set_parent_color_def
  hev_rbtree_node_set_parent_def hev_rbtree_node_set_black_def

lemmas rb_sets = Int_Un_distrib Int_Un_distrib2 Int_commute

lemma insert_left_rotate_outer:
  assumes "rb_at s C (Nd (Nd t p Red r) g gc u)" "rootp t = Some n"
  shows "rb_at (insert_left_rotate s n p g) C (Nd t p gc (Nd (blk r) g Red u))"
proof -
  have "rb_right s p \<noteq> Some n"
    using assms by (auto simp: rb_at_def dest: rootp_in)
  then show ?thesis
    using assms unfolding insert_left_rotate_def rb_at_def [of s]
    by (cases r) (auto simp: rb_field_defs Let_def rb_sets intro!: rotate_set_parents_at [where c = gc])
qed

lemma insert_left_rotate_inner:
  assumes "rb_at s C (Nd (Nd l p Red (Nd a n c b)) g gc u)"
  shows "rb_at (insert_left_rotate s n p g) C (Nd (Nd l p Red (blk a)) n gc (Nd (blk b) g Red u))"
  using assms unfolding insert_left_rotate_def rb_at_def [of s]
  by (cases a; cases b)
    (auto simp: rb_field_defs Let_def rb_sets intro!: rotate_set_parents_at [where c = gc])

lemma insert_right_rotate_outer:
  assumes "rb_at s C (Nd u g gc (Nd l p Red t))" "rootp t = Some n"
  shows "rb_at (insert_right_rotate s n p g) C (Nd (Nd u g Red (blk l)) p gc t)"
proof -
  have "rb_left s p \<noteq> Some n"
    using assms by (auto simp: rb_at_def dest: rootp_in)
  then show ?thesis
    using assms unfolding insert_right_rotate_def rb_at_def [of s]
    by (cases l) (auto simp: rb_field_defs Let_def rb_sets intro!: rotate_set_parents_at [where c = gc])
qed

lemma insert_right_rotate_inner:
  assumes "rb_at s C (Nd u g gc (Nd (Nd a n c b) p Red r))"
  shows "rb_at (insert_right_rotate s n p g) C (Nd (Nd u g Red (blk a)) n gc (Nd (blk b) p Red r))"
  using assms unfolding insert_right_rotate_def rb_at_def [of s]
  by (cases a; cases b)
    (auto simp: rb_field_defs Let_def rb_sets intro!: rotate_set_parents_at [where c = gc])

lemma color_flip_left:
  assumes "rb_at s C (Nd (Nd a p Red b) g gc (Nd ul un Red ur))"
  shows "\<exists>s'. color_flip s un p g = Inr (s', g, cpar C) \<and>
           rb_at s' C (Nd (Nd a p Black b) g Red (Nd ul un Black ur))"
  using assms unfolding color_flip_def rb_at_def
  by (auto simp: Let_def hev_rbtree_node_set_parent_color_def hev_rbtree_node_parent_def rb_sets)

lemma color_flip_right:
  assumes "rb_at s C (Nd (Nd ul un Red ur) g gc (Nd a p Red b))"
  shows "\<exists>s'. color_flip s un p g = Inr (s', g, cpar C) \<and>
           rb_at s' C (Nd (Nd ul un Black ur) g Red (Nd a p Black b))"
  using assms unfolding color_flip_def rb_at_def
  by (auto simp: Let_def hev_rbtree_node_set_parent_color_def hev_rbtree_node_parent_def rb_sets)

text \<open>The outermost node of a context is black, so every red node of it has a parent.\<close>

fun top_black :: "'n rb_ctx \<Rightarrow> bool" where
  "top_black Top = True"
| "top_black (CtxL n c r C) = (if C = Top then c = Black else top_black C)"
| "top_black (CtxR l n c C) = (if C = Top then c = Black else top_black C)"

lemma opt_is_red_at: "tree_at s p t \<Longrightarrow> opt_is_red s (rootp t) \<longleftrightarrow> colr t = Red"
  by (cases t; cases "colr t") (auto simp: opt_is_red_def hev_rbtree_node_is_red_def
      hev_rbtree_node_color_def)

lemma opt_is_black_at: "tree_at s p t \<Longrightarrow> opt_is_black s (rootp t) \<longleftrightarrow> colr t = Black"
  by (cases t; cases "colr t") (auto simp: opt_is_black_def hev_rbtree_node_is_black_def
      hev_rbtree_node_color_def)

lemmas rb_color_defs = hev_rbtree_node_is_black_def hev_rbtree_node_is_red_def
  hev_rbtree_node_color_def hev_rbtree_node_red_parent_def hev_rbtree_node_parent_def

lemma colr_Red_E: "colr u = Red \<Longrightarrow> (\<And>l n r. u = Nd l n Red r \<Longrightarrow> Q) \<Longrightarrow> Q"
  by (cases u) auto

lemma insert_round_left:
  assumes "rb_at s C (Nd w g gc u)" "rootp w = Some p" "rb_pc s p = (Some g, Red)"
  shows "insert_round s n (Some p) =
    Some (case u of Nd ul un Red ur \<Rightarrow> color_flip s un p g | _ \<Rightarrow> Inl (insert_left_rotate s n p g))"
proof -
  have "rb_right s g = rootp u" "rootp u \<noteq> Some p" "tree_at s (Some g) u"
    using assms by (auto simp: rb_at_def dest: rootp_in)
  then show ?thesis
    using assms(3)
    by (cases u; cases "colr u") (auto simp: insert_round_def rb_color_defs opt_is_red_def)
qed

lemma insert_round_right:
  assumes "rb_at s C (Nd u g gc w)" "rootp w = Some p" "rb_pc s p = (Some g, Red)"
  shows "insert_round s n (Some p) =
    Some (case u of Nd ul un Red ur \<Rightarrow> color_flip s un p g | _ \<Rightarrow> Inl (insert_right_rotate s n p g))"
proof -
  have "rb_left s g = rootp u" "rb_right s g = Some p" "tree_at s (Some g) u"
    using assms by (auto simp: rb_at_def)
  then show ?thesis
    using assms(3)
    by (cases u; cases "colr u") (auto simp: insert_round_def rb_color_defs opt_is_red_def)
qed

end
