(* ===== verification/HevRBTreeInsert.thy ===== *)
theory HevRBTreeInsert
  imports HevRBTreeProofs
begin

text \<open>
  The red-black invariants of trees and contexts, and the correctness of
  \<^verbatim>\<open>hev_rbtree_insert_color\<close>: the loop ends, the in-order sequence is kept and the
  invariants are restored.
\<close>

section \<open>Red-black invariants\<close>

fun bheight :: "'n rbt \<Rightarrow> nat" where
  "bheight Lf = 0"
| "bheight (Nd l n c r) = bheight l + (if c = Black then 1 else 0)"

fun invc :: "'n rbt \<Rightarrow> bool" where
  "invc Lf = True"
| "invc (Nd l n c r) \<longleftrightarrow> invc l \<and> invc r \<and> (c = Red \<longrightarrow> colr l = Black \<and> colr r = Black)"

fun invh :: "'n rbt \<Rightarrow> bool" where
  "invh Lf = True"
| "invh (Nd l n c r) \<longleftrightarrow> invh l \<and> invh r \<and> bheight l = bheight r"

definition rbt_ok :: "'n rbt \<Rightarrow> bool" where
  "rbt_ok t \<longleftrightarrow> invc t \<and> invh t \<and> colr t = Black"

fun cpcol :: "'n rb_ctx \<Rightarrow> rb_color" where
  "cpcol Top = Red"
| "cpcol (CtxL n c r C) = c"
| "cpcol (CtxR l n c C) = c"

fun cinvh :: "'n rb_ctx \<Rightarrow> nat \<Rightarrow> bool" where
  "cinvh Top h = True"
| "cinvh (CtxL n c r C) h \<longleftrightarrow> invh r \<and> bheight r = h \<and> cinvh C (h + (if c = Black then 1 else 0))"
| "cinvh (CtxR l n c C) h \<longleftrightarrow> invh l \<and> bheight l = h \<and> cinvh C (h + (if c = Black then 1 else 0))"

fun cinvc :: "'n rb_ctx \<Rightarrow> bool" where
  "cinvc Top = True"
| "cinvc (CtxL n c r C) \<longleftrightarrow> invc r \<and> (c = Red \<longrightarrow> colr r = Black \<and> cpcol C = Black) \<and> cinvc C"
| "cinvc (CtxR l n c C) \<longleftrightarrow> invc l \<and> (c = Red \<longrightarrow> colr l = Black \<and> cpcol C = Black) \<and> cinvc C"

lemma color_not [simp]: "c \<noteq> Red \<longleftrightarrow> c = Black" "c \<noteq> Black \<longleftrightarrow> c = Red"
  by (cases c; simp)+

lemma rbt_ok_plug:
  "rbt_ok (plug C t) \<longleftrightarrow> invc t \<and> invh t \<and> cinvh C (bheight t) \<and> cinvc C \<and>
     (colr t = Red \<longrightarrow> cpcol C = Black)"
proof (induction C arbitrary: t)
  case Top
  show ?case by (cases "colr t") (auto simp: rbt_ok_def)
next
  case (CtxL n c r C)
  show ?case by (auto simp: CtxL.IH)
next
  case (CtxR l n c C)
  show ?case by (auto simp: CtxR.IH)
qed

lemma invc_paint [simp]: "invc t \<Longrightarrow> invc (blk t)" "invh (paint d t) = invh t" "colr (blk t) = Black"
  by (cases t; simp)+

lemma blk_black [simp]: "colr t = Black \<Longrightarrow> blk t = t"
  by (cases t) auto

lemma bheight_blk: "bheight (blk t) = (if colr t = Red then Suc (bheight t) else bheight t)"
  by (cases t) auto

section \<open>The insertion loop\<close>

lemma top_black_inv: "cinvc C \<Longrightarrow> C \<noteq> Top \<Longrightarrow> top_black C"
  by (induction C) (auto split: if_splits)

lemma inord_ins_up: "inord (ins_up C t) = inord (plug C t)"
  by (induction C t rule: ins_up.induct) (auto simp: inord_plug split: rbt.splits)

lemma rbt_ok_ins_up:
  assumes "cinvc C" "cinvh C (bheight t)" "t = Nd a n Red b" "invc t" "invh t"
  shows "rbt_ok (ins_up C t)"
  using assms
proof (induction C t arbitrary: a n b rule: ins_up.induct)
  case (1 t)
  then show ?case by (auto simp: rbt_ok_def)
qed (auto simp: rbt_ok_plug bheight_blk)

lemma rb_at_push:
  "rb_at s (CtxL n c r C) t \<longleftrightarrow> rb_at s C (Nd t n c r)"
  "rb_at s (CtxR l n c C) t \<longleftrightarrow> rb_at s C (Nd l n c t)"
  by (simp_all add: rb_at_repr)

lemma insert_loop_black:
  assumes "rb_pc s p = (q, Black)"
  shows "insert_loop s n (Some p) = Some s"
  using assms by (simp add: insert_loop.simps [of s] insert_round_def rb_color_defs)

lemma insert_loop_round:
  assumes "insert_round s n p = Some (Inl s')"
  shows "insert_loop s n p = Some s'"
  using assms by (simp add: insert_loop.simps [of s])

lemma insert_loop_next:
  assumes "insert_round s n p = Some r" "r = Inr (s', n', p')"
  shows "insert_loop s n p = insert_loop s' n' p'"
  using assms by (simp add: insert_loop.simps [of s])

lemma insert_loop_left:
  assumes at: "rb_at s C (Nd (Nd a p Red b) g gc u)"
    and flip: "\<And>s'. colr u = Red \<Longrightarrow> rb_at s' C (Nd (Nd a p Black b) g Red (blk u)) \<Longrightarrow>
      \<exists>s''. insert_loop s' g (cpar C) = Some s'' \<and> rb_repr s'' w"
    and rot: "colr u = Black \<Longrightarrow> rb_at (insert_left_rotate s n p g) C v \<and> w = plug C v"
  shows "\<exists>s'. insert_loop s n (Some p) = Some s' \<and> rb_repr s' w"
proof (cases "colr u")
  case HEV_RBTREE_RED
  then obtain ul un ur where u: "u = Nd ul un Red ur" by (cases u) auto
  obtain s1 where "color_flip s un p g = Inr (s1, g, cpar C)"
    and "rb_at s1 C (Nd (Nd a p Black b) g Red (blk u))"
    using color_flip_left at u by fastforce
  then show ?thesis
    using insert_round_left [OF at, of p n] at u flip [of s1]
    by (simp add: rb_at_def insert_loop_next)
next
  case HEV_RBTREE_BLACK
  have "insert_round s n (Some p) = Some (Inl (insert_left_rotate s n p g))"
    using insert_round_left [OF at, of p n] at HEV_RBTREE_BLACK by (cases u) (auto simp: rb_at_def)
  then show ?thesis
    using rot HEV_RBTREE_BLACK by (auto dest: insert_loop_round simp: rb_at_repr)
qed

lemma insert_loop_right:
  assumes at: "rb_at s C (Nd u g gc (Nd a p Red b))"
    and flip: "\<And>s'. colr u = Red \<Longrightarrow> rb_at s' C (Nd (blk u) g Red (Nd a p Black b)) \<Longrightarrow>
      \<exists>s''. insert_loop s' g (cpar C) = Some s'' \<and> rb_repr s'' w"
    and rot: "colr u = Black \<Longrightarrow> rb_at (insert_right_rotate s n p g) C v \<and> w = plug C v"
  shows "\<exists>s'. insert_loop s n (Some p) = Some s' \<and> rb_repr s' w"
proof (cases "colr u")
  case HEV_RBTREE_RED
  then obtain ul un ur where u: "u = Nd ul un Red ur" by (cases u) auto
  obtain s1 where "color_flip s un p g = Inr (s1, g, cpar C)"
    and "rb_at s1 C (Nd (blk u) g Red (Nd a p Black b))"
    using color_flip_right at u by fastforce
  then show ?thesis
    using insert_round_right [OF at, of p n] at u flip [of s1]
    by (simp add: rb_at_def insert_loop_next)
next
  case HEV_RBTREE_BLACK
  have "insert_round s n (Some p) = Some (Inl (insert_right_rotate s n p g))"
    using insert_round_right [OF at, of p n] at HEV_RBTREE_BLACK by (cases u) (auto simp: rb_at_def)
  then show ?thesis
    using rot HEV_RBTREE_BLACK by (auto dest: insert_loop_round simp: rb_at_repr)
qed

lemma insert_loop_refines:
  assumes "rb_at s C t" "rootp t = Some n" "top_black C"
  shows "\<exists>s'. insert_loop s n (cpar C) = Some s' \<and> rb_repr s' (ins_up C t)"
  using assms
proof (induction C t arbitrary: s n rule: ins_up.induct)
  case (1 t)
  then show ?case
    by (cases t) (auto simp: insert_loop.simps [of s] insert_round_def rb_at_def rb_repr_def
        hev_rbtree_node_set_parent_color_def)
next
  case (2 p r C t)
  then have "insert_loop s n (Some p) = Some s"
    by (intro insert_loop_black) (auto simp: rb_at_def)
  then show ?case using 2(1) by (simp add: rb_at_repr)
next
  case (3 l p C t)
  then have "insert_loop s n (Some p) = Some s"
    by (intro insert_loop_black) (auto simp: rb_at_def)
  then show ?case using 3(1) by (simp add: rb_at_repr)
next
  case (4 p r g gc u C t)
  then have at: "rb_at s C (Nd (Nd t p Red r) g gc u)" by (simp add: rb_at_push)
  have tb: "top_black C" using 4(4) by (auto split: if_splits)
  show ?case unfolding cpar.simps
  proof (rule insert_loop_left [OF at])
    show "\<exists>s''. insert_loop s' g (cpar C) = Some s'' \<and> rb_repr s'' (ins_up (CtxL p Red r (CtxL g gc u C)) t)"
      if "colr u = Red" "rb_at s' C (Nd (Nd t p Black r) g Red (blk u))" for s'
      using 4(1) [OF that] tb that(1) by simp
    show "rb_at (insert_left_rotate s n p g) C (Nd t p gc (Nd (blk r) g Red u)) \<and> ins_up (CtxL p Red r (CtxL g gc u C)) t = plug C (Nd t p gc (Nd (blk r) g Red u))"
      if "colr u = Black" using insert_left_rotate_outer [OF at 4(3)] that by simp
  qed
next
  case (5 l p g gc u C t)
  then have at: "rb_at s C (Nd (Nd l p Red t) g gc u)" by (simp add: rb_at_push)
  have tb: "top_black C" using 5(4) by (auto split: if_splits)
  obtain a c b where t: "t = Nd a n c b" using 5(3) by (cases t) auto
  show ?case unfolding cpar.simps
  proof (rule insert_loop_left [OF at])
    show "\<exists>s''. insert_loop s' g (cpar C) = Some s'' \<and> rb_repr s'' (ins_up (CtxR l p Red (CtxL g gc u C)) t)"
      if "colr u = Red" "rb_at s' C (Nd (Nd l p Black t) g Red (blk u))" for s'
      using 5(1) [OF that] tb that(1) by simp
    show "rb_at (insert_left_rotate s n p g) C (Nd (Nd l p Red (blk a)) n gc (Nd (blk b) g Red u)) \<and> ins_up (CtxR l p Red (CtxL g gc u C)) t = plug C (Nd (Nd l p Red (blk a)) n gc (Nd (blk b) g Red u))"
      if "colr u = Black" using insert_left_rotate_inner [OF at [unfolded t]] that by (simp add: t)
  qed
next
  case (6 l p u g gc C t)
  then have at: "rb_at s C (Nd u g gc (Nd l p Red t))" by (simp add: rb_at_push)
  have tb: "top_black C" using 6(4) by (auto split: if_splits)
  show ?case unfolding cpar.simps
  proof (rule insert_loop_right [OF at])
    show "\<exists>s''. insert_loop s' g (cpar C) = Some s'' \<and> rb_repr s'' (ins_up (CtxR l p Red (CtxR u g gc C)) t)"
      if "colr u = Red" "rb_at s' C (Nd (blk u) g Red (Nd l p Black t))" for s'
      using 6(1) [OF that] tb that(1) by simp
    show "rb_at (insert_right_rotate s n p g) C (Nd (Nd u g Red (blk l)) p gc t) \<and> ins_up (CtxR l p Red (CtxR u g gc C)) t = plug C (Nd (Nd u g Red (blk l)) p gc t)"
      if "colr u = Black" using insert_right_rotate_outer [OF at 6(3)] that by simp
  qed
next
  case (7 p r u g gc C t)
  then have at: "rb_at s C (Nd u g gc (Nd t p Red r))" by (simp add: rb_at_push)
  have tb: "top_black C" using 7(4) by (auto split: if_splits)
  obtain a c b where t: "t = Nd a n c b" using 7(3) by (cases t) auto
  show ?case unfolding cpar.simps
  proof (rule insert_loop_right [OF at])
    show "\<exists>s''. insert_loop s' g (cpar C) = Some s'' \<and> rb_repr s'' (ins_up (CtxL p Red r (CtxR u g gc C)) t)"
      if "colr u = Red" "rb_at s' C (Nd (blk u) g Red (Nd t p Black r))" for s'
      using 7(1) [OF that] tb that(1) by simp
    show "rb_at (insert_right_rotate s n p g) C (Nd (Nd u g Red (blk a)) n gc (Nd (blk b) p Red r)) \<and> ins_up (CtxL p Red r (CtxR u g gc C)) t = plug C (Nd (Nd u g Red (blk a)) n gc (Nd (blk b) p Red r))"
      if "colr u = Black" using insert_right_rotate_inner [OF at [unfolded t]] that by (simp add: t)
  qed
qed simp_all

section \<open>Linking a node and restoring the invariants\<close>

fun ctx_link :: "'n rb_ctx \<Rightarrow> 'n rb_link" where
  "ctx_link Top = LinkRoot"
| "ctx_link (CtxL n c r C) = LinkLeft n"
| "ctx_link (CtxR l n c C) = LinkRight n"

lemma node_link_at:
  assumes "rb_at s C Lf" "n \<notin> cnds C"
  shows "rb_at (hev_rbtree_node_link s n (cpar C) (ctx_link C)) C (Nd Lf n Red Lf)"
  using assms unfolding rb_at_def hev_rbtree_node_link_def
  by (cases C) (auto simp: Let_def rb_field_defs)

text \<open>
  Linking a fresh node at an empty position and recolouring: the call returns, the new node stands
  at that position in the in-order sequence, and the result is again a red-black tree.
\<close>

lemma insert_color_correct:
  assumes "rb_repr s (plug C Lf)" "rbt_ok (plug C Lf)" "n \<notin> cnds C"
  shows "\<exists>s' t'. hev_rbtree_insert_color (hev_rbtree_node_link s n (cpar C) (ctx_link C)) n = Some s'
     \<and> rb_repr s' t' \<and> rbt_ok t' \<and> inord t' = pre C @ n # post C"
proof -
  let ?s = "hev_rbtree_node_link s n (cpar C) (ctx_link C)" and ?t = "Nd Lf n Red Lf"
  have at: "rb_at ?s C ?t" using assms(1,3) by (intro node_link_at) (simp_all add: rb_at_repr)
  have ctx: "cinvc C" "cinvh C 0" using assms(2) by (auto simp: rbt_ok_plug)
  have "top_black C" using ctx top_black_inv by (cases "C = Top") auto
  from insert_loop_refines [OF at _ this, of n] obtain s' where
    s': "insert_loop ?s n (cpar C) = Some s'" "rb_repr s' (ins_up C ?t)" by auto
  moreover have "hev_rbtree_node_red_parent ?s n = Some (cpar C)"
    using at by (simp add: rb_at_def hev_rbtree_node_red_parent_def)
  ultimately have "hev_rbtree_insert_color ?s n = Some s'"
    by (simp add: hev_rbtree_insert_color_def)
  moreover have "rbt_ok (ins_up C ?t)" using ctx by (intro rbt_ok_ins_up) auto
  moreover have "inord (ins_up C ?t) = pre C @ n # post C" by (simp add: inord_ins_up inord_plug)
  ultimately show ?thesis using s'(2) by blast
qed

end
