(* ===== verification/HevRBTreeErase.thy ===== *)
theory HevRBTreeErase
  imports HevRBTreeInsert
begin

text \<open>
  The correctness of \<^verbatim>\<open>hev_rbtree_erase\<close>: unlinking a node keeps the in-order sequence
  of the others, and the rebalancing loop ends with a red-black tree.
\<close>

section \<open>Rebalancing at the tree level\<close>

text \<open>
  The deficient tree \<open>t\<close> below parent \<open>p\<close> with a black sibling \<open>s\<close>: either a rotation ends
  the loop (\<^term>\<open>Inl\<close>), or the deficiency moves up (\<^term>\<open>Inr\<close>).
\<close>

fun sib_left :: "'n rbt \<Rightarrow> 'n \<Rightarrow> rb_color \<Rightarrow> 'n rbt \<Rightarrow> 'n \<Rightarrow> 'n rbt \<Rightarrow> 'n rbt + 'n rbt" where
  "sib_left t p c a s (Nd b1 b' Red b2) = Inl (Nd (Nd t p Black a) s c (Nd b1 b' Black b2))"
| "sib_left t p c (Nd a1 a' Red a2) s b = Inl (Nd (Nd t p Black a1) a' c (Nd (blk a2) s Black b))"
| "sib_left t p c a s b = (if c = Red then Inl else Inr) (Nd t p Black (Nd a s Red b))"

fun sib_right :: "'n rbt \<Rightarrow> 'n \<Rightarrow> rb_color \<Rightarrow> 'n rbt \<Rightarrow> 'n \<Rightarrow> 'n rbt \<Rightarrow> 'n rbt + 'n rbt" where
  "sib_right t p c (Nd b1 b' Red b2) s a = Inl (Nd (Nd b1 b' Black b2) s c (Nd a p Black t))"
| "sib_right t p c b s (Nd a1 a' Red a2) = Inl (Nd (Nd b s Black (blk a1)) a' c (Nd a2 p Black t))"
| "sib_right t p c b s a = (if c = Red then Inl else Inr) (Nd (Nd b s Red a) p Black t)"

fun unsum :: "'a + 'a \<Rightarrow> 'a" where
  "unsum (Inl x) = x"
| "unsum (Inr x) = x"

fun era_up :: "'n rb_ctx \<Rightarrow> 'n rbt \<Rightarrow> 'n rbt" where
  "era_up Top t = t"
| "era_up (CtxL p c Lf C) t = plug C (Nd t p c Lf)"
| "era_up (CtxL p c (Nd a s Black b) C) t =
     (case sib_left t p c a s b of Inl v \<Rightarrow> plug C v | Inr v \<Rightarrow> era_up C v)"
| "era_up (CtxL p c (Nd Lf s Red b) C) t = plug C (Nd t p c (Nd Lf s Red b))"
| "era_up (CtxL p c (Nd (Nd a1 s' d a2) s Red b) C) t =
     plug C (Nd (unsum (sib_left t p Red a1 s' a2)) s c b)"
| "era_up (CtxR Lf p c C) t = plug C (Nd Lf p c t)"
| "era_up (CtxR (Nd b s Black a) p c C) t =
     (case sib_right t p c b s a of Inl v \<Rightarrow> plug C v | Inr v \<Rightarrow> era_up C v)"
| "era_up (CtxR (Nd b s Red Lf) p c C) t = plug C (Nd (Nd b s Red Lf) p c t)"
| "era_up (CtxR (Nd b s Red (Nd a1 s' d a2)) p c C) t =
     plug C (Nd b s c (unsum (sib_right t p Red a1 s' a2)))"

lemma inord_sib_left: "inord (unsum (sib_left t p c a s b)) = inord t @ p # inord a @ s # inord b"
  by (cases "(t, p, c, a, s, b)" rule: sib_left.cases) auto

lemma inord_sib_right: "inord (unsum (sib_right t p c b s a)) = inord b @ s # inord a @ p # inord t"
  by (cases "(t, p, c, b, s, a)" rule: sib_right.cases) auto

lemma inord_era_up: "inord (era_up C t) = inord (plug C t)"
proof (induction C t rule: era_up.induct)
  case (3 p c a s b C t)
  then show ?case
    using inord_sib_left [of t p c a s b] by (auto simp: inord_plug split: sum.splits)
next
  case (7 b s a p c C t)
  then show ?case
    using inord_sib_right [of t p c b s a] by (auto simp: inord_plug split: sum.splits)
qed (auto simp: inord_plug inord_sib_left inord_sib_right)

text \<open>What the loop relies on: the hole is one black node short and holds a black tree.\<close>

definition era_pre :: "'n rb_ctx \<Rightarrow> 'n rbt \<Rightarrow> bool" where
  "era_pre C t \<longleftrightarrow> cinvc C \<and> cinvh C (Suc (bheight t)) \<and> invc t \<and> invh t \<and> colr t = Black"

lemma rbt_ok_era_up: "era_pre C t \<Longrightarrow> rbt_ok (era_up C t)"
proof (induction C t rule: era_up.induct)
  case (1 t)
  then show ?case by (simp add: era_pre_def rbt_ok_def)
next
  case (3 p c a s b C t)
  then show ?case
    by (cases "(t, p, c, a, s, b)" rule: sib_left.cases)
       (auto simp: era_pre_def rbt_ok_plug bheight_blk split: if_splits)
next
  case (5 p c a1 s' d a2 s b C t)
  then show ?case
    by (cases "(t, p, Red, a1, s', a2)" rule: sib_left.cases)
       (auto simp: era_pre_def rbt_ok_plug bheight_blk split: if_splits)
next
  case (7 b s a p c C t)
  then show ?case
    by (cases "(t, p, c, b, s, a)" rule: sib_right.cases)
       (auto simp: era_pre_def rbt_ok_plug bheight_blk split: if_splits)
next
  case (9 b s a1 s' d a2 p c C t)
  then show ?case
    by (cases "(t, p, Red, a1, s', a2)" rule: sib_right.cases)
       (auto simp: era_pre_def rbt_ok_plug bheight_blk split: if_splits)
qed (auto simp: era_pre_def)

section \<open>One round on the heap\<close>

lemma erase_left_sibling_red:
  assumes "rb_at s C (Nd t p c (Nd (Nd a1 s' d a2) w Red b))"
  shows "\<exists>h. erase_left_sibling s p w = Some (h, s') \<and>
           rb_at h C (Nd (Nd t p Red (Nd a1 s' Black a2)) w c b)"
  using assms unfolding erase_left_sibling_def rb_at_def [of s]
  by (auto simp: rb_field_defs rb_color_defs rb_sets intro!: rotate_set_parents_at [where c = c])

lemma erase_right_sibling_red:
  assumes "rb_at s C (Nd (Nd b w Red (Nd a1 s' d a2)) p c t)"
  shows "\<exists>h. erase_right_sibling s p w = Some (h, s') \<and>
           rb_at h C (Nd b w c (Nd (Nd a1 s' Black a2) p Red t))"
  using assms unfolding erase_right_sibling_def rb_at_def [of s]
  by (auto simp: rb_field_defs rb_color_defs rb_sets intro!: rotate_set_parents_at [where c = c])

lemma erase_left_rotate_outer:
  assumes "rb_at s C (Nd t p c (Nd a w d (Nd b1 b' Red b2)))"
  shows "\<exists>h. erase_left_rotate s p w = Some h \<and>
           rb_at h C (Nd (Nd t p Black a) w c (Nd b1 b' Black b2))"
  using assms unfolding erase_left_rotate_def rb_at_def [of s]
  by (cases a) (auto simp: opt_is_black_def rb_field_defs rb_color_defs rb_sets
      intro!: rotate_set_parents_at [where c = c])

lemma erase_left_rotate_inner:
  assumes "rb_at s C (Nd t p c (Nd (Nd a1 a' d a2) w e b))" "colr b = Black"
  shows "\<exists>h. erase_left_rotate s p w = Some h \<and>
           rb_at h C (Nd (Nd t p Black a1) a' c (Nd (blk a2) w Black b))"
proof -
  have "opt_is_black s (rb_right s w)"
    using assms opt_is_black_at [of s "Some w" b] by (simp add: rb_at_def)
  then show ?thesis
    using assms unfolding erase_left_rotate_def rb_at_def [of s]
    by (cases a1; cases a2) (auto simp: rb_field_defs rb_sets
        intro!: rotate_set_parents_at [where c = c])
qed

lemma erase_right_rotate_outer:
  assumes "rb_at s C (Nd (Nd (Nd b1 b' Red b2) w d a) p c t)"
  shows "\<exists>h. erase_right_rotate s p w = Some h \<and>
           rb_at h C (Nd (Nd b1 b' Black b2) w c (Nd a p Black t))"
  using assms unfolding erase_right_rotate_def rb_at_def [of s]
  by (cases a) (auto simp: opt_is_black_def rb_field_defs rb_color_defs rb_sets
      intro!: rotate_set_parents_at [where c = c])

lemma erase_right_rotate_inner:
  assumes "rb_at s C (Nd (Nd b w e (Nd a1 a' d a2)) p c t)" "colr b = Black"
  shows "\<exists>h. erase_right_rotate s p w = Some h \<and>
           rb_at h C (Nd (Nd b w Black (blk a1)) a' c (Nd a2 p Black t))"
proof -
  have "opt_is_black s (rb_left s w)"
    using assms opt_is_black_at [of s "Some w" b] by (simp add: rb_at_def)
  then show ?thesis
    using assms unfolding erase_right_rotate_def rb_at_def [of s]
    by (cases a1; cases a2) (auto simp: rb_field_defs rb_sets
        intro!: rotate_set_parents_at [where c = c])
qed

text \<open>What a round leaves: the finished heap, or the heap with the deficiency one level up.\<close>

definition era_rel :: "'n era_round \<Rightarrow> 'n rb_ctx \<Rightarrow> 'n rbt + 'n rbt \<Rightarrow> bool" where
  "era_rel rd C v \<longleftrightarrow>
     (case v of
        Inl u \<Rightarrow> (case rd of Inl h \<Rightarrow> rb_at h C u | Inr _ \<Rightarrow> False)
      | Inr u \<Rightarrow> (case cpar C of
          None \<Rightarrow> (case rd of Inl h \<Rightarrow> rb_at h C u | Inr _ \<Rightarrow> False)
        | Some q \<Rightarrow> (case rd of Inl _ \<Rightarrow> False
            | Inr (h, x, y) \<Rightarrow> rb_at h C u \<and> x = rootp u \<and> y = q)))"

lemma era_rel_Inl: "era_rel rd C (Inl u) \<longleftrightarrow> (\<exists>h. rd = Inl h \<and> rb_at h C u)"
  by (cases rd) (auto simp: era_rel_def)

lemma sibling_flip_left:
  assumes "rb_at s C (Nd t p c (Nd a w d b))"
  shows "era_rel (sibling_flip s w p) C ((if c = Red then Inl else Inr) (Nd t p Black (Nd a w Red b)))"
  using assms unfolding sibling_flip_def rb_at_def era_rel_def
  by (cases c) (auto simp: Let_def rb_field_defs rb_color_defs rb_sets rb_at_def split: option.splits)

lemma sibling_flip_right:
  assumes "rb_at s C (Nd (Nd b w d a) p c t)"
  shows "era_rel (sibling_flip s w p) C ((if c = Red then Inl else Inr) (Nd (Nd b w Red a) p Black t))"
  using assms unfolding sibling_flip_def rb_at_def era_rel_def
  by (cases c) (auto simp: Let_def rb_field_defs rb_color_defs rb_sets rb_at_def split: option.splits)

lemma erase_left_tail:
  assumes at: "rb_at s C (Nd t p c (Nd a w d b))"
  shows "\<exists>rd. (if opt_is_black s (rb_right s w) \<and> opt_is_black s (rb_left s w)
            then Some (sibling_flip s w p) else map_option Inl (erase_left_rotate s p w)) = Some rd
         \<and> era_rel rd C (sib_left t p c a w b)"
proof -
  have cols: "opt_is_black s (rb_right s w) \<longleftrightarrow> colr b = Black"
    "opt_is_black s (rb_left s w) \<longleftrightarrow> colr a = Black"
    using at opt_is_black_at [of s "Some w"] by (auto simp: rb_at_def)
  consider (far) b1 b' b2 where "b = Nd b1 b' Red b2"
    | (near) a1 a' a2 where "colr b = Black" "a = Nd a1 a' Red a2"
    | (none) "colr b = Black" "colr a = Black"
    by (cases "colr b"; cases "colr a"; cases a; cases b; auto)
  then show ?thesis
  proof cases
    case far
    then show ?thesis
      using erase_left_rotate_outer [OF at [unfolded far]] by (auto simp: cols era_rel_def)
  next
    case near
    then have "sib_left t p c a w b = Inl (Nd (Nd t p Black a1) a' c (Nd (blk a2) w Black b))"
      by (cases b) auto
    then show ?thesis
      using erase_left_rotate_inner [OF at [unfolded near(2)] near(1)] near
      by (auto simp: cols era_rel_def)
  next
    case none
    then have "sib_left t p c a w b = (if c = Red then Inl else Inr) (Nd t p Black (Nd a w Red b))"
      by (cases a; cases b) auto
    then show ?thesis using sibling_flip_left [OF at] none by (simp add: cols)
  qed
qed

lemma erase_right_tail:
  assumes at: "rb_at s C (Nd (Nd b w d a) p c t)"
  shows "\<exists>rd. (if opt_is_black s (rb_left s w) \<and> opt_is_black s (rb_right s w)
            then Some (sibling_flip s w p) else map_option Inl (erase_right_rotate s p w)) = Some rd
         \<and> era_rel rd C (sib_right t p c b w a)"
proof -
  have cols: "opt_is_black s (rb_left s w) \<longleftrightarrow> colr b = Black"
    "opt_is_black s (rb_right s w) \<longleftrightarrow> colr a = Black"
    using at opt_is_black_at [of s "Some w"] by (auto simp: rb_at_def)
  consider (far) b1 b' b2 where "b = Nd b1 b' Red b2"
    | (near) a1 a' a2 where "colr b = Black" "a = Nd a1 a' Red a2"
    | (none) "colr b = Black" "colr a = Black"
    by (cases "colr b"; cases "colr a"; cases a; cases b; auto)
  then show ?thesis
  proof cases
    case far
    then show ?thesis
      using erase_right_rotate_outer [OF at [unfolded far]] by (auto simp: cols era_rel_def)
  next
    case near
    then have "sib_right t p c b w a = Inl (Nd (Nd b w Black (blk a1)) a' c (Nd a2 p Black t))"
      by (cases b) auto
    then show ?thesis
      using erase_right_rotate_inner [OF at [unfolded near(2)] near(1)] near
      by (auto simp: cols era_rel_def)
  next
    case none
    then have "sib_right t p c b w a = (if c = Red then Inl else Inr) (Nd (Nd b w Red a) p Black t)"
      by (cases a; cases b) auto
    then show ?thesis using sibling_flip_right [OF at] none by (simp add: cols)
  qed
qed

lemma erase_round_left_black:
  assumes at: "rb_at s C (Nd t p c (Nd a w Black b))"
  shows "\<exists>rd. erase_round s (rootp t) p = Some rd \<and> era_rel rd C (sib_left t p c a w b)"
proof -
  have "rb_right s p = Some w" "rootp t \<noteq> Some w"
    using at by (auto simp: rb_at_def dest: rootp_in)
  moreover have "erase_left_sibling s p w = Some (s, w)"
    using at by (simp add: erase_left_sibling_def rb_color_defs rb_at_def)
  ultimately show ?thesis
    using erase_left_tail [OF at] by (simp add: erase_round_def erase_left_def)
qed

lemma erase_round_right_black:
  assumes at: "rb_at s C (Nd (Nd b w Black a) p c t)"
  shows "\<exists>rd. erase_round s (rootp t) p = Some rd \<and> era_rel rd C (sib_right t p c b w a)"
proof -
  have "rb_left s p = Some w" "rb_right s p = rootp t"
    using at by (auto simp: rb_at_def)
  moreover have "erase_right_sibling s p w = Some (s, w)"
    using at by (simp add: erase_right_sibling_def rb_color_defs rb_at_def)
  ultimately show ?thesis
    using erase_right_tail [OF at] by (simp add: erase_round_def erase_right_def)
qed

text \<open>A red sibling is rotated away first; its parent is red then, so the round ends the loop.\<close>

lemma sib_Red_Inl: "\<exists>v. sib_left t p Red a w b = Inl v" "\<exists>v. sib_right t p Red b w a = Inl v"
  by (cases "(t, p, Red, a, w, b)" rule: sib_left.cases; simp)
     (cases "(t, p, Red, b, w, a)" rule: sib_right.cases; simp)

lemma erase_round_left_red:
  assumes at: "rb_at s C (Nd t p c (Nd (Nd a1 s' d a2) w Red b))"
  shows "\<exists>h. erase_round s (rootp t) p = Some (Inl h) \<and>
           rb_at h C (Nd (unsum (sib_left t p Red a1 s' a2)) w c b)"
proof -
  obtain h where h: "erase_left_sibling s p w = Some (h, s')"
    "rb_at h (CtxL w c b C) (Nd t p Red (Nd a1 s' Black a2))"
    using erase_left_sibling_red [OF at] by (auto simp: rb_at_push)
  obtain v where v: "sib_left t p Red a1 s' a2 = Inl v" using sib_Red_Inl by metis
  have "rb_right s p = Some w" "rootp t \<noteq> Some w"
    using at by (auto simp: rb_at_def dest: rootp_in)
  then show ?thesis
    using erase_left_tail [OF h(2), unfolded v era_rel_Inl] h(1) v
    by (auto simp: erase_round_def erase_left_def rb_at_push)
qed

lemma erase_round_right_red:
  assumes at: "rb_at s C (Nd (Nd b w Red (Nd a1 s' d a2)) p c t)"
  shows "\<exists>h. erase_round s (rootp t) p = Some (Inl h) \<and>
           rb_at h C (Nd b w c (unsum (sib_right t p Red a1 s' a2)))"
proof -
  obtain h where h: "erase_right_sibling s p w = Some (h, s')"
    "rb_at h (CtxR b w c C) (Nd (Nd a1 s' Black a2) p Red t)"
    using erase_right_sibling_red [OF at] by (auto simp: rb_at_push)
  obtain v where v: "sib_right t p Red a1 s' a2 = Inl v" using sib_Red_Inl by metis
  have "rb_left s p = Some w" "rb_right s p = rootp t"
    using at by (auto simp: rb_at_def)
  then show ?thesis
    using erase_right_tail [OF h(2), unfolded v era_rel_Inl] h(1) v
    by (auto simp: erase_round_def erase_right_def rb_at_push)
qed

section \<open>The rebalancing loop\<close>

lemma erase_loop_round:
  assumes "erase_round s x p = Some (Inl h)"
  shows "erase_loop s x p = Some h"
  using assms by (simp add: erase_loop.simps [of s])

lemma era_pre_up_left:
  assumes "era_pre (CtxL p c (Nd a s Black b) C) t" "sib_left t p c a s b = Inr v"
  shows "era_pre C v"
  using assms
  by (cases "(t, p, c, a, s, b)" rule: sib_left.cases) (auto simp: era_pre_def split: if_splits)

lemma era_pre_up_right:
  assumes "era_pre (CtxR (Nd b s Black a) p c C) t" "sib_right t p c b s a = Inr v"
  shows "era_pre C v"
  using assms
  by (cases "(t, p, c, b, s, a)" rule: sib_right.cases) (auto simp: era_pre_def split: if_splits)

lemma erase_loop_black:
  assumes rd: "erase_round s x p = Some rd" "era_rel rd C w"
    and up: "\<And>v h q. w = Inr v \<Longrightarrow> rb_at h C v \<Longrightarrow> cpar C = Some q \<Longrightarrow>
      \<exists>h'. erase_loop h (rootp v) q = Some h' \<and> rb_repr h' (era_up C v)"
  shows "\<exists>h'. erase_loop s x p = Some h' \<and>
    rb_repr h' (case w of Inl v \<Rightarrow> plug C v | Inr v \<Rightarrow> era_up C v)"
proof (cases w)
  case (Inl v)
  then show ?thesis using rd by (auto simp: era_rel_Inl rb_at_repr dest!: erase_loop_round)
next
  case (Inr v)
  show ?thesis
  proof (cases "cpar C")
    case None
    then have "C = Top" by (cases C) auto
    then show ?thesis using rd Inr by (cases rd) (auto simp: era_rel_def rb_at_repr
          dest!: erase_loop_round)
  next
    case (Some q)
    then obtain h where "rd = Inr (h, rootp v, q)" "rb_at h C v"
      using rd Inr by (cases rd) (auto simp: era_rel_def)
    then show ?thesis using rd up [OF Inr] Some Inr by (simp add: erase_loop.simps [of s])
  qed
qed

lemma erase_loop_refines:
  assumes "rb_at s C t" "era_pre C t" "cpar C = Some p"
  shows "\<exists>s'. erase_loop s (rootp t) p = Some s' \<and> rb_repr s' (era_up C t)"
  using assms
proof (induction C t arbitrary: s p rule: era_up.induct)
  case (3 q c a w b C t)
  have at: "rb_at s C (Nd t q c (Nd a w Black b))" using 3(2) by (simp add: rb_at_push)
  obtain rd where "erase_round s (rootp t) q = Some rd" "era_rel rd C (sib_left t q c a w b)"
    using erase_round_left_black [OF at] by blast
  from erase_loop_black [OF this] show ?case
    using 3(1) era_pre_up_left [OF 3(3)] 3(4) by simp
next
  case (5 q c a1 w' d a2 w b C t)
  then have at: "rb_at s C (Nd t q c (Nd (Nd a1 w' d a2) w Red b))" by (simp add: rb_at_push)
  show ?case using erase_round_left_red [OF at] 5(3)
    by (auto simp: rb_at_repr dest!: erase_loop_round)
next
  case (7 b w a q c C t)
  have at: "rb_at s C (Nd (Nd b w Black a) q c t)" using 7(2) by (simp add: rb_at_push)
  obtain rd where "erase_round s (rootp t) q = Some rd" "era_rel rd C (sib_right t q c b w a)"
    using erase_round_right_black [OF at] by blast
  from erase_loop_black [OF this] show ?case
    using 7(1) era_pre_up_right [OF 7(3)] 7(4) by simp
next
  case (9 b w a1 w' d a2 q c C t)
  then have at: "rb_at s C (Nd (Nd b w Red (Nd a1 w' d a2)) q c t)" by (simp add: rb_at_push)
  show ?case using erase_round_right_red [OF at] 9(3)
    by (auto simp: rb_at_repr dest!: erase_loop_round)
qed (auto simp: era_pre_def)

end
