(* ===== verification/HevRBTreeUnlink.thy ===== *)
theory HevRBTreeUnlink
  imports HevRBTreeErase
begin

text \<open>
  Unlinking a node (\<^verbatim>\<open>_hev_rbtree_erase\<close>) and the whole of \<^verbatim>\<open>hev_rbtree_erase\<close>; the
  first and the next node in order.
\<close>

section \<open>A node with at most one child\<close>

lemma change_child_frame:
  assumes "a \<notin> cnds C"
  shows "rb_left (hev_rbtree_change_child s old new (cpar C)) a = rb_left s a"
    and "rb_right (hev_rbtree_change_child s old new (cpar C)) a = rb_right s a"
  using assms by (cases C; simp add: hev_rbtree_change_child_def set_left_def set_right_def)+

lemma unlink_no_left:
  assumes "rb_at s C (Nd Lf n c r)"
  shows "\<exists>h. erase_unlink s n = Some (h, if r = Lf \<and> c = Black then cpar C else None) \<and>
           rb_at h C (paint c r)"
proof -
  let ?h = "hev_rbtree_change_child s n (rootp r) (cpar C)"
  have C: "ctx_at s C (Some n)" "wfc C" "n \<notin> cnds C" "nds r \<inter> cnds C = {}" "cnds C \<inter> nds r = {}"
    using assms by (auto simp: rb_at_def)
  note cc = change_child_ctx [OF C(1-3), where new = "rootp r"]
  have s: "rb_left s n = None" "rb_right s n = rootp r" "rb_pc s n = (cpar C, c)"
    "tree_at s (Some n) r" "wft r"
    using assms by (auto simp: rb_at_def)
  show ?thesis
  proof (cases r)
    case Lf
    then show ?thesis using s C cc
      by (auto simp: erase_unlink_def pc_parent_def pc_is_black_def rb_at_def Let_def)
  next
    case (Nd a m d b)
    have "tree_at ?h (Some n) r" using cc(3) [OF C(4)] s(4) by simp
    then show ?thesis using s C cc(1,2) Nd
      by (auto simp: erase_unlink_def pc_parent_def rb_at_def Let_def)
  qed
qed

lemma unlink_no_right:
  assumes "rb_at s C (Nd l n c Lf)" "l \<noteq> Lf"
  shows "\<exists>h. erase_unlink s n = Some (h, None) \<and> rb_at h C (paint c l)"
proof -
  obtain a m d b where l: "l = Nd a m d b" using assms(2) by (cases l) auto
  let ?s = "s\<lparr>rb_pc := (rb_pc s)(m := (cpar C, c))\<rparr>"
  have s: "rb_left s n = Some m" "rb_right s n = None" "rb_pc s n = (cpar C, c)"
    using assms l by (auto simp: rb_at_def)
  have C: "ctx_at ?s C (Some n)" "wfc C" "n \<notin> cnds C" and t: "tree_at ?s (cpar C) (paint c l)"
    "wft (paint c l)" "cnds C \<inter> nds l = {}" "nds (paint c l) \<inter> cnds C = {}"
    using assms l by (auto simp: rb_at_def)
  note cc = change_child_ctx [OF C, where new = "Some m"]
  have "erase_unlink s n = Some (hev_rbtree_change_child ?s n (Some m) (cpar C), None)"
    using s by (simp add: erase_unlink_def pc_parent_def)
  moreover have "rb_at (hev_rbtree_change_child ?s n (Some m) (cpar C)) C (paint c l)"
    unfolding rb_at_def using cc(1) cc(3) [OF t(4)] t C(2) l by simp
  ultimately show ?thesis by blast
qed

section \<open>A node with two children\<close>

lemma is_tree_cong:
  "(\<And>a. a \<in> nds t \<Longrightarrow> L a = L' a \<and> R a = R' a \<and> P a = P' a) \<Longrightarrow>
   is_tree L R P p t = is_tree L' R' P' p t"
  by (induction t arbitrary: p) auto

lemma unlink_next:
  assumes "rb_at s C (Nd l n c (Nd Lf m mc mr))" "l \<noteq> Lf"
  shows "\<exists>h. erase_unlink s n = Some (h, if mr = Lf \<and> mc = Black then Some m else None) \<and>
           rb_at h C (Nd l m c (blk mr))"
proof -
  obtain a k d b where l: "l = Nd a k d b" using assms(2) by (cases l) auto
  let ?s = "s\<lparr>rb_left := (rb_left s)(m := Some k), rb_pc := (rb_pc s)(k := (Some m, d))\<rparr>"
  let ?h = "hev_rbtree_change_child ?s n (Some m) (cpar C)"
  have C: "ctx_at ?s C (Some n)" "wfc C" "n \<notin> cnds C"
    using assms l by (auto simp: rb_at_def)
  have sub: "nds l \<inter> cnds C = {}" "nds mr \<inter> cnds C = {}" "m \<notin> cnds C"
    using assms by (auto simp: rb_at_def)
  have pre: "tree_at ?s (Some m) l" "tree_at ?s (Some m) mr" "rb_left ?s m = Some k"
      "rb_right ?s m = rootp mr" "rb_pc ?s m = (Some n, mc)" "rb_pc ?s n = (cpar C, c)"
    using assms l by (auto simp: rb_at_def rb_sets)
  note cc = change_child_ctx [OF C, where new = "Some m"]
  have t: "tree_at ?h (Some m) l" "tree_at ?h (Some m) mr" "rb_left ?h m = Some k"
      "rb_right ?h m = rootp mr"
    using pre cc(3) [OF sub(1)] cc(3) [OF sub(2)] change_child_frame [OF sub(3)] by simp_all
  have e: "erase_unlink s n = erase_two s n m"
    using assms l by (simp add: erase_unlink_def rb_at_def)
  show ?thesis
    using assms l pre cc(1,2) t C
    by (cases mr) (auto simp: e erase_two_def rb_at_def rb_field_defs pc_parent_def rb_color_defs rb_sets)
qed

text \<open>The left spine of a tree, innermost first, around its leftmost node.\<close>

fun lmost :: "'n rbt \<Rightarrow> 'n \<Rightarrow> ('n \<times> rb_color \<times> 'n rbt) list \<times> 'n \<times> rb_color \<times> 'n rbt" where
  "lmost Lf x = ([], x, Red, Lf)"
| "lmost (Nd Lf m c r) x = ([], m, c, r)"
| "lmost (Nd (Nd a k d b) m c r) x =
     (case lmost (Nd a k d b) x of (ds, y) \<Rightarrow> (ds @ [(m, c, r)], y))"

fun lsp :: "('n \<times> rb_color \<times> 'n rbt) list \<Rightarrow> 'n rb_ctx \<Rightarrow> 'n rb_ctx" where
  "lsp [] C = C"
| "lsp ((n, c, r) # ds) C = CtxL n c r (lsp ds C)"

lemma lsp_append: "lsp (ds @ es) C = lsp ds (lsp es C)"
  by (induction ds) auto

lemma plug_lmost:
  "t \<noteq> Lf \<Longrightarrow> lmost t x = (ds, m, c, r) \<Longrightarrow> plug C t = plug (lsp ds C) (Nd Lf m c r)"
proof (induction t x arbitrary: C ds rule: lmost.induct)
  case (3 a k' d b m' c' r' x)
  obtain es where es: "lmost (Nd a k' d b) x = (es, m, c, r)" "ds = es @ [(m', c', r')]"
    using 3(3) by (auto split: prod.splits)
  have "plug (CtxL m' c' r' C) (Nd a k' d b) = plug (lsp es (CtxL m' c' r' C)) (Nd Lf m c r)"
    using 3(1) [OF _ es(1)] by blast
  then show ?case by (simp add: es(2) lsp_append)
qed auto

lemma successor_loop_lmost:
  "tree_at s q t \<Longrightarrow> rootp t = Some k \<Longrightarrow> lmost t x = (ds, m, c, r) \<Longrightarrow>
   successor_loop s y k = Some (if ds = [] then y else fst (hd ds), m)"
proof (induction t x arbitrary: q k ds y rule: lmost.induct)
  case (3 a k' d b m' c' r' x)
  obtain es where es: "lmost (Nd a k' d b) x = (es, m, c, r)" "ds = es @ [(m', c', r')]"
    using 3(4) by (auto split: prod.splits)
  then show ?case
    using 3(1) [of "Some m'" k' es m'] 3(2,3) by (simp add: successor_loop.simps [of s y] hd_append)
qed (auto simp: successor_loop.simps [of s])

lemma cpar_lsp: "cpar (lsp ds (CtxL y c r C)) = Some (if ds = [] then y else fst (hd ds))"
  by (cases ds) auto

fun snds :: "('n \<times> rb_color \<times> 'n rbt) list \<Rightarrow> 'n set" where
  "snds [] = {}"
| "snds ((n, c, r) # ds) = insert n (nds r \<union> snds ds)"

lemma cnds_lsp: "cnds (lsp ds C) = snds ds \<union> cnds C"
  by (induction ds rule: snds.induct) auto

fun wfs :: "('n \<times> rb_color \<times> 'n rbt) list \<Rightarrow> bool" where
  "wfs [] = True"
| "wfs ((n, c, r) # ds) \<longleftrightarrow> n \<notin> nds r \<and> wft r \<and> n \<notin> snds ds \<and> nds r \<inter> snds ds = {} \<and> wfs ds"

lemma wfc_lsp: "wfc (lsp ds C) \<longleftrightarrow> wfs ds \<and> snds ds \<inter> cnds C = {} \<and> wfc C"
  by (induction ds rule: snds.induct) (auto simp: cnds_lsp)

lemma lsp_ctx_transfer:
  assumes "is_ctx rt L R P (lsp ds C) x" "cpar C' = cpar C"
    and "\<And>a. a \<in> snds ds \<Longrightarrow> L' a = L a \<and> R' a = R a \<and> P' a = P a"
    and "\<And>x. is_ctx rt L R P C x \<Longrightarrow> is_ctx rt' L' R' P' C' x"
  shows "is_ctx rt' L' R' P' (lsp ds C') x"
  using assms(1,3)
proof (induction ds arbitrary: x rule: snds.induct)
  case 1
  then show ?case using assms(4) by simp
next
  case (2 n c r ds)
  have "cpar (lsp ds C') = cpar (lsp ds C)" using assms(2) by (cases ds) auto
  moreover have "is_tree L' R' P' (Some n) r"
    using 2(2) is_tree_cong [of r L L' R R' P P' "Some n"] 2(3) by simp
  ultimately show ?case using 2 by simp
qed

lemma lsp_ctx_outer: "is_ctx rt L R P (lsp ds C) x \<Longrightarrow> \<exists>x. is_ctx rt L R P C x"
  by (induction ds arbitrary: x rule: snds.induct) auto

text \<open>
  The successor lies deeper in the right subtree: it is taken out of its place and put in the
  node's.  First the heap that the code computes, then that it represents the new tree.
\<close>

definition deep_heap ::
    "'n rbtree \<Rightarrow> 'n \<Rightarrow> 'n \<Rightarrow> 'n \<Rightarrow> 'n \<Rightarrow> 'n \<Rightarrow> 'n option \<Rightarrow> 'n rbtree" where
  "deep_heap s n par m y i j =
     (let s1 = s\<lparr>rb_right := (rb_right s)(m := Some y),
                rb_left := (rb_left s)(par := j, m := Some i),
                rb_pc := (rb_pc s)(y := (Some m, snd (rb_pc s y)), i := (Some m, snd (rb_pc s i)))\<rparr>;
          s2 = hev_rbtree_change_child s1 n (Some m) (fst (rb_pc s n));
          s3 = set_parent_color_opt s2 j (Some par) HEV_RBTREE_BLACK
      in s3\<lparr>rb_pc := (rb_pc s3)(m := rb_pc s n)\<rparr>)"

lemma rb_pc_change_child [simp]: "rb_pc (hev_rbtree_change_child s old new p) = rb_pc s"
  by (simp add: hev_rbtree_change_child_def set_left_def set_right_def split: option.splits)

lemma erase_two_deep:
  assumes "rb_left s n = Some i" "rb_right s n = Some y" "rb_left s y = Some k"
    and "successor_loop s y k = Some (par, m)"
    and "n \<noteq> par" "n \<noteq> m" "n \<noteq> y" "n \<noteq> i" "m \<noteq> y" "m \<noteq> i" "i \<noteq> y" "m \<noteq> par"
  shows "erase_unlink s n = Some (deep_heap s n par m y i (rb_right s m),
     if rb_right s m = None \<and> snd (rb_pc s m) = Black then Some par else None)"
  using assms
  by (auto simp: erase_unlink_def erase_two_def deep_heap_def Let_def rb_field_defs pc_parent_def
      rb_color_defs split: option.splits)

lemma deep_heap_frame:
  assumes "fst (rb_pc s n) = cpar C" "a \<notin> cnds C"
  shows "rb_left (deep_heap s n par m y i j) a = ((rb_left s)(par := j, m := Some i)) a"
    and "rb_right (deep_heap s n par m y i j) a = ((rb_right s)(m := Some y)) a"
  using assms by (auto simp: deep_heap_def Let_def set_parent_color_opt_def change_child_frame
      hev_rbtree_node_set_parent_color_def split: option.splits)

lemma deep_heap_pc:
  "rb_pc (deep_heap s n par m y i j) a =
     (if a = m then rb_pc s n else if Some a = j then (Some par, Black)
      else if a = i then (Some m, snd (rb_pc s i)) else if a = y then (Some m, snd (rb_pc s y))
      else rb_pc s a)"
  by (auto simp: deep_heap_def Let_def set_parent_color_opt_def
      hev_rbtree_node_set_parent_color_def split: option.splits)

lemma deep_heap_ctx:
  assumes "ctx_at s C (Some n)" "wfc C" "n \<notin> cnds C" "fst (rb_pc s n) = cpar C"
    and "par \<notin> cnds C" "m \<notin> cnds C" "y \<notin> cnds C" "i \<notin> cnds C" "\<And>a. j = Some a \<Longrightarrow> a \<notin> cnds C"
  shows "ctx_at (deep_heap s n par m y i j) C (Some m)"
proof -
  let ?s = "s\<lparr>rb_right := (rb_right s)(m := Some y), rb_left := (rb_left s)(par := j, m := Some i),
    rb_pc := (rb_pc s)(y := (Some m, snd (rb_pc s y)), i := (Some m, snd (rb_pc s i)))\<rparr>"
  have "ctx_at ?s C (Some n)" using assms by simp
  from change_child_ctx(1) [OF this assms(2,3)] show ?thesis
    using assms by (auto simp: deep_heap_def Let_def set_parent_color_opt_def
        hev_rbtree_node_set_parent_color_def split: option.splits)
qed

lemma deep_heap_away:
  assumes "fst (rb_pc s n) = cpar C" "a \<notin> cnds C" "a \<noteq> m" "a \<noteq> par" "a \<noteq> i" "a \<noteq> y" "Some a \<noteq> j"
  shows "rb_left (deep_heap s n par m y i j) a = rb_left s a \<and>
    rb_right (deep_heap s n par m y i j) a = rb_right s a \<and>
    rb_pc (deep_heap s n par m y i j) a = rb_pc s a"
  using assms by (simp add: deep_heap_frame deep_heap_pc)

lemma deep_heap_tree:
  assumes "fst (rb_pc s n) = cpar C" "nds v \<inter> cnds C = {}"
    and "m \<notin> nds v" "par \<notin> nds v" "i \<notin> nds v" "y \<notin> nds v" "\<And>a. j = Some a \<Longrightarrow> a \<notin> nds v"
  shows "tree_at (deep_heap s n par m y i j) p v = tree_at s p v"
  using assms by (intro is_tree_cong deep_heap_away [where C = C]) auto

text \<open>The parts of the tree around the node and its successor, pairwise disjoint.\<close>

lemma deep_parts:
  assumes at: "rb_at s (lsp ds (CtxL y yc yr (CtxR l n c C))) (Nd Lf m mc mr)"
  shows "wfs ds" "wft yr" "wft l" "wfc C" "wft mr" "distinct [y, n, m]"
    and "{y, n, m} \<inter> (snds ds \<union> nds yr \<union> nds l \<union> cnds C \<union> nds mr) = {}"
    and "snds ds \<inter> nds yr = {}" "snds ds \<inter> nds l = {}" "snds ds \<inter> cnds C = {}" "snds ds \<inter> nds mr = {}"
    and "nds yr \<inter> nds l = {}" "nds yr \<inter> cnds C = {}" "nds yr \<inter> nds mr = {}"
    and "nds l \<inter> cnds C = {}" "nds l \<inter> nds mr = {}" "cnds C \<inter> nds mr = {}"
  using at by (auto simp: rb_at_def wfc_lsp cnds_lsp)

lemma deep_outer:
  assumes "rb_at s (lsp ds (CtxL y yc yr (CtxR l n c C))) (Nd Lf m mc mr)"
  shows "rb_right s y = rootp yr" "rb_pc s y = (Some n, yc)" "tree_at s (Some y) yr"
    "rb_left s n = rootp l" "rb_right s n = Some y" "rb_pc s n = (cpar C, c)" "tree_at s (Some n) l"
    "ctx_at s C (Some n)" "tree_at s (Some m) mr" "rb_left s m = None" "rb_right s m = rootp mr"
    "ctx_at s (lsp ds (CtxL y yc yr (CtxR l n c C))) (Some m)"
proof -
  have "ctx_at s (lsp ds (CtxL y yc yr (CtxR l n c C))) (Some m)" using assms by (simp add: rb_at_def)
  then obtain x where "ctx_at s (CtxL y yc yr (CtxR l n c C)) x" using lsp_ctx_outer by blast
  then show "rb_right s y = rootp yr" "rb_pc s y = (Some n, yc)" "tree_at s (Some y) yr"
    "rb_left s n = rootp l" "rb_right s n = Some y" "rb_pc s n = (cpar C, c)" "tree_at s (Some n) l"
    "ctx_at s C (Some n)" "tree_at s (Some m) mr" "rb_left s m = None" "rb_right s m = rootp mr"
    "ctx_at s (lsp ds (CtxL y yc yr (CtxR l n c C))) (Some m)"
    using assms by (simp_all add: rb_at_def)
qed

lemma deep_heap_subtrees:
  assumes at: "rb_at s (lsp ds (CtxL y yc yr (CtxR l n c C))) (Nd Lf m mc mr)"
    and l: "rootp l = Some i" and parin: "par \<in> insert y (snds ds)"
  shows "ctx_at (deep_heap s n par m y i (rootp mr)) C (Some m)"
    and "tree_at (deep_heap s n par m y i (rootp mr)) (Some y) yr"
    and "tree_at (deep_heap s n par m y i (rootp mr)) (Some m) l"
    and "tree_at (deep_heap s n par m y i (rootp mr)) (Some par) (blk mr)"
proof -
  let ?h = "deep_heap s n par m y i (rootp mr)"
  note parts = deep_parts [OF at] and old = deep_outer [OF at]
  have i: "i \<in> nds l" using l rootp_in by metis
  have s: "fst (rb_pc s n) = cpar C" using old by simp
  have j: "a \<in> nds mr" if "rootp mr = Some a" for a using rootp_in [OF that] .
  note tree = deep_heap_tree [OF s] and fr = deep_heap_frame [OF s] deep_heap_pc
  show "ctx_at ?h C (Some m)"
    using old(8) parts i parin j s by (intro deep_heap_ctx) auto
  show "tree_at ?h (Some y) yr"
    using parts parin i j old(3) by (subst tree) auto
  show "tree_at ?h (Some m) l"
  proof (cases l)
    case (Nd a k d b)
    then have k: "k = i" using l by simp
    have "tree_at ?h (Some i) a" "tree_at ?h (Some i) b"
      using parts parin j old(7) Nd k by (subst tree; auto)+
    moreover have "rb_left ?h i = rootp a" "rb_right ?h i = rootp b" "rb_pc ?h i = (Some m, d)"
      using parts parin j [of i] old(7) Nd k by (auto simp: fr)
    ultimately show ?thesis using Nd k by simp
  qed simp
  show "tree_at ?h (Some par) (blk mr)"
  proof (cases mr)
    case (Nd a k d b)
    have "tree_at ?h (Some k) a" "tree_at ?h (Some k) b"
      using parts parin i old(9) Nd by (subst tree; auto)+
    moreover have "rb_left ?h k = rootp a" "rb_right ?h k = rootp b" "rb_pc ?h k = (Some par, Black)"
      using parts parin old(9) Nd by (auto simp: fr)
    ultimately show ?thesis using Nd by simp
  qed simp
qed

lemma deep_heap_at:
  assumes at: "rb_at s (lsp ds (CtxL y yc yr (CtxR l n c C))) (Nd Lf m mc mr)"
    and l: "rootp l = Some i" and par: "par = (if ds = [] then y else fst (hd ds))"
  shows "rb_at (deep_heap s n par m y i (rootp mr)) (lsp ds (CtxL y yc yr (CtxR l m c C))) (blk mr)"
proof -
  let ?h = "deep_heap s n par m y i (rootp mr)"
  let ?E = "CtxL y yc yr (CtxR l n c C)" and ?E' = "CtxL y yc yr (CtxR l m c C)"
  note parts = deep_parts [OF at] and old = deep_outer [OF at]
  have i: "i \<in> nds l" using l rootp_in by metis
  have parin: "par \<in> insert y (snds ds)" using par by (cases ds) auto
  have s: "fst (rb_pc s n) = cpar C" using old by simp
  have j: "a \<in> nds mr" if "rootp mr = Some a" for a using rootp_in [OF that] .
  note new = deep_heap_subtrees [OF at l parin]
  note away = deep_heap_away [OF s] and fr = deep_heap_frame [OF s] deep_heap_pc
  have top: "rb_right ?h y = rootp yr" "rb_pc ?h y = (Some m, yc)" "rb_left ?h m = rootp l"
      "rb_right ?h m = Some y" "rb_pc ?h m = (cpar C, c)"
    using parts parin j [of y] i l old by (auto simp: fr)
  have "ctx_at ?h (lsp ds ?E') (rootp mr)"
  proof (cases ds)
    case Nil
    then have "rb_left ?h y = rootp mr" using par parts by (auto simp: fr)
    then show ?thesis using Nil new top by simp
  next
    case (Cons d es)
    obtain x xc xr where d: "d = (x, xc, xr)" by (cases d)
    have x: "par = x" "rb_left ?h x = rootp mr" using par Cons d parts by (auto simp: fr)
    have tr: "ctx_at ?h (lsp es ?E') (Some x)"
    proof (rule lsp_ctx_transfer)
      show "ctx_at s (lsp es ?E) (Some x)" using old(12) Cons d by simp
      show "rb_left ?h a = rb_left s a \<and> rb_right ?h a = rb_right s a \<and> rb_pc ?h a = rb_pc s a"
        if "a \<in> snds es" for a
        using that parts Cons d x i j by (intro away) auto
      show "ctx_at ?h ?E' z" if "ctx_at s ?E z" for z
        using that new top Cons d x parts by (auto simp: fr)
    qed simp
    have "tree_at ?h (Some x) xr"
      using old(12) Cons d parts x i j by (subst deep_heap_tree [OF s]) auto
    moreover have "rb_right ?h x = rootp xr" "rb_pc ?h x = (cpar (lsp es ?E'), xc)"
      using old(12) Cons d parts x i j [of x] by (auto simp: fr cpar_lsp)
    ultimately show ?thesis using tr x Cons d by simp
  qed
  then show ?thesis
    using at new(4) parts unfolding rb_at_def by (simp add: cpar_lsp par wfc_lsp cnds_lsp rb_sets)
qed

lemma unlink_deep:
  assumes at: "rb_at s C (Nd l n c (Nd w y yc yr))" and l: "l \<noteq> Lf" and w: "w \<noteq> Lf"
    and lm: "lmost w x = (ds, m, mc, mr)"
  shows "\<exists>h. erase_unlink s n = Some (h, if mr = Lf \<and> mc = Black
             then cpar (lsp ds (CtxL y yc yr (CtxR l m c C))) else None) \<and>
           rb_at h (lsp ds (CtxL y yc yr (CtxR l m c C))) (blk mr)"
proof -
  obtain i where i: "rootp l = Some i" "i \<in> nds l" using l by (cases l) auto
  obtain k where k: "rootp w = Some k" using w by (cases w) auto
  let ?par = "if ds = [] then y else fst (hd ds)"
  have deep: "rb_at s (lsp ds (CtxL y yc yr (CtxR l n c C))) (Nd Lf m mc mr)"
    using at plug_lmost [OF w lm, of "CtxL y yc yr (CtxR l n c C)"] by (simp add: rb_at_repr)
  note parts = deep_parts [OF deep] and old = deep_outer [OF deep]
  have "successor_loop s y k = Some (?par, m)"
    using successor_loop_lmost [OF _ k lm, of s "Some y"] at by (simp add: rb_at_def)
  moreover have "rb_left s y = Some k" using at k by (simp add: rb_at_def)
  moreover have "?par \<in> insert y (snds ds)" by (cases ds) auto
  ultimately have "erase_unlink s n = Some (deep_heap s n ?par m y i (rb_right s m),
     if rb_right s m = None \<and> snd (rb_pc s m) = Black then Some ?par else None)"
    using old i parts by (intro erase_two_deep) auto
  moreover have "rootp mr = None \<longleftrightarrow> mr = Lf" by (cases mr) auto
  moreover have "rb_pc s m = (cpar (lsp ds (CtxL y yc yr (CtxR l n c C))), mc)"
    using deep by (simp add: rb_at_def)
  ultimately show ?thesis
    using deep_heap_at [OF deep i(1) refl] old(11) by (auto simp: cpar_lsp)
qed

section \<open>Removal as a whole\<close>

lemma erase_finish:
  assumes "erase_unlink s n = Some (h, if u = Lf \<and> d = Black then cpar C else None)" "rb_at h C u"
    and "rbt_ok (plug C u) \<or> u = Lf \<and> d = Black" "u = Lf \<and> d = Black \<Longrightarrow> era_pre C Lf"
  shows "\<exists>s' t'. hev_rbtree_erase s n = Some s' \<and> rb_repr s' t' \<and> rbt_ok t' \<and>
           inord t' = inord (plug C u)"
proof (cases "u = Lf \<and> d = Black")
  case True
  then have pre: "era_pre C Lf" using assms(4) by blast
  show ?thesis
  proof (cases "cpar C")
    case None
    then have "C = Top" by (cases C) auto
    then show ?thesis
      using assms(1,2) True by (auto simp: hev_rbtree_erase_def rb_at_repr rbt_ok_def)
  next
    case (Some p)
    have "\<exists>s'. erase_loop h None p = Some s' \<and> rb_repr s' (era_up C Lf)"
      using erase_loop_refines [OF _ pre Some, of h] assms(2) True by simp
    then show ?thesis
      using assms(1) True Some rbt_ok_era_up [OF pre] inord_era_up [of C Lf]
      by (auto simp: hev_rbtree_erase_def)
  qed
next
  case False
  then show ?thesis using assms(1,2,3) by (auto simp: hev_rbtree_erase_def rb_at_repr)
qed

lemma rename_ctx:
  "cinvh (lsp ds (CtxL y yc yr (CtxR l m c C))) h = cinvh (lsp ds (CtxL y yc yr (CtxR l n c C))) h"
  "cpcol (lsp ds (CtxL y yc yr (CtxR l m c C))) = cpcol (lsp ds (CtxL y yc yr (CtxR l n c C)))"
  "cinvc (lsp ds (CtxL y yc yr (CtxR l m c C))) = cinvc (lsp ds (CtxL y yc yr (CtxR l n c C)))"
proof -
  show col: "cpcol (lsp ds (CtxL y yc yr (CtxR l m c C))) = cpcol (lsp ds (CtxL y yc yr (CtxR l n c C)))"
    for ds by (cases ds) auto
  show "cinvh (lsp ds (CtxL y yc yr (CtxR l m c C))) h = cinvh (lsp ds (CtxL y yc yr (CtxR l n c C))) h"
    by (induction ds arbitrary: h rule: snds.induct) auto
  show "cinvc (lsp ds (CtxL y yc yr (CtxR l m c C))) = cinvc (lsp ds (CtxL y yc yr (CtxR l n c C)))"
    by (induction ds rule: snds.induct) (auto simp: col)
qed

lemma bheight_0: "invc t \<Longrightarrow> invh t \<Longrightarrow> bheight t = 0 \<Longrightarrow> t \<noteq> Lf \<Longrightarrow> \<exists>n. t = Nd Lf n Red Lf"
  by (cases t; cases "rootp t") (auto elim: bheight.elims split: if_splits)

lemma one_child_ok:
  assumes "rbt_ok (plug K (Nd Lf m mc mr))"
  shows "rbt_ok (plug K (paint mc mr)) \<or> mr = Lf \<and> mc = Black"
    and "rbt_ok (plug K (blk mr)) \<or> mr = Lf \<and> mc = Black"
    and "mr = Lf \<and> mc = Black \<Longrightarrow> era_pre K Lf"
proof -
  have inv: "invc mr" "invh mr" "bheight mr = 0" "mc = Red \<Longrightarrow> colr mr = Black"
    using assms by (auto simp: rbt_ok_plug)
  have mr: "mr = Lf \<or> (\<exists>k. mr = Nd Lf k Red Lf \<and> mc = Black)"
    using bheight_0 [OF inv(1-3)] inv(4) by (cases mc; cases mr) auto
  show "rbt_ok (plug K (paint mc mr)) \<or> mr = Lf \<and> mc = Black"
    "rbt_ok (plug K (blk mr)) \<or> mr = Lf \<and> mc = Black"
    using mr assms by (cases mc; auto simp: rbt_ok_plug)+
  show "mr = Lf \<and> mc = Black \<Longrightarrow> era_pre K Lf" using assms by (auto simp: rbt_ok_plug era_pre_def)
qed

lemma nds_split: "n \<in> nds t \<Longrightarrow> \<exists>C l c r. t = plug C (Nd l n c r)"
proof -
  have "n \<in> nds t \<Longrightarrow> \<exists>C l c r. plug K t = plug C (Nd l n c r)" for K
  proof (induction t arbitrary: K)
    case (Nd a m d b)
    then show ?case
      using Nd.IH(1) [of "CtxL m d b K"] Nd.IH(2) [of "CtxR a m d K"] by auto
  qed simp
  from this [of Top] show "n \<in> nds t \<Longrightarrow> \<exists>C l c r. t = plug C (Nd l n c r)" by simp
qed

lemma pre_lsp: "pre (lsp ds C) = pre C"
  by (induction ds rule: snds.induct) auto

lemma post_lsp: "post (lsp ds C) = post (lsp ds Top) @ post C"
  by (induction ds rule: snds.induct) auto

lemma erase_at:
  assumes repr: "rb_repr s (plug C (Nd l n c r))" and ok: "rbt_ok (plug C (Nd l n c r))"
  shows "\<exists>s' t'. hev_rbtree_erase s n = Some s' \<and> rb_repr s' t' \<and> rbt_ok t' \<and>
           inord t' = pre C @ inord l @ inord r @ post C"
proof -
  have at: "rb_at s C (Nd l n c r)" using repr by (simp add: rb_at_repr)
  consider (no_left) "l = Lf" | (no_right) "l \<noteq> Lf" "r = Lf"
    | (nxt) m mc mr where "l \<noteq> Lf" "r = Nd Lf m mc mr"
    | (deep) w y yc yr where "l \<noteq> Lf" "r = Nd w y yc yr" "w \<noteq> Lf"
    by (metis rbt.exhaust)
  then show ?thesis
  proof cases
    case no_left
    obtain h where "erase_unlink s n = Some (h, if paint c r = Lf \<and> c = Black then cpar C else None)"
      "rb_at h C (paint c r)"
      using unlink_no_left at no_left by (cases r) fastforce+
    from erase_finish [OF this] show ?thesis
      using one_child_ok [OF ok [unfolded no_left]] no_left by (cases r) (auto simp: inord_plug)
  next
    case no_right
    obtain h where u: "erase_unlink s n = Some (h, if paint c l = Lf \<and> Red = Black then cpar C else None)"
      "rb_at h C (paint c l)"
      using unlink_no_right at no_right by fastforce
    have "invc l" "invh l" "bheight l = 0" "c = Red \<Longrightarrow> colr l = Black"
      using ok no_right by (auto simp: rbt_ok_plug)
    then have "rbt_ok (plug C (paint c l))"
      using bheight_0 [of l] no_right ok by (cases c) (auto simp: rbt_ok_plug)
    with erase_finish [OF u] no_right show ?thesis by (auto simp: inord_plug)
  next
    case nxt
    obtain h where u: "erase_unlink s n =
        Some (h, if blk mr = Lf \<and> mc = Black then cpar (CtxR l m c C) else None)"
      "rb_at h (CtxR l m c C) (blk mr)"
      using unlink_next [of s C l n c m mc mr] at nxt by (cases mr) (auto simp: rb_at_push)
    have "rbt_ok (plug (CtxR l m c C) (Nd Lf m mc mr))"
      using ok nxt by (cases mc; cases c; simp add: rbt_ok_plug)
    from erase_finish [OF u] one_child_ok [OF this] nxt show ?thesis
      by (cases mr) (auto simp: inord_plug)
  next
    case deep
    obtain ds m mc mr where lm: "lmost w n = (ds, m, mc, mr)" by (cases "lmost w n")
    let ?K = "\<lambda>m. lsp ds (CtxL y yc yr (CtxR l m c C))"
    obtain h where u: "erase_unlink s n =
        Some (h, if blk mr = Lf \<and> mc = Black then cpar (?K m) else None)" "rb_at h (?K m) (blk mr)"
      using unlink_deep [OF at [unfolded deep] deep(1,3) lm] by (cases mr) auto
    note split = plug_lmost [OF deep(3) lm]
    have "rbt_ok (plug (?K n) (Nd Lf m mc mr))"
      using ok deep split [of "CtxL y yc yr (CtxR l n c C)"] by simp
    then have "rbt_ok (plug (?K m) (Nd Lf m mc mr))"
      unfolding rbt_ok_plug using rename_ctx [where n = n and m = m] by simp
    note ok' = one_child_ok [OF this]
    have "inord (plug (?K m) (blk mr)) = pre C @ inord l @ inord r @ post C"
      using arg_cong [where f = inord, OF split [of Top]] deep(2)
      by (simp add: inord_plug pre_lsp post_lsp [of ds "CtxL y yc yr (CtxR l m c C)"])
    with erase_finish [OF u] ok' show ?thesis by (cases mr) auto
  qed
qed

text \<open>
  Erasing a node of a red-black tree returns a red-black tree whose in-order sequence is the old
  one without that node.
\<close>

lemma erase_correct:
  assumes "rb_repr s t" "rbt_ok t" "n \<in> nds t"
  shows "\<exists>s' t'. hev_rbtree_erase s n = Some s' \<and> rb_repr s' t' \<and> rbt_ok t' \<and>
           inord t' = remove1 n (inord t)"
proof -
  obtain C l c r where t: "t = plug C (Nd l n c r)" using nds_split [OF assms(3)] by blast
  have "distinct (inord t)" using assms(1) by (simp add: rb_repr_def wft_distinct)
  then have "remove1 n (inord t) = pre C @ inord l @ inord r @ post C"
    using t by (simp add: inord_plug remove1_append)
  then show ?thesis using erase_at assms(1,2) t by metis
qed

section \<open>In-order traversal\<close>

lemma rb_leftmost_at:
  "tree_at s p t \<Longrightarrow> rootp t = Some n \<Longrightarrow> rb_leftmost s n = Some (hd (inord t))"
proof (induction t arbitrary: p n)
  case (Nd l m c r)
  then show ?case by (cases l) (auto simp: rb_leftmost.simps [of s n] hd_append)
qed simp

lemma rb_rightmost_at:
  "tree_at s p t \<Longrightarrow> rootp t = Some n \<Longrightarrow> rb_rightmost s n = Some (last (inord t))"
proof (induction t arbitrary: p n)
  case (Nd l m c r)
  then show ?case by (cases r) (auto simp: rb_rightmost.simps [of s n])
qed simp

lemma rb_first_last:
  assumes "rb_repr s t"
  shows "hev_rbtree_first s = Some (if t = Lf then None else Some (hd (inord t)))"
    and "hev_rbtree_last s = Some (if t = Lf then None else Some (last (inord t)))"
  using assms rb_leftmost_at [of s None t] rb_rightmost_at [of s None t]
  by (cases t; simp add: rb_repr_def hev_rbtree_first_def hev_rbtree_last_def)+

lemma rb_climb_right_at:
  assumes "rb_at s C t" "rootp t = Some n"
  shows "rb_climb_right s n = Some (if post C = [] then None else Some (hd (post C)))"
  using assms
proof (induction C arbitrary: t n)
  case Top
  then show ?case
    by (cases t) (auto simp: rb_at_def rb_climb_right.simps [of s] hev_rbtree_node_parent_def)
next
  case (CtxL p c r C)
  then have "rb_right s p \<noteq> Some n" by (auto simp: rb_at_def dest!: rootp_in)
  then show ?case
    using CtxL(2,3) by (cases t)
      (auto simp: rb_at_def rb_climb_right.simps [of s] hev_rbtree_node_parent_def)
next
  case (CtxR l p c C)
  have "rb_climb_right s p = Some (if post C = [] then None else Some (hd (post C)))"
    using CtxR(1) [of "Nd l p c t" p] CtxR(2) by (simp add: rb_at_push)
  then show ?case
    using CtxR(2,3) by (cases t)
      (auto simp: rb_at_def rb_climb_right.simps [of s n] hev_rbtree_node_parent_def)
qed

lemma rb_next_at:
  assumes "rb_at s C (Nd l n c r)"
  shows "hev_rbtree_node_next s n = Some (if inord r @ post C = [] then None else Some (hd (inord r @ post C)))"
proof -
  have "fst (rb_pc s n) \<noteq> Some n" using assms cpar_in [of C n] by (auto simp: rb_at_def)
  then have "\<not> hev_rbtree_node_empty s n" by (auto simp: hev_rbtree_node_empty_def)
  moreover have "tree_at s (Some n) r" "rb_right s n = rootp r" using assms by (auto simp: rb_at_def)
  ultimately show ?thesis
    using rb_climb_right_at [OF assms] rb_leftmost_at [of s "Some n" r]
    by (cases r) (auto simp: hev_rbtree_node_next_def hd_append)
qed

section \<open>Properties\<close>

text \<open>A heap of three nodes: \<open>1\<close> is the black root, \<open>0\<close> and \<open>2\<close> are its red children.\<close>

definition rb_demo :: "nat rbtree" where
  "rb_demo = \<lparr>rb_root = Some 1, rb_left = (\<lambda>_. None)(1 := Some 0),
     rb_right = (\<lambda>_. None)(1 := Some 2),
     rb_pc = (\<lambda>_. (None, HEV_RBTREE_BLACK))(0 := (Some 1, HEV_RBTREE_RED),
       1 := (None, HEV_RBTREE_BLACK), 2 := (Some 1, HEV_RBTREE_RED))\<rparr>"

text \<open>
  C1: erasing any node of a heap that represents a red-black tree returns (no \<^verbatim>\<open>NULL\<close> access, the
  rebalancing loop ends), and the result represents a red-black tree with the same in-order
  sequence without that node.
\<close>

theorem hev_rbtree_erase_spec:
  assumes "rb_repr s t" "rbt_ok t" "n \<in> nds t"
  shows "\<exists>s' t'. hev_rbtree_erase s n = Some s' \<and> rb_repr s' t' \<and> rbt_ok t' \<and>
           inord t' = remove1 n (inord t)"
  using erase_correct [OF assms] .

theorem hev_rbtree_erase_spec_witness:
  "\<exists>s' t'. hev_rbtree_erase rb_demo 1 = Some s' \<and> rb_repr s' t' \<and> rbt_ok t' \<and> inord t' = [0, 2]"
  using hev_rbtree_erase_spec [of rb_demo "Nd (Nd Lf 0 Red Lf) 1 Black (Nd Lf 2 Red Lf)" 1]
  by (simp add: rb_demo_def rb_repr_def rbt_ok_def)

text \<open>
  C8: linking a fresh node at any empty position of a red-black tree and recolouring returns, and
  the result represents a red-black tree with the node at that position of the in-order sequence.
\<close>

theorem hev_rbtree_insert_spec:
  assumes "rb_repr s (plug C Lf)" "rbt_ok (plug C Lf)" "n \<notin> cnds C"
  shows "\<exists>s' t'. hev_rbtree_insert_color (hev_rbtree_node_link s n (cpar C) (ctx_link C)) n = Some s'
     \<and> rb_repr s' t' \<and> rbt_ok t' \<and> inord t' = pre C @ n # post C"
  using insert_color_correct [OF assms] .

theorem hev_rbtree_insert_spec_witness:
  "\<exists>s' t'. hev_rbtree_insert_color (hev_rbtree_node_link rb_demo 3 (Some 2) (LinkRight 2)) 3 = Some s'
     \<and> rb_repr s' t' \<and> rbt_ok t' \<and> inord t' = [0, 1, 2, 3]"
  using hev_rbtree_insert_spec [of rb_demo "CtxR Lf 2 Red (CtxR (Nd Lf 0 Red Lf) 1 Black Top)" 3]
  by (simp add: rb_demo_def rb_repr_def rbt_ok_def)

text \<open>
  following \<^verbatim>\<open>hev_rbtree_node_next\<close> from a node of the tree yields its in-order successor,
  or \<^verbatim>\<open>NULL\<close> at the end; the climb ends.
\<close>

theorem hev_rbtree_node_next_spec:
  assumes "rb_repr s t" "inord t = xs @ n # ys"
  shows "hev_rbtree_node_next s n = Some (if ys = [] then None else Some (hd ys))"
proof -
  have "n \<in> nds t" using arg_cong [OF assms(2), of set] by auto
  from nds_split [OF this] obtain C l c r where t: "t = plug C (Nd l n c r)" by blast
  have "distinct (inord t)" using assms(1) by (simp add: rb_repr_def wft_distinct)
  then have "inord r @ post C = ys"
    using assms(2) append_Cons_eq_iff [of n "pre C @ inord l" "inord r @ post C" xs ys] t
    by (auto simp: inord_plug cnds_pre_post)
  then show ?thesis using rb_next_at [of s C l n c r] assms(1) t by (auto simp: rb_at_repr)
qed

theorem hev_rbtree_node_next_spec_witness:
  "hev_rbtree_node_next rb_demo 0 = Some (Some 1) \<and> hev_rbtree_node_next rb_demo 2 = Some None"
  using hev_rbtree_node_next_spec [of rb_demo "Nd (Nd Lf 0 Red Lf) 1 Black (Nd Lf 2 Red Lf)" "[]" 0 "[1, 2]"]
    hev_rbtree_node_next_spec [of rb_demo "Nd (Nd Lf 0 Red Lf) 1 Black (Nd Lf 2 Red Lf)" "[0, 1]" 2 "[]"]
  by (simp add: rb_demo_def rb_repr_def)

end
