(* ===== verification/RBSearch.thy ===== *)
theory RBSearch
  imports HevRBTreeUnlink
begin

text \<open>
  The two search loops the program writes over its red-black trees, with the comparison as a
  parameter: the descent through links (\<^verbatim>\<open>while (*new)\<close>, in \<^verbatim>\<open>hev_mapped_dns_find\<close> and
  \<^verbatim>\<open>hev_socks5_authenticator_add\<close>) and the one through nodes (\<^verbatim>\<open>while (node)\<close>, in
  \<^verbatim>\<open>hev_socks5_authenticator_get\<close> and \<^verbatim>\<open>_del\<close>).  Both go left when the node's key is
  the smaller one, so the in-order sequence of the keys is descending.

  The locale \<open>key_order\<close> is the contract of a comparison; inside it the loops are shown to
  end, to find the key that is there and to stop at the place where a missing key belongs.
\<close>

section \<open>The loops\<close>

text \<open>The result is the node whose key compares equal, or the parent and link to insert at.\<close>

partial_function (option) rb_descend ::
    "'n rbtree \<Rightarrow> ('n \<Rightarrow> int) \<Rightarrow> 'n rb_link \<Rightarrow> 'n option \<Rightarrow> ('n option \<times> 'n rb_link + 'n) option" where
  "rb_descend s cmp new parent =
     (case link_get s new of
        None \<Rightarrow> Some (Inl (parent, new))
      | Some node \<Rightarrow>
          let res = cmp node in
          if res < 0 then rb_descend s cmp (LinkLeft node) (Some node)
          else if res > 0 then rb_descend s cmp (LinkRight node) (Some node)
          else Some (Inr node))"

partial_function (option) rb_search ::
    "'n rbtree \<Rightarrow> ('n \<Rightarrow> int) \<Rightarrow> 'n option \<Rightarrow> 'n option option" where
  "rb_search s cmp node =
     (case node of
        None \<Rightarrow> Some None
      | Some n \<Rightarrow>
          let res = cmp n in
          if res < 0 then rb_search s cmp (rb_left s n)
          else if res > 0 then rb_search s cmp (rb_right s n)
          else Some (Some n))"

section \<open>Indexes over a comparison\<close>

text \<open>The keys of a node sequence, strictly descending.\<close>

definition key_desc :: "('k \<Rightarrow> 'k \<Rightarrow> int) \<Rightarrow> ('n \<Rightarrow> 'k) \<Rightarrow> 'n list \<Rightarrow> bool" where
  "key_desc cmp key xs \<longleftrightarrow> sorted_wrt (\<lambda>a b. cmp (key b) (key a) < 0) xs"

definition rb_index ::
    "('k \<Rightarrow> bool) \<Rightarrow> ('k \<Rightarrow> 'k \<Rightarrow> int) \<Rightarrow> 'n rbtree \<Rightarrow> ('n \<Rightarrow> 'k) \<Rightarrow> 'n set \<Rightarrow> bool" where
  "rb_index ok cmp s key N \<longleftrightarrow>
     (\<exists>t. rb_repr s t \<and> rbt_ok t \<and> nds t = N \<and> key_desc cmp key (inord t) \<and> (\<forall>n \<in> N. ok (key n)))"

lemma key_desc_append:
  "key_desc cmp key (xs @ ys) \<longleftrightarrow> key_desc cmp key xs \<and> key_desc cmp key ys \<and>
     (\<forall>a \<in> set xs. \<forall>b \<in> set ys. cmp (key b) (key a) < 0)"
  by (simp add: key_desc_def sorted_wrt_append)

lemma key_desc_Cons:
  "key_desc cmp key (x # xs) \<longleftrightarrow> (\<forall>b \<in> set xs. cmp (key b) (key x) < 0) \<and> key_desc cmp key xs"
  by (simp add: key_desc_def)

lemma key_desc_remove1: "key_desc cmp key xs \<Longrightarrow> key_desc cmp key (remove1 n xs)"
  by (induction xs) (auto simp: key_desc_Cons dest: in_set_remove1 notin_set_remove1)

lemma key_desc_inj:
  "key_desc cmp key xs \<Longrightarrow> (\<And>n. n \<in> set xs \<Longrightarrow> cmp (key n) (key n) = 0) \<Longrightarrow> inj_on key (set xs)"
  by (induction xs) (fastforce simp: key_desc_Cons inj_on_def)+

lemma key_desc_cong:
  "(\<And>n. n \<in> set xs \<Longrightarrow> key n = key' n) \<Longrightarrow> key_desc cmp key xs = key_desc cmp key' xs"
  unfolding key_desc_def by (rule iffI; erule sorted_wrt_mono_rel [rotated]) auto

lemma rb_index_cong:
  "(\<And>n. n \<in> N \<Longrightarrow> key n = key' n) \<Longrightarrow> rb_index ok cmp s key N = rb_index ok cmp s key' N"
proof -
  assume eq: "\<And>n. n \<in> N \<Longrightarrow> key n = key' n"
  have "key_desc cmp key (inord t) = key_desc cmp key' (inord t)" if "nds t = N" for t
    using that eq by (intro key_desc_cong) simp
  then show ?thesis unfolding rb_index_def using eq by (metis (no_types, lifting))
qed

lemma link_get_ctx: "ctx_at s C x \<Longrightarrow> link_get s (ctx_link C) = x"
  by (cases C) auto

lemma search_descend:
  "rb_descend s cmp new parent = Some r \<Longrightarrow>
   rb_search s cmp (link_get s new) = Some (case r of Inl _ \<Rightarrow> None | Inr n \<Rightarrow> Some n)"
proof (rule rb_descend.raw_induct [where P = "\<lambda>s cmp new parent r.
    rb_search s cmp (link_get s new) = Some (case r of Inl _ \<Rightarrow> None | Inr n \<Rightarrow> Some n)"])
  fix descend s cmp new parent r
  assume ih: "\<And>s cmp new parent r. descend s cmp new parent = Some r \<Longrightarrow>
      rb_search s cmp (link_get s new) = Some (case r of Inl _ \<Rightarrow> None | Inr n \<Rightarrow> Some n)"
    and body: "(case link_get s new of None \<Rightarrow> Some (Inl (parent, new))
      | Some node \<Rightarrow> let res = cmp node in
          if res < 0 then descend s cmp (LinkLeft node) (Some node)
          else if res > 0 then descend s cmp (LinkRight node) (Some node)
          else Some (Inr node)) = Some (r :: 'a option \<times> 'a rb_link + 'a)"
  show "rb_search s cmp (link_get s new) = Some (case r of Inl _ \<Rightarrow> None | Inr n \<Rightarrow> Some n)"
    using body
    by (auto simp: rb_search.simps [of s cmp "link_get s new"] Let_def
        split: option.splits if_splits dest!: ih)
qed

locale key_order =
  fixes ok :: "'k \<Rightarrow> bool"
    and cmp :: "'k \<Rightarrow> 'k \<Rightarrow> int"
  assumes cmp_eq: "ok a \<Longrightarrow> ok b \<Longrightarrow> cmp a b = 0 \<longleftrightarrow> a = b"
    and cmp_swap: "ok a \<Longrightarrow> ok b \<Longrightarrow> cmp a b < 0 \<longleftrightarrow> cmp b a > 0"
    and cmp_trans: "ok a \<Longrightarrow> ok b \<Longrightarrow> ok c \<Longrightarrow> cmp a b < 0 \<Longrightarrow> cmp b c < 0 \<Longrightarrow> cmp a c < 0"
begin

text \<open>From a position of the tree, with the key between what lies left and right of it.\<close>

lemma descend_at:
  assumes "rb_at s C t" "\<forall>n \<in> cnds C \<union> nds t. ok (key n)" "ok k"
    and "key_desc cmp key (inord (plug C t))"
    and "\<forall>n \<in> set (pre C). cmp k (key n) < 0" "\<forall>n \<in> set (post C). cmp (key n) k < 0"
  shows "(\<exists>n \<in> nds t. key n = k \<and> rb_descend s (\<lambda>n. cmp (key n) k) (ctx_link C) (cpar C) = Some (Inr n))
    \<or> (\<exists>D. rb_descend s (\<lambda>n. cmp (key n) k) (ctx_link C) (cpar C) = Some (Inl (cpar D, ctx_link D))
        \<and> plug D Lf = plug C t
        \<and> (\<forall>n \<in> set (pre D). cmp k (key n) < 0) \<and> (\<forall>n \<in> set (post D). cmp (key n) k < 0))"
  using assms
proof (induction t arbitrary: C)
  case Lf
  then have "link_get s (ctx_link C) = None" using link_get_ctx by (fastforce simp: rb_at_def)
  then show ?case using Lf by (intro disjI2 exI [of _ C]) (simp add: rb_descend.simps)
next
  case (Nd l n c r)
  have "link_get s (ctx_link C) = Some n"
    using Nd.prems(1) link_get_ctx by (fastforce simp: rb_at_def)
  note step = rb_descend.simps [of s "\<lambda>n. cmp (key n) k" "ctx_link C" "cpar C", unfolded this]
  have desc: "\<forall>b \<in> set (inord r @ post C). cmp (key b) (key n) < 0"
    "\<forall>a \<in> set (pre C @ inord l). cmp (key n) (key a) < 0"
    using Nd.prems(4) by (auto simp: inord_plug key_desc_append key_desc_Cons)
  have oks: "ok (key n)" "\<forall>b \<in> set (inord r @ post C @ pre C @ inord l). ok (key b)"
    using Nd.prems(2) by (auto simp: cnds_pre_post)
  consider "cmp (key n) k < 0" | "cmp (key n) k > 0" | "cmp (key n) k = 0" by linarith
  then show ?case
  proof cases
    case 1
    have "\<forall>b \<in> set (post (CtxL n c r C)). cmp (key b) k < 0"
      using 1 desc(1) oks Nd.prems(3) cmp_trans [of _ "key n" k] by auto
    moreover have "rb_at s (CtxL n c r C) l" using Nd.prems(1) by (simp add: rb_at_push)
    ultimately show ?thesis
      using Nd.IH(1) [of "CtxL n c r C"] Nd.prems(2-6) 1 step by (auto simp: Let_def)
  next
    case 2
    have k: "cmp k (key n) < 0" using 2 cmp_swap oks(1) Nd.prems(3) by simp
    have "\<forall>b \<in> set (pre (CtxR l n c C)). cmp k (key b) < 0"
      using k desc(2) oks Nd.prems(3) cmp_trans [of k "key n"] by auto
    moreover have "rb_at s (CtxR l n c C) r" using Nd.prems(1) by (simp add: rb_at_push)
    ultimately show ?thesis
      using Nd.IH(2) [of "CtxR l n c C"] Nd.prems(2-6) 2 step by (auto simp: Let_def)
  next
    case 3
    then have "key n = k" using cmp_eq Nd.prems(2,3) by simp
    then show ?thesis using step 3 by (intro disjI1) simp
  qed
qed

lemma index_inj: "rb_index ok cmp s key N \<Longrightarrow> inj_on key N"
proof -
  assume "rb_index ok cmp s key N"
  then obtain t where t: "nds t = N" "key_desc cmp key (inord t)" "\<forall>n \<in> N. ok (key n)"
    by (auto simp: rb_index_def)
  have "cmp (key a) (key a) = 0" if "a \<in> N" for a using t(3) cmp_eq that by simp
  then show ?thesis using key_desc_inj [OF t(2)] t(1) by simp
qed

lemma descend_found:
  assumes "rb_index ok cmp s key N" "n \<in> N"
  shows "rb_descend s (\<lambda>m. cmp (key m) (key n)) LinkRoot None = Some (Inr n)"
proof -
  obtain t where t: "rb_repr s t" "nds t = N" "key_desc cmp key (inord t)" "\<forall>n \<in> N. ok (key n)"
    using assms(1) by (auto simp: rb_index_def)
  have at: "rb_at s Top t" using t(1) by (simp add: rb_at_repr)
  have self: "cmp (key n) (key n) = 0" using t(4) cmp_eq assms(2) by simp
  have "n \<in> set (pre D) \<union> set (post D)" if "plug D Lf = t" for D
    using that assms(2) t(2) nds_plug [of D Lf] by (auto simp: cnds_pre_post)
  then show ?thesis
    using descend_at [OF at, of key "key n"] t(2-4) assms(2) self inj_onD [OF index_inj [OF assms(1)]]
    by fastforce
qed

lemma descend_missing:
  assumes "rb_index ok cmp s key N" "ok k" "k \<notin> key ` N" "n \<notin> N"
  shows "\<exists>parent link s'. rb_descend s (\<lambda>m. cmp (key m) k) LinkRoot None = Some (Inl (parent, link))
    \<and> hev_rbtree_insert_color (hev_rbtree_node_link s n parent link) n = Some s'
    \<and> rb_index ok cmp s' (key(n := k)) (insert n N)"
proof -
  obtain t where t: "rb_repr s t" "rbt_ok t" "nds t = N" "key_desc cmp key (inord t)" "\<forall>n \<in> N. ok (key n)"
    using assms(1) by (auto simp: rb_index_def)
  have "rb_at s Top t" using t(1) by (simp add: rb_at_repr)
  from descend_at [OF this, of key k] obtain D where
    D: "rb_descend s (\<lambda>n. cmp (key n) k) LinkRoot None = Some (Inl (cpar D, ctx_link D))"
      "plug D Lf = t" "\<forall>n \<in> set (pre D). cmp k (key n) < 0" "\<forall>n \<in> set (post D). cmp (key n) k < 0"
    using t(3-5) assms(2,3) by auto
  have N: "cnds D = N" using D(2) t(3) nds_plug [of D Lf] by simp
  obtain s' t' where s': "hev_rbtree_insert_color (hev_rbtree_node_link s n (cpar D) (ctx_link D)) n = Some s'"
      "rb_repr s' t'" "rbt_ok t'" "inord t' = pre D @ n # post D"
    using insert_color_correct [of s D n] t(1,2) D(2) N assms(4) by auto
  have "nds t' = insert n N"
    using arg_cong [OF s'(4), of set] N by (simp add: cnds_pre_post)
  moreover have "key_desc cmp (key(n := k)) (inord t')"
  proof -
    have "key_desc cmp key (pre D @ post D)" using t(4) D(2) inord_plug [of D Lf] by simp
    then have "key_desc cmp (key(n := k)) (pre D @ post D)"
      using N assms(4) by (subst key_desc_cong [of _ _ key]) (auto simp: cnds_pre_post)
    then show ?thesis
      using D(3,4) N assms(4) unfolding s'(4) by (auto simp: key_desc_append key_desc_Cons cnds_pre_post)
  qed
  ultimately have "rb_index ok cmp s' (key(n := k)) (insert n N)"
    using s'(2,3) t(5) assms(2,4) unfolding rb_index_def by (intro exI [of _ t']) auto
  then show ?thesis using D(1) s'(1) by blast
qed

lemma search_index:
  assumes "rb_index ok cmp s key N" "ok k"
  shows "n \<in> N \<Longrightarrow> key n = k \<Longrightarrow> rb_search s (\<lambda>m. cmp (key m) k) (rb_root s) = Some (Some n)"
    and "k \<notin> key ` N \<Longrightarrow> rb_search s (\<lambda>m. cmp (key m) k) (rb_root s) = Some None"
proof -
  show "n \<in> N \<Longrightarrow> key n = k \<Longrightarrow> rb_search s (\<lambda>m. cmp (key m) k) (rb_root s) = Some (Some n)"
    using search_descend [OF descend_found [OF assms(1)]] by auto
  assume k: "k \<notin> key ` N"
  obtain t where t: "rb_repr s t" "nds t = N" "key_desc cmp key (inord t)" "\<forall>n \<in> N. ok (key n)"
    using assms(1) by (auto simp: rb_index_def)
  have "rb_at s Top t" using t(1) by (simp add: rb_at_repr)
  from descend_at [OF this, of key k] obtain D where
    "rb_descend s (\<lambda>n. cmp (key n) k) LinkRoot None = Some (Inl (cpar D, ctx_link D))"
    using t(2-4) assms(2) k by auto
  from search_descend [OF this] show "rb_search s (\<lambda>m. cmp (key m) k) (rb_root s) = Some None"
    by simp
qed

lemma erase_index:
  assumes "rb_index ok cmp s key N" "n \<in> N"
  shows "\<exists>s'. hev_rbtree_erase s n = Some s' \<and> rb_index ok cmp s' key (N - {n})"
proof -
  obtain t where t: "rb_repr s t" "rbt_ok t" "nds t = N" "key_desc cmp key (inord t)" "\<forall>n \<in> N. ok (key n)"
    using assms(1) by (auto simp: rb_index_def)
  obtain s' t' where s': "hev_rbtree_erase s n = Some s'" "rb_repr s' t'" "rbt_ok t'"
      "inord t' = remove1 n (inord t)"
    using erase_correct [OF t(1,2)] t(3) assms(2) by blast
  have "distinct (inord t)" using t(1) by (simp add: rb_repr_def wft_distinct)
  then have "nds t' = N - {n}" using arg_cong [OF s'(4), of set] t(3) by simp
  then have "rb_index ok cmp s' key (N - {n})"
    using s'(2-4) t(4,5) key_desc_remove1 unfolding rb_index_def by (intro exI [of _ t']) auto
  then show ?thesis using s'(1) by blast
qed

end

end
