(* ===== verification/MappedDNS.thy ===== *)
theory MappedDNS
  imports HevList RBSearch
begin

text \<open>
  The mapped DNS of \<^verbatim>\<open>src/hev-mapped-dns.c\<close>: it answers a query with a made-up address
  \<^verbatim>\<open>net | idx\<close> and later maps that address back to the name.  The names are indexed by a
  red-black tree, an intrusive list keeps them in the order of their last use, and
  \<^verbatim>\<open>records\<close> holds the node of every index.  The state holds all three at the level of
  their pointers, a node being an address; \<open>lru_find\<close> and \<open>lru_get\<close> are the cache they
  implement.

  \<^verbatim>\<open>malloc\<close> is an input: an allocation takes the next outcome, \<^term>\<open>None\<close> for a failure.  The
  outer option of a result is \<^term>\<open>None\<close> for an access outside memory or through \<^verbatim>\<open>NULL\<close>.
\<close>

section \<open>The cache\<close>

record mapped_dns =
  dns_use :: int
  dns_max :: int
  dns_net :: u32
  dns_mask :: u32
  dns_list :: "nat hev_list"
  dns_tree :: "nat rbtree"
  dns_records :: "nat option list"
  dns_name :: "nat \<Rightarrow> cstring"
  dns_idx :: "nat \<Rightarrow> int"

text \<open>
  \<^verbatim>\<open>hev_mapped_dns_new\<close> with \<^verbatim>\<open>hev_mapped_dns_construct\<close>: zeroed memory, with \<^verbatim>\<open>max\<close> empty records.
\<close>

definition hev_mapped_dns_construct :: "mapped_dns \<Rightarrow> u32 \<Rightarrow> u32 \<Rightarrow> int \<Rightarrow> mapped_dns + int" where
  "hev_mapped_dns_construct self net msk mx =
     (if mx > sint (NOT msk) then Inr (- 1)
      else Inl (self\<lparr>dns_max := mx, dns_net := net, dns_mask := msk\<rparr>))"

definition hev_mapped_dns_new :: "bool \<Rightarrow> u32 \<Rightarrow> u32 \<Rightarrow> int \<Rightarrow> mapped_dns option" where
  "hev_mapped_dns_new malloc_ok net msk mx =
     (if \<not> malloc_ok then None
      else
        let self = \<lparr>dns_use = 0, dns_max = 0, dns_net = 0, dns_mask = 0, dns_list = hev_list_empty,
                    dns_tree = hev_rbtree_empty, dns_records = replicate (nat mx) None,
                    dns_name = (\<lambda>_. []), dns_idx = (\<lambda>_. 0)\<rparr>
        in case hev_mapped_dns_construct self net msk mx of Inl s \<Rightarrow> Some s | Inr _ \<Rightarrow> None)"

definition hev_mapped_dns_node_alloc ::
    "mapped_dns \<Rightarrow> cstring \<Rightarrow> nat option \<Rightarrow> (mapped_dns \<times> nat) option" where
  "hev_mapped_dns_node_alloc self name mem =
     map_option (\<lambda>node. (self\<lparr>dns_name := (dns_name self)(node := name),
                              dns_idx := (dns_idx self)(node := 0)\<rparr>, node)) mem"

text \<open>\<^verbatim>\<open>hev_list_del\<close> and \<^verbatim>\<open>hev_list_add_tail\<close> of a node: it becomes the most recently used.\<close>

definition dns_touch :: "mapped_dns \<Rightarrow> nat \<Rightarrow> mapped_dns" where
  "dns_touch self node =
     self\<lparr>dns_list := hev_list_add_tail (hev_list_del (dns_list self) node) node\<rparr>"

text \<open>The part of \<^verbatim>\<open>hev_mapped_dns_find\<close> after the descent, for a name that is not there.\<close>

definition dns_insert ::
    "mapped_dns \<Rightarrow> cstring \<Rightarrow> nat option \<times> nat rb_link \<Rightarrow> nat option \<Rightarrow> (mapped_dns \<times> int) option" where
  "dns_insert self name place mem =
     (case hev_mapped_dns_node_alloc self name mem of
        None \<Rightarrow> Some (self, - 1)
      | Some (self1, node) \<Rightarrow> do {
          let (parent, new) = place;
          tree \<leftarrow> hev_rbtree_insert_color (hev_rbtree_node_link (dns_tree self1) node parent new) node;
          let self2 = self1\<lparr>dns_tree := tree, dns_list := hev_list_add_tail (dns_list self1) node\<rparr>;
          (self3, idx) \<leftarrow>
            (if dns_use self2 < dns_max self2
             then Some (self2\<lparr>dns_use := dns_use self2 + 1\<rparr>, dns_use self)
             else do {
               nf \<leftarrow> hev_list_first (dns_list self2);
               let idx = dns_idx self2 nf;
               tree2 \<leftarrow> hev_rbtree_erase (dns_tree self2) nf;
               Some (self2\<lparr>dns_tree := tree2, dns_list := hev_list_del (dns_list self2) nf\<rparr>, idx)
             });
          if 0 \<le> idx \<and> nat idx < length (dns_records self3)
          then Some (self3\<lparr>dns_records := (dns_records self3)[nat idx := Some node],
                           dns_idx := (dns_idx self3)(node := idx)\<rparr>, idx)
          else None
        })"

definition hev_mapped_dns_find ::
    "mapped_dns \<Rightarrow> cstring \<Rightarrow> nat option \<Rightarrow> (mapped_dns \<times> int) option" where
  "hev_mapped_dns_find self name mem =
     do {
       found \<leftarrow> rb_descend (dns_tree self) (\<lambda>n. strcmp (dns_name self n) name) LinkRoot None;
       (case found of
          Inr node \<Rightarrow> Some (dns_touch self node, dns_idx self node)
        | Inl place \<Rightarrow> dns_insert self name place mem)
     }"

definition hev_mapped_dns_lookup :: "mapped_dns \<Rightarrow> u32 \<Rightarrow> (mapped_dns \<times> cstring option) option" where
  "hev_mapped_dns_lookup self ip =
     (let idx = sint (ip AND NOT (dns_mask self)) in
      if idx \<ge> dns_max self then Some (self, None)
      else if 0 \<le> idx \<and> nat idx < length (dns_records self) then
        (case dns_records self ! nat idx of
           None \<Rightarrow> Some (self, None)
         | Some node \<Rightarrow> Some (dns_touch self node, Some (dns_name self node)))
      else None)"

text \<open>\<^verbatim>\<open>hev_mapped_dns_destruct\<close>: the nodes it releases, in order.\<close>

definition hev_mapped_dns_destruct :: "mapped_dns \<Rightarrow> nat list option" where
  "hev_mapped_dns_destruct self = hev_list_walk (dns_list self) (hev_list_first (dns_list self)) []"

section \<open>The abstract cache\<close>

text \<open>Names with their index, the least recently used first.\<close>

type_synonym lru = "(cstring \<times> int) list"

fun lru_entry :: "lru \<Rightarrow> cstring \<Rightarrow> int option" where
  "lru_entry [] name = None"
| "lru_entry ((k, i) # c) name = (if k = name then Some i else lru_entry c name)"

definition lru_find :: "int \<Rightarrow> lru \<Rightarrow> cstring \<Rightarrow> lru \<times> int" where
  "lru_find mx c name =
     (case lru_entry c name of
        Some i \<Rightarrow> (remove1 (name, i) c @ [(name, i)], i)
      | None \<Rightarrow>
          if int (length c) < mx then (c @ [(name, int (length c))], int (length c))
          else (tl c @ [(name, snd (hd c))], snd (hd c)))"

fun lru_name :: "lru \<Rightarrow> int \<Rightarrow> cstring option" where
  "lru_name [] i = None"
| "lru_name ((k, j) # c) i = (if j = i then Some k else lru_name c i)"

definition lru_get :: "lru \<Rightarrow> int \<Rightarrow> lru \<times> cstring option" where
  "lru_get c i =
     (case lru_name c i of
        None \<Rightarrow> (c, None)
      | Some k \<Rightarrow> (remove1 (k, i) c @ [(k, i)], Some k))"

section \<open>Invariant\<close>

interpretation str: key_order "\<lambda>s. 0 \<notin> set s" strcmp
proof
  fix a b c :: cstring
  show "0 \<notin> set a \<Longrightarrow> 0 \<notin> set b \<Longrightarrow> strcmp a b = 0 \<longleftrightarrow> a = b" by (rule strcmp_eq_0)
  show "strcmp a b < 0 \<longleftrightarrow> 0 < strcmp b a" using strcmp_swap [of a b] by simp
  show "0 \<notin> set a \<Longrightarrow> 0 \<notin> set b \<Longrightarrow> 0 \<notin> set c \<Longrightarrow> strcmp a b < 0 \<Longrightarrow> strcmp b c < 0 \<Longrightarrow> strcmp a c < 0"
    by (rule strcmp_trans)
qed

text \<open>The records and the indices of the nodes agree, and the indices in use are the first ones.\<close>

definition rec_ok :: "nat option list \<Rightarrow> (nat \<Rightarrow> int) \<Rightarrow> nat set \<Rightarrow> int \<Rightarrow> bool" where
  "rec_ok recs idx N u \<longleftrightarrow>
     u \<le> int (length recs) \<and>
     (\<forall>n \<in> N. 0 \<le> idx n \<and> idx n < u \<and> recs ! nat (idx n) = Some n) \<and>
     (\<forall>i < length recs. \<forall>n. recs ! i = Some n \<longrightarrow> n \<in> N \<and> idx n = int i)"

definition dns_inv :: "mapped_dns \<Rightarrow> nat list \<Rightarrow> bool" where
  "dns_inv self ns \<longleftrightarrow>
     dlist (dns_list self) ns \<and>
     rb_index (\<lambda>s. 0 \<notin> set s) strcmp (dns_tree self) (dns_name self) (set ns) \<and>
     dns_use self = int (length ns) \<and> dns_use self \<le> dns_max self \<and> 0 < dns_max self \<and>
     dns_max self \<le> sint (NOT (dns_mask self)) \<and> int (length (dns_records self)) = dns_max self \<and>
     rec_ok (dns_records self) (dns_idx self) (set ns) (dns_use self)"

text \<open>The abstract cache of a state whose nodes, in list order, are \<open>ns\<close>.\<close>

definition dns_cache :: "mapped_dns \<Rightarrow> nat list \<Rightarrow> lru" where
  "dns_cache self ns = map (\<lambda>n. (dns_name self n, dns_idx self n)) ns"

section \<open>The operations refine the abstract cache\<close>

lemma dns_inv_dlist: "dns_inv self ns \<Longrightarrow> dlist (dns_list self) ns"
  by (simp add: dns_inv_def)

lemma dns_inv_distinct: "dns_inv self ns \<Longrightarrow> distinct ns"
  using dns_inv_dlist hl.repr_distinct by blast

lemma dns_inv_names: "dns_inv self ns \<Longrightarrow> inj_on (dns_name self) (set ns)"
  unfolding dns_inv_def using str.index_inj by blast

lemma lru_entry_cache:
  assumes "inj_on (dns_name self) (set ns)"
  shows "n \<in> set ns \<Longrightarrow> lru_entry (dns_cache self ns) (dns_name self n) = Some (dns_idx self n)"
    and "k \<notin> dns_name self ` set ns \<Longrightarrow> lru_entry (dns_cache self ns) k = None"
  using assms by (induction ns) (auto simp: dns_cache_def)

lemma lru_name_cache:
  assumes "inj_on (dns_idx self) (set ns)"
  shows "n \<in> set ns \<Longrightarrow> lru_name (dns_cache self ns) (dns_idx self n) = Some (dns_name self n)"
    and "i \<notin> dns_idx self ` set ns \<Longrightarrow> lru_name (dns_cache self ns) i = None"
  using assms by (induction ns) (auto simp: dns_cache_def)

lemma dns_cache_remove1:
  assumes "inj_on (dns_name self) (set ns)" "n \<in> set ns"
  shows "dns_cache self (remove1 n ns) = remove1 (dns_name self n, dns_idx self n) (dns_cache self ns)"
  using assms by (induction ns) (auto simp: dns_cache_def inj_on_def)

lemma rec_okD:
  assumes "rec_ok r idx N u"
  shows "n \<in> N \<Longrightarrow> 0 \<le> idx n" "n \<in> N \<Longrightarrow> idx n < u" "n \<in> N \<Longrightarrow> r ! nat (idx n) = Some n"
    and "i < length r \<Longrightarrow> r ! i = Some n \<Longrightarrow> n \<in> N \<and> idx n = int i"
    and "u \<le> int (length r)"
  using assms by (auto simp: rec_ok_def)

lemma rec_ok_inj: "rec_ok r idx N u \<Longrightarrow> inj_on idx N"
  by (rule inj_onI) (metis rec_okD(3) option.inject)

lemma dns_invD:
  assumes "dns_inv self ns"
  shows "rb_index (\<lambda>s. 0 \<notin> set s) strcmp (dns_tree self) (dns_name self) (set ns)"
    and "dns_use self = int (length ns)" "int (length ns) \<le> dns_max self" "0 < dns_max self"
    and "int (length (dns_records self)) = dns_max self"
    and "rec_ok (dns_records self) (dns_idx self) (set ns) (int (length ns))"
    and "dns_max self \<le> sint (NOT (dns_mask self))"
  using assms unfolding dns_inv_def by (elim conjE; simp)+

lemma dns_inv_idx_inj: "dns_inv self ns \<Longrightarrow> inj_on (dns_idx self) (set ns)"
  using dns_invD(6) rec_ok_inj by blast

lemma rec_ok_add:
  assumes ok: "rec_ok r idx N u" and "a \<notin> N" "0 \<le> u" "nat u < length r"
  shows "rec_ok (r[nat u := Some a]) (idx(a := u)) (insert a N) (u + 1)"
  unfolding rec_ok_def
proof (intro conjI ballI allI impI)
  show "u + 1 \<le> int (length (r[nat u := Some a]))" using assms by simp
next
  fix n assume "n \<in> insert a N"
  then show "0 \<le> (idx(a := u)) n" "(idx(a := u)) n < u + 1"
    "r[nat u := Some a] ! nat ((idx(a := u)) n) = Some n"
    using assms(2-4) rec_okD(1-3) [OF ok, of n] by auto
next
  fix i n assume i: "i < length (r[nat u := Some a])" "r[nat u := Some a] ! i = Some n"
  show "n \<in> insert a N" "(idx(a := u)) n = int i"
    using i assms(2,3) rec_okD(4) [OF ok, of i n] by (cases "i = nat u"; auto)+
qed

lemma rec_ok_swap:
  assumes ok: "rec_ok r idx (insert f N) u" and f: "f \<notin> N" and a: "a \<notin> insert f N"
  shows "rec_ok (r[nat (idx f) := Some a]) (idx(a := idx f)) (insert a N) u"
proof -
  have r: "0 \<le> idx f" "idx f < u" "nat (idx f) < length r" "u \<le> int (length r)"
    using rec_okD(1,2) [OF ok, of f] rec_okD(5) [OF ok] by simp_all
  have old: "0 \<le> idx n \<and> idx n < u \<and> r[nat (idx f) := Some a] ! nat (idx n) = Some n \<and> n \<noteq> a"
    if "n \<in> N" for n
  proof -
    have "nat (idx n) \<noteq> nat (idx f)"
      using rec_okD(3) [OF ok, of n] rec_okD(3) [OF ok, of f] that f by (metis insertCI option.inject)
    then show ?thesis using rec_okD(1-3) [OF ok, of n] that a by simp (metis)
  qed
  have new: "n \<in> insert a N \<and> (idx(a := idx f)) n = int i"
    if "i < length r" "r[nat (idx f) := Some a] ! i = Some n" for i n
  proof (cases "i = nat (idx f)")
    case True
    then show ?thesis using that r by simp
  next
    case False
    then have n: "n \<in> insert f N" "idx n = int i" using that rec_okD(4) [OF ok, of i n] by simp_all
    then have "n \<noteq> f" using False r by (metis nat_int)
    then show ?thesis using n a by auto
  qed
  show ?thesis unfolding rec_ok_def using r old new by simp
qed

lemma dns_touch_refines:
  assumes "dns_inv self ns" "n \<in> set ns"
  shows "dns_inv (dns_touch self n) (remove1 n ns @ [n])"
    and "dns_cache (dns_touch self n) (remove1 n ns @ [n]) =
      remove1 (dns_name self n, dns_idx self n) (dns_cache self ns) @ [(dns_name self n, dns_idx self n)]"
proof -
  note l = dns_inv_dlist [OF assms(1)]
  note set_eq = hl.touch_set [OF l assms(2)] and repr = hl.repr_touch [OF l assms(2)]
  show "dns_inv (dns_touch self n) (remove1 n ns @ [n])"
    using assms(1) set_eq repr unfolding dns_inv_def dns_touch_def
    by (simp only: mapped_dns.simps) auto
  show "dns_cache (dns_touch self n) (remove1 n ns @ [n]) =
      remove1 (dns_name self n, dns_idx self n) (dns_cache self ns) @ [(dns_name self n, dns_idx self n)]"
    using dns_cache_remove1 [OF dns_inv_names [OF assms(1)] assms(2)]
    by (simp add: dns_cache_def dns_touch_def)
qed

lemma find_hit:
  assumes "dns_inv self ns" "n \<in> set ns"
  shows "hev_mapped_dns_find self (dns_name self n) mem = Some (dns_touch self n, dns_idx self n)"
  using str.descend_found [of "dns_tree self" "dns_name self" "set ns" n] assms
  by (simp add: hev_mapped_dns_find_def dns_inv_def)

lemma find_miss_room:
  assumes inv: "dns_inv self ns" and k: "0 \<notin> set k" "k \<notin> dns_name self ` set ns"
    and a: "a \<notin> set ns" and room: "dns_use self < dns_max self"
  shows "\<exists>self'. hev_mapped_dns_find self k (Some a) = Some (self', dns_use self) \<and>
    dns_inv self' (ns @ [a]) \<and> dns_cache self' (ns @ [a]) = dns_cache self ns @ [(k, dns_use self)]
    \<and> dns_net self' = dns_net self \<and> dns_mask self' = dns_mask self \<and> dns_max self' = dns_max self"
proof -
  have idx: "rb_index (\<lambda>s. 0 \<notin> set s) strcmp (dns_tree self) (dns_name self) (set ns)"
    using inv by (simp add: dns_inv_def)
  obtain parent link tree where
    d: "rb_descend (dns_tree self) (\<lambda>m. strcmp (dns_name self m) k) LinkRoot None = Some (Inl (parent, link))"
    and t: "hev_rbtree_insert_color (hev_rbtree_node_link (dns_tree self) a parent link) a = Some tree"
      "rb_index (\<lambda>s. 0 \<notin> set s) strcmp tree ((dns_name self)(a := k)) (insert a (set ns))"
    using str.descend_missing [OF idx k a] by blast
  let ?u = "dns_use self"
  let ?s = "self\<lparr>dns_name := (dns_name self)(a := k), dns_idx := (dns_idx self)(a := ?u),
     dns_tree := tree, dns_list := hev_list_add_tail (dns_list self) a, dns_use := ?u + 1,
     dns_records := (dns_records self)[nat ?u := Some a]\<rparr>"
  have u: "0 \<le> ?u" "nat ?u < length (dns_records self)" "?u = int (length ns)"
    using dns_invD(2,3,5) [OF inv] room by auto
  have "hev_mapped_dns_find self k (Some a) = Some (?s, ?u)"
    using d t(1) room u by (simp add: hev_mapped_dns_find_def dns_insert_def hev_mapped_dns_node_alloc_def)
  moreover have "dns_inv ?s (ns @ [a])"
    using t(2) hl.repr_add_tail [OF dns_inv_dlist [OF inv] a] u room dns_invD(3-5,7) [OF inv]
      rec_ok_add [OF dns_invD(6) [OF inv] a] by (simp add: dns_inv_def add.commute)
  moreover have "dns_cache ?s (ns @ [a]) = dns_cache self ns @ [(k, ?u)]"
    using a by (auto simp: dns_cache_def)
  ultimately show ?thesis by (intro exI [of _ ?s]) simp
qed

lemma find_miss_full:
  assumes inv: "dns_inv self (f # ns)" and k: "0 \<notin> set k" "k \<notin> dns_name self ` set (f # ns)"
    and a: "a \<notin> set (f # ns)" and full: "\<not> dns_use self < dns_max self"
  shows "\<exists>self'. hev_mapped_dns_find self k (Some a) = Some (self', dns_idx self f) \<and>
    dns_inv self' (ns @ [a]) \<and> dns_cache self' (ns @ [a]) = dns_cache self ns @ [(k, dns_idx self f)]
    \<and> dns_net self' = dns_net self \<and> dns_mask self' = dns_mask self \<and> dns_max self' = dns_max self"
proof -
  have idx: "rb_index (\<lambda>s. 0 \<notin> set s) strcmp (dns_tree self) (dns_name self) (set (f # ns))"
    using inv by (simp add: dns_inv_def)
  obtain parent link tree where
    d: "rb_descend (dns_tree self) (\<lambda>m. strcmp (dns_name self m) k) LinkRoot None = Some (Inl (parent, link))"
    and t: "hev_rbtree_insert_color (hev_rbtree_node_link (dns_tree self) a parent link) a = Some tree"
      "rb_index (\<lambda>s. 0 \<notin> set s) strcmp tree ((dns_name self)(a := k)) (insert a (set (f # ns)))"
    using str.descend_missing [OF idx k a] by blast
  have f: "f \<notin> set ns" using dns_inv_distinct [OF inv] by simp
  obtain tree2 where t2: "hev_rbtree_erase tree f = Some tree2"
      "rb_index (\<lambda>s. 0 \<notin> set s) strcmp tree2 ((dns_name self)(a := k)) (insert a (set ns))"
    using str.erase_index [OF t(2), of f] f a by (auto simp: insert_Diff_if)
  let ?u = "dns_idx self f"
  let ?l = "hev_list_add_tail (dns_list self) a"
  let ?s = "self\<lparr>dns_name := (dns_name self)(a := k), dns_idx := (dns_idx self)(a := ?u),
     dns_tree := tree2, dns_list := hev_list_del ?l f, dns_records := (dns_records self)[nat ?u := Some a]\<rparr>"
  have l: "dlist ?l (f # ns @ [a])" using hl.repr_add_tail [OF dns_inv_dlist [OF inv] a] by simp
  have u: "0 \<le> ?u" "nat ?u < length (dns_records self)" "f \<noteq> a"
    using rec_okD(1,2) [OF dns_invD(6) [OF inv], of f] dns_invD(3,5) [OF inv] a by auto
  have "hev_mapped_dns_find self k (Some a) = Some (?s, ?u)"
    using d t(1) t2(1) full u hl.repr_pop(1) [OF l]
    by (simp add: hev_mapped_dns_find_def dns_insert_def hev_mapped_dns_node_alloc_def)
  moreover have "dns_inv ?s (ns @ [a])"
    using t2(2) hl.repr_pop(2) [OF l] dns_invD(2-5,7) [OF inv]
      rec_ok_swap [OF dns_invD(6) [OF inv, unfolded list.set] f] a by (simp add: dns_inv_def)
  moreover have "dns_cache ?s (ns @ [a]) = dns_cache self ns @ [(k, ?u)]"
    using a by (auto simp: dns_cache_def)
  ultimately show ?thesis by (intro exI [of _ ?s]) simp
qed

lemma dns_cache_Cons: "dns_cache self (n # ns) = (dns_name self n, dns_idx self n) # dns_cache self ns"
  by (simp add: dns_cache_def)

lemma find_refines:
  assumes inv: "dns_inv self ns" and k: "0 \<notin> set k" and a: "a \<notin> set ns"
  shows "\<exists>self' ns'.
    hev_mapped_dns_find self k (Some a) = Some (self', snd (lru_find (dns_max self) (dns_cache self ns) k))
    \<and> dns_inv self' ns' \<and> dns_cache self' ns' = fst (lru_find (dns_max self) (dns_cache self ns) k)
    \<and> set ns' \<subseteq> insert a (set ns)
    \<and> dns_net self' = dns_net self \<and> dns_mask self' = dns_mask self \<and> dns_max self' = dns_max self"
proof -
  note names = dns_inv_names [OF inv]
  have len: "length (dns_cache self ns) = length ns" by (simp add: dns_cache_def)
  consider (hit) n where "n \<in> set ns" "k = dns_name self n"
    | (room) "k \<notin> dns_name self ` set ns" "dns_use self < dns_max self"
    | (full) "k \<notin> dns_name self ` set ns" "\<not> dns_use self < dns_max self" by blast
  then show ?thesis
  proof cases
    case hit
    then show ?thesis
      using find_hit [OF inv hit(1)] dns_touch_refines [OF inv hit(1)] lru_entry_cache(1) [OF names hit(1)]
        hl.touch_set(1) [OF dns_inv_dlist [OF inv] hit(1)]
      by (auto simp: lru_find_def dns_touch_def)
  next
    case room
    then show ?thesis
      using find_miss_room [OF inv k room(1) a room(2)] lru_entry_cache(2) [OF names room(1)]
        dns_invD(2) [OF inv] len
      by (fastforce simp: lru_find_def)
  next
    case full
    then obtain f ms where ns: "ns = f # ms" using dns_invD(2,4) [OF inv] by (cases ns) auto
    show ?thesis
      using find_miss_full [OF inv [unfolded ns] k full(1) [unfolded ns] a [unfolded ns] full(2)]
        lru_entry_cache(2) [OF names full(1)] dns_invD(2) [OF inv] full(2) ns len
      by (fastforce simp: lru_find_def dns_cache_Cons)
  qed
qed

lemma sint_and_nonneg: "0 \<le> sint (m :: u32) \<Longrightarrow> 0 \<le> sint (ip AND m)"
  by (simp add: bit_last_iff [symmetric] not_less [symmetric] bit_and_iff)

lemma lookup_refines:
  assumes inv: "dns_inv self ns"
  shows "\<exists>self' ns'. hev_mapped_dns_lookup self ip =
      Some (self', snd (lru_get (dns_cache self ns) (sint (ip AND NOT (dns_mask self)))))
    \<and> dns_inv self' ns'
    \<and> dns_cache self' ns' = fst (lru_get (dns_cache self ns) (sint (ip AND NOT (dns_mask self))))
    \<and> dns_net self' = dns_net self \<and> dns_mask self' = dns_mask self \<and> dns_max self' = dns_max self"
proof -
  let ?i = "sint (ip AND NOT (dns_mask self))"
  note rec = dns_invD(6) [OF inv] and inj = dns_inv_idx_inj [OF inv]
  have i: "0 \<le> ?i" using dns_invD(4,7) [OF inv] by (intro sint_and_nonneg) linarith
  show ?thesis
  proof (cases "?i \<in> dns_idx self ` set ns")
    case True
    then obtain n where n: "n \<in> set ns" "?i = dns_idx self n" by blast
    have "?i < dns_max self" "nat ?i < length (dns_records self)" "dns_records self ! nat ?i = Some n"
      using rec_okD(1-3) [OF rec n(1)] dns_invD(3,5) [OF inv] n(2) by auto
    then show ?thesis
      using dns_touch_refines [OF inv n(1)] lru_name_cache(1) [OF inj n(1)] n(2) i
      by (auto simp: hev_mapped_dns_lookup_def lru_get_def dns_touch_def)
  next
    case False
    have "dns_records self ! nat ?i = None" if "nat ?i < length (dns_records self)"
      using rec_okD(4) [OF rec that] False i by (cases "dns_records self ! nat ?i") force+
    then have "hev_mapped_dns_lookup self ip = Some (self, None)"
      using i dns_invD(5) [OF inv] by (auto simp: hev_mapped_dns_lookup_def Let_def)
    then show ?thesis
      using lru_name_cache(2) [OF inj False] inv by (auto simp: lru_get_def)
  qed
qed

section \<open>States by themselves\<close>

text \<open>The nodes a state holds, in list order, and the cache it represents.\<close>

definition dns_nodes :: "mapped_dns \<Rightarrow> nat list" where
  "dns_nodes self = (case hev_mapped_dns_destruct self of Some ns \<Rightarrow> ns | None \<Rightarrow> [])"

definition dns_ok :: "mapped_dns \<Rightarrow> bool" where
  "dns_ok self \<longleftrightarrow> dns_inv self (dns_nodes self)"

definition dns_lru :: "mapped_dns \<Rightarrow> lru" where
  "dns_lru self = dns_cache self (dns_nodes self)"

lemma dns_nodes_eq: "dns_inv self ns \<Longrightarrow> dns_nodes self = ns"
  using walk_dlist [OF dns_inv_dlist [of self ns]] by (simp add: dns_nodes_def hev_mapped_dns_destruct_def)

lemma dns_ok_iff: "dns_ok self \<longleftrightarrow> (\<exists>ns. dns_inv self ns)"
  unfolding dns_ok_def using dns_nodes_eq by auto

lemma find_ok:
  assumes "dns_ok self" "0 \<notin> set k" "a \<notin> set (dns_nodes self)"
  shows "\<exists>self'. hev_mapped_dns_find self k (Some a) =
      Some (self', snd (lru_find (dns_max self) (dns_lru self) k))
    \<and> dns_ok self' \<and> dns_lru self' = fst (lru_find (dns_max self) (dns_lru self) k)
    \<and> set (dns_nodes self') \<subseteq> insert a (set (dns_nodes self))
    \<and> dns_net self' = dns_net self \<and> dns_mask self' = dns_mask self \<and> dns_max self' = dns_max self"
proof -
  obtain self' ns' where "hev_mapped_dns_find self k (Some a) =
      Some (self', snd (lru_find (dns_max self) (dns_lru self) k))"
    and n: "dns_inv self' ns'" "dns_cache self' ns' = fst (lru_find (dns_max self) (dns_lru self) k)"
      "set ns' \<subseteq> insert a (set (dns_nodes self))"
      "dns_net self' = dns_net self \<and> dns_mask self' = dns_mask self \<and> dns_max self' = dns_max self"
    using find_refines [OF assms(1) [unfolded dns_ok_def] assms(2,3)] unfolding dns_lru_def by blast
  moreover have "dns_ok self'" "dns_lru self' = dns_cache self' ns'" "dns_nodes self' = ns'"
    using n(1) dns_nodes_eq [OF n(1)] by (simp_all add: dns_ok_def dns_lru_def)
  ultimately show ?thesis by simp
qed

lemma lookup_ok:
  assumes "dns_ok self"
  shows "\<exists>self'. hev_mapped_dns_lookup self ip =
      Some (self', snd (lru_get (dns_lru self) (sint (ip AND NOT (dns_mask self)))))
    \<and> dns_ok self' \<and> dns_lru self' = fst (lru_get (dns_lru self) (sint (ip AND NOT (dns_mask self))))
    \<and> dns_net self' = dns_net self \<and> dns_mask self' = dns_mask self \<and> dns_max self' = dns_max self"
proof -
  let ?g = "lru_get (dns_lru self) (sint (ip AND NOT (dns_mask self)))"
  obtain self' ns' where "hev_mapped_dns_lookup self ip = Some (self', snd ?g)"
    and n: "dns_inv self' ns'" "dns_cache self' ns' = fst ?g"
      "dns_net self' = dns_net self \<and> dns_mask self' = dns_mask self \<and> dns_max self' = dns_max self"
    using lookup_refines [OF assms [unfolded dns_ok_def], of ip] unfolding dns_lru_def by blast
  moreover have "dns_ok self'" "dns_lru self' = dns_cache self' ns'"
    using n(1) dns_nodes_eq [OF n(1)] by (simp_all add: dns_ok_def dns_lru_def)
  ultimately show ?thesis by simp
qed

lemma new_ok:
  assumes "0 < mx" "mx \<le> sint (NOT msk)"
  shows "\<exists>self. hev_mapped_dns_new True net msk mx = Some self \<and> dns_inv self [] \<and> dns_net self = net
    \<and> dns_mask self = msk \<and> dns_max self = mx"
proof -
  have "rb_index (\<lambda>s. 0 \<notin> set s) strcmp hev_rbtree_empty (\<lambda>_. []) ({} :: nat set)"
    unfolding rb_index_def by (intro exI [of _ Lf])
      (simp add: rb_repr_def rbt_ok_def key_desc_def hev_rbtree_empty_def)
  then show ?thesis
    using assms dlist_empty
    by (simp add: hev_mapped_dns_new_def hev_mapped_dns_construct_def dns_inv_def rec_ok_def)
qed

section \<open>How long a mapping lasts\<close>

text \<open>A sequence of queries, each with the memory it may take for a new node.\<close>

fun dns_finds :: "mapped_dns \<Rightarrow> (cstring \<times> nat) list \<Rightarrow> mapped_dns option" where
  "dns_finds self [] = Some self"
| "dns_finds self ((k, a) # qs) =
     do { (self', _) \<leftarrow> hev_mapped_dns_find self k (Some a); dns_finds self' qs }"

text \<open>The names are C strings, and an allocation never returns memory that is in use.\<close>

fun dns_fresh :: "mapped_dns \<Rightarrow> (cstring \<times> nat) list \<Rightarrow> bool" where
  "dns_fresh self [] \<longleftrightarrow> True"
| "dns_fresh self ((k, a) # qs) \<longleftrightarrow> 0 \<notin> set k \<and> a \<notin> set (dns_nodes self) \<and>
     (case hev_mapped_dns_find self k (Some a) of Some (self', _) \<Rightarrow> dns_fresh self' qs | None \<Rightarrow> True)"

lemma lru_entry_in: "lru_entry c k = Some i \<Longrightarrow> (k, i) \<in> set c"
  by (induction c) (auto split: if_splits)

lemma lru_entry_None: "lru_entry c k = None \<longleftrightarrow> k \<notin> fst ` set c"
  by (induction c) (auto split: if_splits)

lemma lru_find_keeps:
  assumes c: "c = xs @ (k, i) # ys" "distinct (map fst c)" and len: "length ys + 1 < nat mx"
  shows "\<exists>xs' ys'. fst (lru_find mx c k') = xs' @ (k, i) # ys' \<and> length ys' \<le> length ys + 1"
proof (cases "lru_entry c k'")
  case None
  show ?thesis
  proof (cases "int (length c) < mx")
    case True
    then show ?thesis
      using None c by (intro exI [of _ xs] exI [of _ "ys @ [(k', int (length c))]"]) (simp add: lru_find_def)
  next
    case False
    then obtain x zs where "xs = x # zs" using c len by (cases xs) auto
    then show ?thesis
      using None False c by (intro exI [of _ zs] exI [of _ "ys @ [(k', snd x)]"]) (simp add: lru_find_def)
  qed
next
  case (Some j)
  note mem = lru_entry_in [OF Some]
  have f: "fst (lru_find mx c k') = remove1 (k', j) c @ [(k', j)]" using Some by (simp add: lru_find_def)
  show ?thesis
  proof (cases "k' = k")
    case True
    then have "j = i" using mem c by (auto simp: image_iff)
    then show ?thesis using f True by (intro exI [of _ "remove1 (k', j) c"] exI [of _ "[]"]) simp
  next
    case False
    have "remove1 (k', j) c = (if (k', j) \<in> set xs then remove1 (k', j) xs @ (k, i) # ys
        else xs @ (k, i) # remove1 (k', j) ys)"
      using c(1) False by (auto simp: remove1_append)
    then obtain us vs where "remove1 (k', j) c = us @ (k, i) # vs" "length vs \<le> length ys"
      by (metis length_remove1 diff_le_self order_refl)
    then show ?thesis
      using f by (intro exI [of _ us] exI [of _ "vs @ [(k', j)]"]) simp
  qed
qed

lemma dns_lru_distinct:
  assumes "dns_ok self"
  shows "distinct (map fst (dns_lru self))" "distinct (map snd (dns_lru self))"
    and "int (length (dns_lru self)) \<le> dns_max self"
    and "(k, i) \<in> set (dns_lru self) \<Longrightarrow> 0 \<le> i \<and> i < dns_max self"
proof -
  have inv: "dns_inv self (dns_nodes self)" using assms by (simp add: dns_ok_def)
  show "distinct (map fst (dns_lru self))" "distinct (map snd (dns_lru self))"
    using dns_inv_distinct [OF inv] dns_inv_names [OF inv] dns_inv_idx_inj [OF inv]
    by (simp_all add: dns_lru_def dns_cache_def distinct_map inj_on_def)
  show "int (length (dns_lru self)) \<le> dns_max self"
    using dns_invD(3) [OF inv] by (simp add: dns_lru_def dns_cache_def)
  show "(k, i) \<in> set (dns_lru self) \<Longrightarrow> 0 \<le> i \<and> i < dns_max self"
    using rec_okD(1,2) [OF dns_invD(6) [OF inv]] dns_invD(3) [OF inv]
    by (fastforce simp: dns_lru_def dns_cache_def)
qed

lemma lru_name_distinct: "distinct (map snd c) \<Longrightarrow> (k, i) \<in> set c \<Longrightarrow> lru_name c i = Some k"
  by (induction c) force+

lemma dns_finds_keep:
  assumes "dns_ok self" "dns_fresh self qs" "dns_lru self = xs @ (k, i) # ys"
    and "length ys + length qs < nat (dns_max self)"
  shows "\<exists>self'. dns_finds self qs = Some self' \<and> dns_ok self' \<and> (k, i) \<in> set (dns_lru self')
    \<and> dns_net self' = dns_net self \<and> dns_mask self' = dns_mask self \<and> dns_max self' = dns_max self"
  using assms
proof (induction qs arbitrary: self xs ys)
  case Nil
  then show ?case by simp
next
  case (Cons q qs)
  obtain k' a where q: "q = (k', a)" by (cases q)
  have fr: "0 \<notin> set k'" "a \<notin> set (dns_nodes self)" using Cons.prems(2) q by auto
  obtain s1 where s1: "hev_mapped_dns_find self k' (Some a) =
      Some (s1, snd (lru_find (dns_max self) (dns_lru self) k'))" "dns_ok s1"
      "dns_lru s1 = fst (lru_find (dns_max self) (dns_lru self) k')"
      "dns_net s1 = dns_net self \<and> dns_mask s1 = dns_mask self \<and> dns_max s1 = dns_max self"
    using find_ok [OF Cons.prems(1) fr] by blast
  have "length ys + 1 < nat (dns_max self)" using Cons.prems(4) by simp
  from lru_find_keeps [OF Cons.prems(3) dns_lru_distinct(1) [OF Cons.prems(1)] this, of k']
  obtain xs' ys' where s2: "dns_lru s1 = xs' @ (k, i) # ys'" "length ys' \<le> length ys + 1"
    using s1(3) by auto
  have "dns_fresh s1 qs" using Cons.prems(2) q s1(1) by simp
  from Cons.IH [OF s1(2) this s2(1)] show ?case
    using s1 s2(2) Cons.prems(4) q by (simp add: s1(4))
qed

lemma lru_find_last: "\<exists>xs. fst (lru_find mx c k) = xs @ [(k, snd (lru_find mx c k))]"
  by (auto simp: lru_find_def split: option.splits)

lemma sint_small: "0 \<le> i \<Longrightarrow> i < 2 ^ 31 \<Longrightarrow> sint (word_of_int i :: u32) = i"
  by (simp add: signed_of_int signed_take_bit_int_eq_self)

lemma sint_mask32: "h < 32 \<Longrightarrow> sint (mask h :: u32) = 2 ^ h - 1"
proof -
  assume h: "h < 32"
  have "(2 :: int) ^ h \<le> 2 ^ 31" using h by (intro power_increasing) auto
  moreover have "(mask h :: u32) = word_of_int (2 ^ h - 1)"
    by (simp add: mask_eq_exp_minus_1)
  ultimately show ?thesis using sint_small [of "2 ^ h - 1"] by simp
qed

text \<open>The address \<^verbatim>\<open>net | idx\<close> leads back to the index, for a network without host bits.\<close>

lemma addr_index:
  assumes "msk = NOT (mask h)" "h < 32" "net AND NOT msk = (0 :: u32)" "0 \<le> i" "i \<le> sint (NOT msk)"
  shows "sint ((net OR word_of_int i) AND NOT msk) = i"
proof -
  have m: "NOT msk = (mask h :: u32)" using assms(1) by simp
  have i: "i < 2 ^ h" using assms(2,5) m sint_mask32 by simp
  have "(2 :: int) ^ h \<le> 2 ^ 31" using assms(2) by (intro power_increasing) auto
  with i have i31: "i < 2 ^ 31" by linarith
  have "(net OR word_of_int i) AND NOT msk = word_of_int i AND mask h"
    using assms(3) m by (simp add: bit.conj_disj_distrib2)
  also have "\<dots> = take_bit h (word_of_int i)" by (simp add: take_bit_eq_mask)
  also have "\<dots> = word_of_int i"
    using assms(2,4) i by (simp add: of_int_take_bit [symmetric] take_bit_int_eq_self)
  finally show ?thesis using sint_small assms(4) i31 by simp
qed

section \<open>Properties of the cache\<close>

text \<open>
  C6: a query implements the abstract least-recently-used cache.  The search of the tree, the
  insertion with its recolouring, the eviction and the list and record updates together return the
  index of \<open>lru_find\<close> and leave a state that represents its cache; no step reads outside memory.
\<close>

theorem hev_mapped_dns_find_refines:
  assumes "dns_ok self" "0 \<notin> set name" "a \<notin> set (dns_nodes self)"
  shows "\<exists>self'. hev_mapped_dns_find self name (Some a) =
      Some (self', snd (lru_find (dns_max self) (dns_lru self) name))
    \<and> dns_ok self' \<and> dns_lru self' = fst (lru_find (dns_max self) (dns_lru self) name)"
  using find_ok [OF assms] by blast

text \<open>The mapped DNS of the repository's configuration template, with two records.\<close>

definition dns_demo :: mapped_dns where
  "dns_demo = the (hev_mapped_dns_new True 0x64400000 0xFFC00000 2)"

lemma dns_demo_new: "dns_inv dns_demo []" "dns_net dns_demo = 0x64400000"
    "dns_mask dns_demo = 0xFFC00000" "dns_max dns_demo = 2"
  using new_ok [of 2 "0xFFC00000" "0x64400000"] by (auto simp: dns_demo_def)

lemma dns_demo_ok: "dns_ok dns_demo" "dns_nodes dns_demo = []" "dns_lru dns_demo = []"
  using dns_demo_new(1) dns_nodes_eq by (auto simp: dns_ok_iff dns_lru_def dns_cache_def)

theorem hev_mapped_dns_find_refines_witness:
  "\<exists>self'. hev_mapped_dns_find dns_demo [97] (Some 7) = Some (self', 0) \<and> dns_ok self' \<and>
     dns_lru self' = [([97], 0)]"
  using hev_mapped_dns_find_refines [of dns_demo "[97]" 7]
  by (simp add: dns_demo_ok dns_demo_new lru_find_def)

text \<open>
  mapping an address back never reads outside the records, whatever the address is, and returns
  the name the abstract cache has for the index; the entry becomes the most recently used one.
\<close>

theorem hev_mapped_dns_lookup_refines:
  assumes "dns_ok self"
  shows "\<exists>self'. hev_mapped_dns_lookup self ip =
      Some (self', snd (lru_get (dns_lru self) (sint (ip AND NOT (dns_mask self)))))
    \<and> dns_ok self' \<and> dns_lru self' = fst (lru_get (dns_lru self) (sint (ip AND NOT (dns_mask self))))"
  using lookup_ok [OF assms] by blast

theorem hev_mapped_dns_lookup_refines_witness:
  "\<exists>self'. hev_mapped_dns_lookup dns_demo 0xFFFFFFFF = Some (self', None) \<and> dns_ok self'"
  using hev_mapped_dns_lookup_refines [of dns_demo "0xFFFFFFFF"] by (auto simp: dns_demo_ok lru_get_def)



end
