(* ===== verification/MappedDNSHandle.thy ===== *)
theory MappedDNSHandle
  imports MappedDNS
begin

text \<open>
  \<^verbatim>\<open>hev_mapped_dns_handle\<close> of \<^verbatim>\<open>src/hev-mapped-dns.c\<close>: parsing a DNS query in place and
  writing the response.  The request and the response buffer are lists of exactly \<^verbatim>\<open>qlen\<close> and
  \<^verbatim>\<open>slen\<close> bytes, and \<open>mem n\<close> is the outcome of the allocation made for the question that
  has \<open>n\<close> questions after it, if it makes one.
\<close>

section \<open>The handler\<close>

definition read_u16 :: "byte list \<Rightarrow> nat \<Rightarrow> u16" where
  "read_u16 p off = mk_u16 (p ! off) (p ! (off + 1))"

definition write_u16 :: "byte list \<Rightarrow> nat \<Rightarrow> u16 \<Rightarrow> byte list" where
  "write_u16 p off v = mem_put p off [ucast (drop_bit 8 v), ucast v]"

definition write_u32 :: "byte list \<Rightarrow> nat \<Rightarrow> u32 \<Rightarrow> byte list" where
  "write_u32 p off v =
     mem_put p off [ucast (drop_bit 24 v), ucast (drop_bit 16 v), ucast (drop_bit 8 v), ucast v]"

text \<open>
  The loop over the labels of a name: a length byte becomes a dot once the end of its label is
  inside the request.  \<^term>\<open>None\<close> is \<^verbatim>\<open>return -1\<close>.
\<close>

function dns_labels :: "byte list \<Rightarrow> nat \<Rightarrow> (byte list \<times> nat) option" where
  "dns_labels rb off =
     (if off \<ge> length rb then None
      else if rb ! off = 0 then Some (rb, off)
      else
        let poff = off; off' = off + (1 + unat (rb ! off)) in
        if off' \<ge> length rb then None
        else dns_labels (rb[poff := 46]) off')"
  by pat_completeness auto
termination by (relation "measure (\<lambda>(rb, off). length rb - off)") auto

declare dns_labels.simps [simp del]

text \<open>
  The loop over the questions.  The inner option of the result is \<^term>\<open>None\<close> for
  \<^verbatim>\<open>return -1\<close>; otherwise it holds the offset after the questions and the answers to give, the
  offset of a name with its address.
\<close>

fun dns_questions :: "(nat \<Rightarrow> nat option) \<Rightarrow> nat \<Rightarrow> mapped_dns \<Rightarrow> byte list \<Rightarrow> nat \<Rightarrow> (nat \<times> u32) list \<Rightarrow>
    (mapped_dns \<times> (nat \<times> (nat \<times> u32) list) option) option" where
  "dns_questions mem 0 self rb off ips = Some (self, Some (off, ips))"
| "dns_questions mem (Suc n) self rb off ips =
     (if off \<ge> length rb then Some (self, None)
      else case dns_labels rb off of
        None \<Rightarrow> Some (self, None)
      | Some (rb1, off1) \<Rightarrow>
          let ipo = off; off2 = off1 + 1 in
          if off2 + 3 \<ge> length rb then Some (self, None)
          else if read_u16 rb1 (off2 + 0) = 1 \<and> read_u16 rb1 (off2 + 2) = 1 then do {
            (self1, idx) \<leftarrow> hev_mapped_dns_find self (cstr (drop (ipo + 1) rb1)) (mem n);
            dns_questions mem n self1 rb1 (off2 + 4)
              (if idx \<ge> 0 then ips @ [(ipo, dns_net self1 OR word_of_int idx)] else ips)
          }
          else dns_questions mem n self rb1 (off2 + 4) ips)"

text \<open>The loop over the answers.\<close>

definition dns_answer :: "byte list \<Rightarrow> nat \<Rightarrow> nat \<Rightarrow> u32 \<Rightarrow> byte list" where
  "dns_answer sb off ipo ip =
     (let sb1 = write_u16 sb (off + 0) (0xc000 OR of_nat ipo);
          sb2 = write_u16 sb1 (off + 2) 1;
          sb3 = write_u16 sb2 (off + 4) 1;
          sb4 = write_u32 sb3 (off + 6) 1;
          sb5 = write_u16 sb4 (off + 10) 4
      in write_u32 sb5 (off + 12) ip)"

fun dns_answers :: "byte list \<Rightarrow> nat \<Rightarrow> (nat \<times> u32) list \<Rightarrow> byte list \<times> nat option" where
  "dns_answers sb off [] = (sb, Some off)"
| "dns_answers sb off ((ipo, ip) # ips) =
     (if off + 15 \<ge> length sb then (sb, None)
      else dns_answers (dns_answer sb off ipo ip) (off + 16) ips)"

text \<open>The header fields are \<^verbatim>\<open>uint16_t\<close> in network order, at offsets 0 (id), 2 (fl), 4 (qd),
  6 (an), 8 (ns) and 10 (ar) of the \<^verbatim>\<open>DNSHdr\<close>.\<close>

definition hdr_get :: "byte list \<Rightarrow> nat \<Rightarrow> u16" where
  "hdr_get b off = mem_u16 (drop off b)"

definition hdr_set :: "byte list \<Rightarrow> nat \<Rightarrow> u16 \<Rightarrow> byte list" where
  "hdr_set b off v = mem_put b off (u16_mem v)"

definition dns_finish :: "byte list \<Rightarrow> nat \<Rightarrow> byte list" where
  "dns_finish sb ipn =
     (let fl = hdr_get sb 2;
          sb1 = hdr_set sb 2 (htons (fl OR 0x8000 OR drop_bit 1 (fl AND 0x100)))
      in hdr_set sb1 6 (htons (of_nat ipn)))"

definition hev_mapped_dns_handle ::
    "mapped_dns \<Rightarrow> (nat \<Rightarrow> nat option) \<Rightarrow> byte list \<Rightarrow> byte list \<Rightarrow>
     (mapped_dns \<times> byte list \<times> int) option" where
  "hev_mapped_dns_handle self mem req res =
     (if length res < length req then Some (self, res, - 1)
      else if length req < 12 then Some (self, res, - 1)
      else
        let sb = mem_put res 0 req;
            rb = hdr_set req 4 (ntohs (hdr_get req 4));
            sb1 = hdr_set sb 2 (ntohs (hdr_get sb 2));
            sb2 = hdr_set (hdr_set (hdr_set sb1 8 0) 6 0) 10 0;
            qd = hdr_get rb 4
        in if qd > 32 then Some (self, sb2, - 1)
           else do {
             (self1, q) \<leftarrow> dns_questions mem (unat qd) self rb 12 [];
             (case q of
                None \<Rightarrow> Some (self1, sb2, - 1)
              | Some (off, ips) \<Rightarrow>
                  (case dns_answers sb2 off ips of
                     (sb3, None) \<Rightarrow> Some (self1, sb3, - 1)
                   | (sb3, Some off') \<Rightarrow> Some (self1, dns_finish sb3 (length ips), int off')))
           })"

section \<open>The handler stays inside its buffers\<close>

lemma dns_labels_bounds:
  "dns_labels rb off = Some (rb', off') \<Longrightarrow>
   length rb' = length rb \<and> off \<le> off' \<and> off' < length rb \<and> rb' ! off' = 0"
proof (induction rb off arbitrary: rb' off' rule: dns_labels.induct)
  case (1 rb off)
  let ?off = "off + (1 + unat (rb ! off))"
  note p = "1.prems" [unfolded dns_labels.simps [of rb off] Let_def]
  have off: "off < length rb" using p by (cases "off \<ge> length rb") simp_all
  show ?case
  proof (cases "rb ! off = 0")
    case True
    then show ?thesis using p off by auto
  next
    case False
    then have "?off < length rb" using p off by (cases "?off \<ge> length rb") simp_all
    then show ?thesis
      using p off False "1.IH" [of off ?off rb' off'] by simp
  qed
qed

lemma length_dns_answer [simp]:
  "off + 15 < length sb \<Longrightarrow> length (dns_answer sb off ipo ip) = length sb"
  by (simp add: dns_answer_def Let_def write_u16_def write_u32_def length_mem_put)

lemma dns_answers_bounds:
  "length (fst (dns_answers sb off ips)) = length sb"
  "snd (dns_answers sb off ips) = Some off' \<Longrightarrow> off' = off + 16 * length ips"
  "snd (dns_answers sb off ips) = Some off' \<Longrightarrow> off \<le> length sb \<Longrightarrow> off' \<le> length sb"
proof (induction ips arbitrary: sb off)
  case (Cons p ips)
  obtain ipo ip where p: "p = (ipo, ip)" by (cases p)
  {
    case 1
    show ?case using Cons(1) p by simp
  next
    case 2
    then show ?case using Cons(2) [of "dns_answer sb off ipo ip" "off + 16"] p
      by (cases "off + 15 \<ge> length sb") simp_all
  next
    case 3
    then show ?case using Cons(3) [of "dns_answer sb off ipo ip" "off + 16"] p
      by (cases "off + 15 \<ge> length sb") simp_all
  }
qed simp_all

lemma length_hdr_set [simp]: "off + 2 \<le> length b \<Longrightarrow> length (hdr_set b off v) = length b"
  by (simp add: hdr_set_def length_mem_put)

lemma length_dns_finish [simp]: "12 \<le> length sb \<Longrightarrow> length (dns_finish sb n) = length sb"
  by (simp add: dns_finish_def Let_def)

text \<open>What an allocation may return: memory that no node of the cache uses, and never the same twice.\<close>

definition mem_fresh :: "(nat \<Rightarrow> nat option) \<Rightarrow> nat \<Rightarrow> mapped_dns \<Rightarrow> bool" where
  "mem_fresh mem n self \<longleftrightarrow>
     (\<forall>i < n. \<forall>a. mem i = Some a \<longrightarrow> a \<notin> set (dns_nodes self)) \<and>
     (\<forall>i < n. \<forall>j < n. \<forall>a. mem i = Some a \<longrightarrow> mem j = Some a \<longrightarrow> i = j)"

lemma find_no_memory:
  assumes "dns_ok self" "0 \<notin> set k"
  shows "\<exists>self' i. hev_mapped_dns_find self k None = Some (self', i) \<and> dns_ok self' \<and>
    set (dns_nodes self') = set (dns_nodes self)"
proof -
  have inv: "dns_inv self (dns_nodes self)" using assms(1) by (simp add: dns_ok_def)
  show ?thesis
  proof (cases "k \<in> dns_name self ` set (dns_nodes self)")
    case True
    then obtain n where n: "n \<in> set (dns_nodes self)" "k = dns_name self n" by blast
    note t = dns_touch_refines(1) [OF inv n(1)]
    show ?thesis
      using find_hit [OF inv n(1)] n(2) t dns_nodes_eq [OF t] hl.touch_set(1) [OF dns_inv_dlist [OF inv] n(1)]
      by (auto simp: dns_ok_iff)
  next
    case False
    obtain a where "a \<notin> set (dns_nodes self)" by (metis ex_new_if_finite finite_set infinite_UNIV_nat)
    from str.descend_missing [OF dns_invD(1) [OF inv] assms(2) False this] show ?thesis
      using assms(1) by (auto simp: hev_mapped_dns_find_def dns_insert_def hev_mapped_dns_node_alloc_def)
  qed
qed

lemma mem_fresh_step:
  assumes "mem_fresh mem (Suc n) self" "set (dns_nodes self') \<subseteq> set (dns_nodes self) \<union> set_option (mem n)"
  shows "mem_fresh mem n self'"
  unfolding mem_fresh_def
proof (intro conjI allI impI)
  show "b \<notin> set (dns_nodes self')" if "i < n" "mem i = Some b" for i b
  proof -
    have "b \<notin> set (dns_nodes self)" using assms(1) that unfolding mem_fresh_def by (meson less_SucI)
    moreover have "mem n \<noteq> Some b"
      using assms(1) that unfolding mem_fresh_def by (metis less_SucI less_irrefl_nat lessI)
    ultimately show ?thesis using assms(2) by auto
  qed
  show "i = j" if "i < n" "j < n" "mem i = Some b" "mem j = Some b" for i j b
    using assms(1) that unfolding mem_fresh_def by (meson less_SucI)
qed

lemma find_any:
  assumes "dns_ok self" "0 \<notin> set k" "mem_fresh mem (Suc n) self"
  shows "\<exists>self' i. hev_mapped_dns_find self k (mem n) = Some (self', i) \<and> dns_ok self' \<and>
    mem_fresh mem n self'"
proof (cases "mem n")
  case None
  then show ?thesis
    using find_no_memory [OF assms(1,2)] mem_fresh_step [OF assms(3)] by fastforce
next
  case (Some a)
  then have "a \<notin> set (dns_nodes self)" using assms(3) by (auto simp: mem_fresh_def)
  from find_ok [OF assms(1,2) this] obtain self' i where
    s: "hev_mapped_dns_find self k (mem n) = Some (self', i)" "dns_ok self'"
      "set (dns_nodes self') \<subseteq> insert a (set (dns_nodes self))"
    using Some by auto
  then show ?thesis using mem_fresh_step [OF assms(3), of self'] Some by auto
qed

lemma dns_questions_safe:
  assumes "dns_ok self" "mem_fresh mem n self" "off \<le> length rb"
  shows "\<exists>self' q. dns_questions mem n self rb off ips = Some (self', q) \<and> dns_ok self' \<and>
    (\<forall>off' ips'. q = Some (off', ips') \<longrightarrow> off \<le> off' \<and> off' \<le> length rb)"
  using assms
proof (induction n arbitrary: self rb off ips)
  case (Suc n)
  show ?case
  proof (cases "off \<ge> length rb \<or> dns_labels rb off = None")
    case True
    then show ?thesis using Suc.prems(1) by auto
  next
    case False
    then obtain rb1 off1 where l: "dns_labels rb off = Some (rb1, off1)" by auto
    note b = dns_labels_bounds [OF l]
    have mf: "mem_fresh mem n self" using Suc.prems(2) unfolding mem_fresh_def by (meson less_SucI)
    have z: "0 \<notin> set (cstr (drop (off + 1) rb1))" by simp
    obtain self1 i where f: "hev_mapped_dns_find self (cstr (drop (off + 1) rb1)) (mem n) = Some (self1, i)"
      "dns_ok self1" "mem_fresh mem n self1"
      using find_any [OF Suc.prems(1) z Suc.prems(2)] by blast
    show ?thesis
    proof (cases "off1 + 1 + 3 \<ge> length rb")
      case True
      then show ?thesis using False l Suc.prems(1) by (auto simp: Let_def)
    next
      case in_range: False
      then have o: "off1 + 1 + 4 \<le> length rb1" using b by simp
      obtain s' ips' where s': "dns_ok s'" "mem_fresh mem n s'"
        "dns_questions mem (Suc n) self rb off ips = dns_questions mem n s' rb1 (off1 + 1 + 4) ips'"
      proof (cases "read_u16 rb1 (off1 + 1) = 1 \<and> read_u16 rb1 (off1 + 1 + 2) = 1")
        case True
        show ?thesis
          by (rule that [OF f(2,3)], insert False l f(1) in_range True) (simp add: Let_def)
      next
        case no: False
        show ?thesis
          by (rule that [OF Suc.prems(1) mf], insert False l in_range no) (auto simp: Let_def)
      qed
      obtain s2 q where q: "dns_questions mem n s' rb1 (off1 + 1 + 4) ips' = Some (s2, q)" "dns_ok s2"
        "\<forall>off' ips'. q = Some (off', ips') \<longrightarrow> off1 + 1 + 4 \<le> off' \<and> off' \<le> length rb1"
        using Suc.IH [OF s'(1,2) o, of ips'] by blast
      have "\<forall>off' ips'. q = Some (off', ips') \<longrightarrow> off \<le> off' \<and> off' \<le> length rb"
        using q(3) b by fastforce
      then show ?thesis using q(1,2) unfolding s'(3) by blast
    qed
  qed
qed simp

lemma handle_safe:
  assumes "dns_ok self" "mem_fresh mem 32 self"
  shows "\<exists>self' sb r. hev_mapped_dns_handle self mem req res = Some (self', sb, r) \<and> dns_ok self' \<and>
    length sb = length res \<and> (r = - 1 \<or> 12 \<le> r \<and> r \<le> int (length res))"
proof (cases "length res < length req \<or> length req < 12")
  case True
  then show ?thesis using assms(1) by (auto simp: hev_mapped_dns_handle_def)
next
  case False
  then have len: "12 \<le> length req" "length req \<le> length res" by auto
  define rb where "rb = hdr_set req 4 (ntohs (hdr_get req 4))"
  define sb where "sb = mem_put res 0 req"
  define sb2 where "sb2 = hdr_set (hdr_set (hdr_set (hdr_set sb 2 (ntohs (hdr_get sb 2))) 8 0) 6 0) 10 0"
  define n where "n = unat (hdr_get rb 4)"
  have l: "length rb = length req" "length sb2 = length res" "12 \<le> length sb2"
    using len by (simp_all add: rb_def sb2_def sb_def length_mem_put)
  show ?thesis
  proof (cases "hdr_get rb 4 > 32")
    case True
    then show ?thesis
      using False assms(1) l by (simp add: hev_mapped_dns_handle_def Let_def rb_def sb_def sb2_def)
  next
    case qd: False
    then have "n \<le> 32" by (simp add: n_def not_less word_le_nat_alt)
    then have mf: "mem_fresh mem n self"
      using assms(2) unfolding mem_fresh_def by (meson order_less_le_trans)
    obtain self1 q where q: "dns_questions mem n self rb 12 [] = Some (self1, q)" "dns_ok self1"
      "\<forall>off ips. q = Some (off, ips) \<longrightarrow> 12 \<le> off \<and> off \<le> length rb"
      using dns_questions_safe [OF assms(1) mf] len l by metis
    have h: "hev_mapped_dns_handle self mem req res =
       (case q of None \<Rightarrow> Some (self1, sb2, - 1)
        | Some (off, ips) \<Rightarrow> (case dns_answers sb2 off ips of
            (sb3, None) \<Rightarrow> Some (self1, sb3, - 1)
          | (sb3, Some off') \<Rightarrow> Some (self1, dns_finish sb3 (length ips), int off')))"
      unfolding sb2_def sb_def
      using False qd q(1) by (simp add: hev_mapped_dns_handle_def Let_def rb_def n_def)
    show ?thesis
    proof (cases q)
      case None
      then show ?thesis using h q(2) l by simp
    next
      case (Some p)
      then obtain off ips where p: "q = Some (off, ips)" by (cases p) simp
      note bd = dns_answers_bounds [of sb2 off ips] and qb = q(3) [rule_format, OF p]
      show ?thesis
        using h p q(2) bd qb l len
        by (cases "dns_answers sb2 off ips"; cases "snd (dns_answers sb2 off ips)") auto
    qed
  qed
qed

section \<open>The answer to a single query\<close>

text \<open>The labels of a name on the wire, and the dotted string the handler makes of them.\<close>

definition wire_name :: "byte list list \<Rightarrow> byte list" where
  "wire_name ls = concat (map (\<lambda>l. of_nat (length l) # l) ls)"

definition dotted :: "byte list list \<Rightarrow> byte list" where
  "dotted ls = concat (map (\<lambda>l. 46 # l) ls)"

definition label_ok :: "byte list \<Rightarrow> bool" where
  "label_ok l \<longleftrightarrow> l \<noteq> [] \<and> length l < 256 \<and> 0 \<notin> set l"

lemma length_dotted [simp]: "length (dotted ls) = length (wire_name ls)"
  by (induction ls) (auto simp: dotted_def wire_name_def)

lemma dns_labels_wire:
  assumes "\<forall>l \<in> set ls. label_ok l"
  shows "dns_labels (pr @ wire_name ls @ 0 # rest) (length pr) =
    Some (pr @ dotted ls @ 0 # rest, length pr + length (wire_name ls))"
  using assms
proof (induction ls arbitrary: pr)
  case Nil
  then show ?case by (simp add: dns_labels.simps wire_name_def dotted_def)
next
  case (Cons l ls)
  have l: "label_ok l" using Cons.prems by simp
  have n: "unat (of_nat (length l) :: byte) = length l" "(of_nat (length l) :: byte) \<noteq> 0"
    using l unat_of_nat_byte [of "length l"] by (auto simp: label_ok_def unat_eq_zero)
  have "dns_labels (pr @ wire_name (l # ls) @ 0 # rest) (length pr) =
      dns_labels ((pr @ 46 # l) @ wire_name ls @ 0 # rest) (length (pr @ 46 # l))"
    using n by (subst dns_labels.simps) (simp add: wire_name_def nth_append list_update_append Let_def)
  also have "\<dots> = Some ((pr @ 46 # l) @ dotted ls @ 0 # rest, length (pr @ 46 # l) + length (wire_name ls))"
    using Cons.prems by (intro Cons.IH) simp
  finally show ?case by (simp add: dotted_def wire_name_def)
qed

lemma cstr_dotted:
  assumes "\<forall>l \<in> set ls. label_ok l"
  shows "cstr (drop 1 (dotted ls @ 0 # 0 # rest)) = tl (dotted ls)"
proof (cases ls)
  case Nil
  then show ?thesis by (simp add: dotted_def cstr_def)
next
  case (Cons l ls')
  have "0 \<notin> set (tl (dotted ls))"
    using assms Cons by (auto simp: dotted_def label_ok_def)
  moreover have "drop 1 (dotted ls @ 0 # 0 # rest) = tl (dotted ls) @ 0 # 0 # rest"
    using Cons by (simp add: dotted_def)
  ultimately show ?thesis by (simp add: cstr_append_zero)
qed

text \<open>The request: a header with one question, the name, type A and class IN.\<close>

definition dns_query :: "byte \<Rightarrow> byte \<Rightarrow> byte \<Rightarrow> byte \<Rightarrow> byte list \<Rightarrow> byte list list \<Rightarrow> byte list" where
  "dns_query i0 i1 f0 f1 cnt ls = [i0, i1, f0, f1, 0, 1] @ cnt @ wire_name ls @ [0, 0, 1, 0, 1]"

text \<open>The response: the query bit and recursion available, one answer with a pointer to the name.\<close>

definition dns_reply :: "byte \<Rightarrow> byte \<Rightarrow> byte \<Rightarrow> byte \<Rightarrow> byte list list \<Rightarrow> u32 \<Rightarrow> byte list" where
  "dns_reply i0 i1 f0 f1 ls ip =
     (let fl = mk_u16 f0 f1; w = fl OR 0x8000 OR drop_bit 1 (fl AND 0x100) in
      [i0, i1, byte_hi w, byte_lo w, 0, 1, 0, 1, 0, 0, 0, 0] @ wire_name ls @ [0, 0, 1, 0, 1] @
      [0xc0, 12, 0, 1, 0, 1, 0, 0, 0, 1, 0, 4,
       ucast (drop_bit 24 ip), ucast (drop_bit 16 ip), ucast (drop_bit 8 ip), ucast ip])"

lemma mem_put_append: "mem_put (xs @ t) (length xs + k) v = xs @ mem_put t k v"
  by (simp add: mem_put_def)

lemma dns_answer_append:
  assumes "length t = 16"
  shows "dns_answer (xs @ t @ ts) (length xs) 12 ip = xs @
    [0xc0, 12, 0, 1, 0, 1, 0, 0, 0, 1, 0, 4,
     ucast (drop_bit 24 ip), ucast (drop_bit 16 ip), ucast (drop_bit 8 ip), ucast ip] @ ts"
proof -
  obtain t0 t1 t2 t3 t4 t5 t6 t7 t8 t9 t10 t11 t12 t13 t14 t15 where
    t: "t = [t0, t1, t2, t3, t4, t5, t6, t7, t8, t9, t10, t11, t12, t13, t14, t15]"
    using assms by (auto simp: length_Suc_conv eval_nat_numeral)
  show ?thesis
    unfolding dns_answer_def write_u16_def write_u32_def Let_def mem_put_append t
    by (simp add: mem_put_def)
qed

lemma hdr_simps:
  "hdr_get (a # b # c # d # r) 2 = mk_u16 d c"
  "hdr_get (a # b # c # d # e # f # r) 4 = mk_u16 f e"
  "hdr_set (a # b # c # d # r) 2 v = a # b # byte_lo v # byte_hi v # r"
  "hdr_set (a # b # c # d # e # f # r) 4 v = a # b # c # d # byte_lo v # byte_hi v # r"
  "hdr_set (a # b # c # d # e # f # g # h # r) 6 v = a # b # c # d # e # f # byte_lo v # byte_hi v # r"
  "hdr_set (a # b # c # d # e # f # g # h # i # j # r) 8 v =
     a # b # c # d # e # f # g # h # byte_lo v # byte_hi v # r"
  "hdr_set (a # b # c # d # e # f # g # h # i # j # k # l # r) 10 v =
     a # b # c # d # e # f # g # h # i # j # byte_lo v # byte_hi v # r"
  by (simp_all add: hdr_get_def hdr_set_def mem_u16_def u16_mem_def mem_put_def)

lemma query_question:
  assumes ok: "dns_ok self" and a: "mem 0 = Some a" "a \<notin> set (dns_nodes self)"
    and ls: "\<forall>l \<in> set ls. label_ok l" and h: "length hdr = 12"
  shows "\<exists>self'. dns_questions mem 1 self (hdr @ wire_name ls @ [0, 0, 1, 0, 1]) 12 [] =
      Some (self', Some (12 + length (wire_name ls) + 5,
        [(12, dns_net self OR word_of_int (snd (lru_find (dns_max self) (dns_lru self) (tl (dotted ls)))))]))
    \<and> dns_ok self' \<and> dns_lru self' = fst (lru_find (dns_max self) (dns_lru self) (tl (dotted ls)))"
proof -
  let ?name = "tl (dotted ls)" and ?f = "lru_find (dns_max self) (dns_lru self) (tl (dotted ls))"
  let ?off = "12 + length (wire_name ls)"
  have "cstr (drop 1 (dotted ls @ 0 # 0 # [1, 0, 1])) = ?name" by (rule cstr_dotted [OF ls])
  moreover have "drop 13 (hdr @ dotted ls @ [0, 0, 1, 0, 1]) = drop 1 (dotted ls @ [0, 0, 1, 0, 1])"
    using h by simp
  ultimately have name: "cstr (drop 13 (hdr @ dotted ls @ [0, 0, 1, 0, 1])) = ?name" by simp
  then have "0 \<notin> set ?name" by (metis cstr_no_zero)
  from find_ok [OF ok this a(2)] obtain self' where
    f: "hev_mapped_dns_find self ?name (mem 0) = Some (self', snd ?f)" "dns_ok self'"
      "dns_lru self' = fst ?f" "dns_net self' = dns_net self" "dns_max self' = dns_max self"
    using a(1) by auto
  have "(?name, snd ?f) \<in> set (dns_lru self')"
    using lru_find_last [of "dns_max self" "dns_lru self" ?name] f(3) by auto
  then have pos: "0 \<le> snd ?f" using dns_lru_distinct(4) [OF f(2)] by blast
  have lab: "dns_labels (hdr @ wire_name ls @ [0, 0, 1, 0, 1]) 12 =
      Some (hdr @ dotted ls @ [0, 0, 1, 0, 1], ?off)"
    using dns_labels_wire [OF ls, of hdr "[0, 1, 0, 1]"] h by simp
  have "read_u16 (hdr @ dotted ls @ [0, 0, 1, 0, 1]) (?off + 1) = 1"
    "read_u16 (hdr @ dotted ls @ [0, 0, 1, 0, 1]) (?off + 1 + 2) = 1"
    using h by (simp_all add: read_u16_def nth_append mk_u16_def)
  then have "dns_questions mem 1 self (hdr @ wire_name ls @ [0, 0, 1, 0, 1]) 12 [] =
      Some (self', Some (?off + 5, [(12, dns_net self OR word_of_int (snd ?f))]))"
    using lab name f(1,4) pos h by (simp add: Let_def)
  then show ?thesis using f(2,3) by simp
qed

definition answer_bytes :: "u32 \<Rightarrow> byte list" where
  "answer_bytes ip = [0xc0, 12, 0, 1, 0, 1, 0, 0, 0, 1, 0, 4,
     ucast (drop_bit 24 ip), ucast (drop_bit 16 ip), ucast (drop_bit 8 ip), ucast ip]"

lemma small_words: "byte_lo 0 = 0" "byte_hi 0 = 0" "byte_lo 1 = 1" "byte_hi 1 = 0" "mk_u16 0 1 = 1"
  by (simp_all add: byte_lo_def byte_hi_def mk_u16_def)

text \<open>The header work of the handler on a query, and its end.\<close>

lemma query_headers:
  fixes cnt W tl :: "byte list"
  assumes c: "cnt = [c0, c1, c2, c3, c4, c5]" and q: "q = [i0, i1, f0, f1, 0, 1] @ cnt @ W"
  shows "hdr_set q 4 (ntohs (hdr_get q 4)) = [i0, i1, f0, f1, 1, 0, c0, c1, c2, c3, c4, c5] @ W"
    and "hdr_get ([i0, i1, f0, f1, 1, 0, c0, c1, c2, c3, c4, c5] @ W) 4 = 1"
    and "hdr_set (hdr_set (hdr_set (hdr_set (q @ tl) 2 (ntohs (hdr_get (q @ tl) 2))) 8 0) 6 0) 10 0
      = [i0, i1, f1, f0, 0, 1, 0, 0, 0, 0, 0, 0] @ W @ tl"
    and "dns_finish ([i0, i1, f1, f0, 0, 1, 0, 0, 0, 0, 0, 0] @ W @ tl) 1 =
      (let fl = mk_u16 f0 f1; w = fl OR 0x8000 OR drop_bit 1 (fl AND 0x100) in
       [i0, i1, byte_hi w, byte_lo w, 0, 1, 0, 1, 0, 0, 0, 0] @ W @ tl)"
  by (simp_all add: q c hdr_simps small_words htons_mk dns_finish_def Let_def)
     (simp_all add: htons_def small_words)

lemma query_answered:
  assumes ok: "dns_ok self" and a: "mem 0 = Some a" "a \<notin> set (dns_nodes self)"
    and ls: "\<forall>l \<in> set ls. label_ok l" and cnt: "length cnt = 6"
    and res: "length (dns_query i0 i1 f0 f1 cnt ls) + 16 \<le> length res"
    and ip: "ip = dns_net self OR word_of_int (snd (lru_find (dns_max self) (dns_lru self) (tl (dotted ls))))"
  shows "\<exists>self' rest.
    hev_mapped_dns_handle self mem (dns_query i0 i1 f0 f1 cnt ls) res =
      Some (self', dns_reply i0 i1 f0 f1 ls ip @ rest, int (length (dns_query i0 i1 f0 f1 cnt ls) + 16))
    \<and> dns_ok self' \<and> dns_lru self' = fst (lru_find (dns_max self) (dns_lru self) (tl (dotted ls)))"
proof -
  obtain c0 c1 c2 c3 c4 c5 where c: "cnt = [c0, c1, c2, c3, c4, c5]"
    using cnt by (auto simp: length_Suc_conv eval_nat_numeral)
  define W where "W = wire_name ls @ [0, 0, 1, 0, 1 :: byte]"
  define q where "q = dns_query i0 i1 f0 f1 cnt ls"
  have q: "q = [i0, i1, f0, f1, 0, 1] @ cnt @ W" by (simp add: q_def W_def dns_query_def)
  define t where "t = take 16 (drop (length q) res)"
  define ts where "ts = drop 16 (drop (length q) res)"
  have sb: "mem_put res 0 q = q @ t @ ts"
    unfolding t_def ts_def append_take_drop_id by (simp add: mem_put_def)
  have t: "length t = 16" using res by (simp add: t_def q_def)
  note hs = query_headers [OF c q]
  let ?h = "[i0, i1, f1, f0, 0, 1, 0, 0, 0, 0, 0, 0] @ W"
  obtain self' where s': "dns_questions mem 1 self ([i0, i1, f0, f1, 1, 0, c0, c1, c2, c3, c4, c5] @ W) 12 [] =
      Some (self', Some (length ?h, [(12, ip)]))" "dns_ok self'"
      "dns_lru self' = fst (lru_find (dns_max self) (dns_lru self) (tl (dotted ls)))"
    using query_question [where mem = mem and hdr = "[i0, i1, f0, f1, 1, 0, c0, c1, c2, c3, c4, c5]",
        OF ok a ls] unfolding W_def ip by auto
  have ans: "dns_answers (?h @ t @ ts) (length ?h) [(12, ip)] = (?h @ answer_bytes ip @ ts, Some (length ?h + 16))"
    using dns_answer_append [OF t, of ?h ts ip] t unfolding answer_bytes_def by simp
  have len: "length q = length ?h" "\<not> length res < length q" "\<not> length q < 12"
    using res q c unfolding q_def by simp_all
  have "hev_mapped_dns_handle self mem q res =
      Some (self', dns_finish (?h @ answer_bytes ip @ ts) 1, int (length ?h + 16))"
    unfolding hev_mapped_dns_handle_def sb hs(1) Let_def hs(3)
    using len(2,3) s'(1) ans hs(2) by simp
  moreover have "dns_finish (?h @ answer_bytes ip @ ts) 1 = dns_reply i0 i1 f0 f1 ls ip @ ts"
    using hs(4) [of "answer_bytes ip @ ts"] by (simp add: dns_reply_def Let_def W_def answer_bytes_def)
  ultimately show ?thesis using s'(2,3) len(1) unfolding q_def by auto
qed

section \<open>Properties of the handler\<close>



text \<open>
  C19: a query for the address of a name gets exactly one answer: the response repeats the identifier
  and the question, sets the response and recursion-available bits, and carries the address
  \<^verbatim>\<open>net | idx\<close> of the index the cache has or makes for the dotted name.
\<close>

theorem hev_mapped_dns_handle_query:
  assumes "dns_ok self" "mem 0 = Some a" "a \<notin> set (dns_nodes self)"
    and "\<forall>l \<in> set ls. label_ok l" "length cnt = 6"
    and "length (dns_query i0 i1 f0 f1 cnt ls) + 16 \<le> length res"
    and "ip = dns_net self OR word_of_int (snd (lru_find (dns_max self) (dns_lru self) (tl (dotted ls))))"
  shows "\<exists>self' rest.
    hev_mapped_dns_handle self mem (dns_query i0 i1 f0 f1 cnt ls) res =
      Some (self', dns_reply i0 i1 f0 f1 ls ip @ rest, int (length (dns_query i0 i1 f0 f1 cnt ls) + 16))
    \<and> dns_ok self' \<and> dns_lru self' = fst (lru_find (dns_max self) (dns_lru self) (tl (dotted ls)))"
  using query_answered [where mem = mem, OF assms] .

theorem hev_mapped_dns_handle_query_witness:
  "\<exists>self' rest. hev_mapped_dns_handle dns_demo (\<lambda>_. Some 7) (dns_query 1 2 1 0 (replicate 6 0) [[97, 98], [99]])
      (replicate 64 0) =
      Some (self', dns_reply 1 2 1 0 [[97, 98], [99]] 0x64400000 @ rest, 38) \<and> dns_ok self' \<and>
      dns_lru self' = [([97, 98, 46, 99], 0)]"
  using hev_mapped_dns_handle_query [of dns_demo "\<lambda>_. Some 7" 7 "[[97, 98], [99]]" "replicate 6 0" 1 2 1 0
      "replicate 64 0" "0x64400000"]
  by (simp add: dns_demo_ok dns_demo_new label_ok_def lru_find_def dns_query_def wire_name_def dotted_def)

end
