(* ===== verification/Socks5Addr.thy ===== *)
theory Socks5Addr
  imports MappedDNS
begin

text \<open>
  The address structure of the SOCKS5 protocol and its conversions: \<^verbatim>\<open>HevSocks5Addr\<close> of
  \<^verbatim>\<open>src/core/src/hev-socks5-proto.h\<close>, the functions on it in
  \<^verbatim>\<open>src/core/src/hev-socks5-misc.c\<close>, and the conversions from and to lwIP addresses in
  \<^verbatim>\<open>src/misc/hev-utils.c\<close>.

  The packed structure is its 260 bytes, as the code sends and receives a prefix of them: the type
  at 0; for IPv4 the address at 1 and the port at 5, for IPv6 the address at 1 and the port at 17,
  for a name its length at 1 and its bytes, followed by the port, from 2 on.  Name resolution
  (\<^verbatim>\<open>inet_pton\<close>, \<^verbatim>\<open>getaddrinfo\<close>) is a parameter.
\<close>

section \<open>Constants and structures\<close>

type_synonym socks5_addr = "byte list"

definition HEV_SOCKS5_ADDR_TYPE_IPV4 :: byte where "HEV_SOCKS5_ADDR_TYPE_IPV4 = 1"
definition HEV_SOCKS5_ADDR_TYPE_NAME :: byte where "HEV_SOCKS5_ADDR_TYPE_NAME = 3"
definition HEV_SOCKS5_ADDR_TYPE_IPV6 :: byte where "HEV_SOCKS5_ADDR_TYPE_IPV6 = 4"

lemmas addr_types = HEV_SOCKS5_ADDR_TYPE_IPV4_def HEV_SOCKS5_ADDR_TYPE_NAME_def
  HEV_SOCKS5_ADDR_TYPE_IPV6_def

definition ADDR_SIZE :: nat where "ADDR_SIZE = 260"

record sockaddr6 =
  sin6_port :: u16
  sin6_addr :: "byte list"

datatype addr_family = FAMILY_UNSPEC | FAMILY_IPV4 | FAMILY_IPV6

section \<open>Length and construction\<close>

definition hev_socks5_addr_len :: "socks5_addr \<Rightarrow> int" where
  "hev_socks5_addr_len a =
     (if a ! 0 = HEV_SOCKS5_ADDR_TYPE_IPV4 then 7
      else if a ! 0 = HEV_SOCKS5_ADDR_TYPE_IPV6 then 19
      else if a ! 0 = HEV_SOCKS5_ADDR_TYPE_NAME then 4 + uint (a ! 1)
      else - 1)"

text \<open>
  \<^verbatim>\<open>strlen\<close> of the copied name runs past a name of 256 bytes or more; \<^term>\<open>None\<close> when it
  leaves the structure.
\<close>

definition hev_socks5_addr_from_name :: "socks5_addr \<Rightarrow> cstring \<Rightarrow> u16 \<Rightarrow> (socks5_addr \<times> int) option" where
  "hev_socks5_addr_from_name a name port =
     (let a1 = a[0 := HEV_SOCKS5_ADDR_TYPE_NAME];
          a2 = take 2 a1 @ strncpy (drop 2 a1) name 256
      in if 0 \<notin> set (drop 2 a2) then None
         else let len = (of_nat (length (cstr (drop 2 a2))) :: byte);
                  a3 = a2[1 := len];
                  a4 = mem_put a3 (2 + unat len) (u16_mem port)
              in Some (a4, 4 + uint len))"

definition hev_socks5_addr_from_ipv4 :: "socks5_addr \<Rightarrow> byte list \<Rightarrow> u16 \<Rightarrow> socks5_addr \<times> int" where
  "hev_socks5_addr_from_ipv4 a ipv4 port =
     (let a1 = a[0 := HEV_SOCKS5_ADDR_TYPE_IPV4];
          a2 = mem_put a1 1 (take 4 ipv4)
      in (mem_put a2 5 (u16_mem port), 7))"

definition hev_socks5_addr_from_ipv6 :: "socks5_addr \<Rightarrow> byte list \<Rightarrow> u16 \<Rightarrow> socks5_addr \<times> int" where
  "hev_socks5_addr_from_ipv6 a ipv6 port =
     (let a1 = a[0 := HEV_SOCKS5_ADDR_TYPE_IPV6];
          a2 = mem_put a1 1 (take 16 ipv6)
      in (mem_put a2 17 (u16_mem port), 19))"

definition IN6_IS_ADDR_V4MAPPED :: "byte list \<Rightarrow> bool" where
  "IN6_IS_ADDR_V4MAPPED ip \<longleftrightarrow> take 12 ip = replicate 10 0 @ [0xff, 0xff]"

definition hev_socks5_addr_from_sockaddr6 :: "socks5_addr \<Rightarrow> sockaddr6 \<Rightarrow> socks5_addr \<times> int" where
  "hev_socks5_addr_from_sockaddr6 a saddr =
     (if IN6_IS_ADDR_V4MAPPED (sin6_addr saddr) then
        let a1 = a[0 := HEV_SOCKS5_ADDR_TYPE_IPV4];
            a2 = mem_put a1 5 (u16_mem (sin6_port saddr))
        in (mem_put a2 1 (mem_get (sin6_addr saddr) 12 4), 7)
      else
        let a1 = a[0 := HEV_SOCKS5_ADDR_TYPE_IPV6];
            a2 = mem_put a1 17 (u16_mem (sin6_port saddr))
        in (mem_put a2 1 (mem_get (sin6_addr saddr) 0 16), 19))"

section \<open>Resolution\<close>

text \<open>
  The resolver: \<^verbatim>\<open>inet_pton\<close> for the two families (\<^term>\<open>None\<close> when it returns 0) and
  \<^verbatim>\<open>getaddrinfo\<close> (\<^term>\<open>None\<close> for no result, else the first address).
\<close>

datatype gai_addr = GaiInet "byte list" | GaiInet6 "byte list" | GaiOther

record resolver =
  pton4 :: "cstring \<Rightarrow> byte list option"
  pton6 :: "cstring \<Rightarrow> byte list option"
  getaddrinfo :: "cstring \<Rightarrow> addr_family \<Rightarrow> gai_addr option"

definition v4mapped :: "byte list \<Rightarrow> byte list" where
  "v4mapped ip4 = replicate 10 0 @ [0xff, 0xff] @ ip4"

definition hev_socks5_ipv4_into_sockaddr6 :: "socks5_addr \<Rightarrow> sockaddr6" where
  "hev_socks5_ipv4_into_sockaddr6 a =
     \<lparr>sin6_port = mem_u16 (mem_get a 5 2), sin6_addr = v4mapped (mem_get a 1 4)\<rparr>"

definition hev_socks5_ipv6_into_sockaddr6 :: "socks5_addr \<Rightarrow> sockaddr6" where
  "hev_socks5_ipv6_into_sockaddr6 a =
     \<lparr>sin6_port = mem_u16 (mem_get a 17 2), sin6_addr = mem_get a 1 16\<rparr>"

definition hev_socks5_name_resolve_ipv4 :: "resolver \<Rightarrow> cstring \<Rightarrow> byte list option" where
  "hev_socks5_name_resolve_ipv4 r name = map_option v4mapped (pton4 r name)"

definition hev_socks5_name_resolve_ipv6 :: "resolver \<Rightarrow> cstring \<Rightarrow> byte list option" where
  "hev_socks5_name_resolve_ipv6 r name = pton6 r name"

definition hev_socks5_name_resolve_name ::
    "resolver \<Rightarrow> cstring \<Rightarrow> addr_family \<Rightarrow> (byte list \<times> addr_family) option" where
  "hev_socks5_name_resolve_name r name family =
     (case getaddrinfo r name family of
        None \<Rightarrow> None
      | Some (GaiInet ip) \<Rightarrow> Some (v4mapped ip, FAMILY_IPV4)
      | Some (GaiInet6 ip) \<Rightarrow> Some (ip, FAMILY_IPV6)
      | Some GaiOther \<Rightarrow> None)"

text \<open>\<^term>\<open>None\<close> is the result \<^verbatim>\<open>-1\<close>; the family is in and out.\<close>

definition hev_socks5_name_into_sockaddr6 ::
    "resolver \<Rightarrow> cstring \<Rightarrow> u16 \<Rightarrow> addr_family \<Rightarrow> (sockaddr6 \<times> addr_family) option" where
  "hev_socks5_name_into_sockaddr6 r name port family =
     (let sa = \<lambda>ip. \<lparr>sin6_port = htons port, sin6_addr = ip\<rparr> in
      case hev_socks5_name_resolve_ipv4 r name of
        Some ip \<Rightarrow> Some (sa ip, FAMILY_IPV4)
      | None \<Rightarrow>
          (case hev_socks5_name_resolve_ipv6 r name of
             Some ip \<Rightarrow> Some (sa ip, FAMILY_IPV6)
           | None \<Rightarrow> map_option (\<lambda>(ip, f). (sa ip, f)) (hev_socks5_name_resolve_name r name family)))"

definition hev_socks5_addr_into_sockaddr6 ::
    "resolver \<Rightarrow> socks5_addr \<Rightarrow> addr_family \<Rightarrow> (sockaddr6 \<times> addr_family) option" where
  "hev_socks5_addr_into_sockaddr6 r a family =
     (if a ! 0 = HEV_SOCKS5_ADDR_TYPE_IPV4 then Some (hev_socks5_ipv4_into_sockaddr6 a, FAMILY_IPV4)
      else if a ! 0 = HEV_SOCKS5_ADDR_TYPE_IPV6 then Some (hev_socks5_ipv6_into_sockaddr6 a, FAMILY_IPV6)
      else if a ! 0 = HEV_SOCKS5_ADDR_TYPE_NAME then
        let len = unat (a ! 1);
            name = cstr (mem_get a 2 len);
            port = mem_u16 (mem_get a (2 + len) 2)
        in hev_socks5_name_into_sockaddr6 r name (ntohs port) family
      else None)"

section \<open>lwIP addresses\<close>

datatype ip_type = IPADDR_TYPE_V4 | IPADDR_TYPE_V6 | IPADDR_TYPE_ANY

text \<open>An \<^verbatim>\<open>ip_addr_t\<close>: the address bytes in network order, of which IPv4 uses the first four.\<close>

record ip_addr =
  ip_type :: ip_type
  ip_bytes :: "byte list"

definition ip4_host :: "byte list \<Rightarrow> u32" where
  "ip4_host b = push_bit 24 (ucast (b ! 0)) OR push_bit 16 (ucast (b ! 1)) OR
     push_bit 8 (ucast (b ! 2)) OR ucast (b ! 3)"

text \<open>The mapped DNS is the singleton, if there is one; \<^verbatim>\<open>port\<close> is in host order.\<close>

definition hev_socks5_addr_from_lwip ::
    "mapped_dns option \<Rightarrow> socks5_addr \<Rightarrow> ip_addr \<Rightarrow> u16 \<Rightarrow> (mapped_dns option \<times> socks5_addr \<times> int) option" where
  "hev_socks5_addr_from_lwip dns a ip port =
     (case ip_type ip of
        IPADDR_TYPE_V4 \<Rightarrow> do {
          (dns1, name) \<leftarrow>
            (case dns of
               None \<Rightarrow> Some (None, None)
             | Some d \<Rightarrow> do {
                 (d1, name) \<leftarrow> hev_mapped_dns_lookup d (ip4_host (ip_bytes ip));
                 Some (Some d1, name)
               });
          (case name of
             Some nm \<Rightarrow> do {
               (a1, _) \<leftarrow> hev_socks5_addr_from_name a nm (htons port);
               Some (dns1, a1, 0)
             }
           | None \<Rightarrow> Some (dns1, fst (hev_socks5_addr_from_ipv4 a (ip_bytes ip) (htons port)), 0))
        }
      | IPADDR_TYPE_V6 \<Rightarrow>
          Some (dns, fst (hev_socks5_addr_from_ipv6 a (ip_bytes ip) (htons port)), 0)
      | IPADDR_TYPE_ANY \<Rightarrow> Some (dns, a, - 1))"

definition hev_socks5_addr_into_lwip :: "socks5_addr \<Rightarrow> ip_addr \<Rightarrow> (ip_addr \<times> u16) option" where
  "hev_socks5_addr_into_lwip a ip =
     (if a ! 0 = HEV_SOCKS5_ADDR_TYPE_IPV4
      then Some (ip\<lparr>ip_bytes := mem_put (ip_bytes ip) 0 (mem_get a 1 4), ip_type := IPADDR_TYPE_V4\<rparr>,
                 ntohs (mem_u16 (mem_get a 5 2)))
      else if a ! 0 = HEV_SOCKS5_ADDR_TYPE_IPV6
      then Some (ip\<lparr>ip_bytes := mem_put (ip_bytes ip) 0 (mem_get a 1 16), ip_type := IPADDR_TYPE_V6\<rparr>,
                 ntohs (mem_u16 (mem_get a 17 2)))
      else None)"

section \<open>What a structure denotes\<close>

text \<open>An endpoint, and the bytes that stand for it on the wire (RFC 1928, section 5).\<close>

datatype endpoint = EpV4 "byte list" u16 | EpV6 "byte list" u16 | EpName cstring u16

fun addr_wire :: "endpoint \<Rightarrow> byte list" where
  "addr_wire (EpV4 ip p) = 1 # ip @ [byte_hi p, byte_lo p]"
| "addr_wire (EpV6 ip p) = 4 # ip @ [byte_hi p, byte_lo p]"
| "addr_wire (EpName n p) = 3 # of_nat (length n) # n @ [byte_hi p, byte_lo p]"

fun ep_ok :: "endpoint \<Rightarrow> bool" where
  "ep_ok (EpV4 ip p) \<longleftrightarrow> length ip = 4"
| "ep_ok (EpV6 ip p) \<longleftrightarrow> length ip = 16"
| "ep_ok (EpName n p) \<longleftrightarrow> length n \<le> 255"

definition addr_is :: "socks5_addr \<Rightarrow> endpoint \<Rightarrow> bool" where
  "addr_is a e \<longleftrightarrow> length a = ADDR_SIZE \<and> ep_ok e \<and> take (length (addr_wire e)) a = addr_wire e"

lemma addr_isE:
  assumes "addr_is a e"
  obtains rest where "a = addr_wire e @ rest" "length (addr_wire e) + length rest = ADDR_SIZE" "ep_ok e"
proof -
  have t: "take (length (addr_wire e)) a = addr_wire e" and l: "length a = ADDR_SIZE" and o: "ep_ok e"
    using assms by (auto simp: addr_is_def)
  have a: "a = addr_wire e @ drop (length (addr_wire e)) a"
    using append_take_drop_id [of "length (addr_wire e)" a] t by simp
  have "length (addr_wire e) \<le> length a" using arg_cong [OF t, of length] by simp
  then show thesis using that [OF a _ o] l by simp
qed

lemma addr_isI:
  "a = addr_wire e @ rest \<Longrightarrow> length (addr_wire e) + length rest = ADDR_SIZE \<Longrightarrow> ep_ok e \<Longrightarrow> addr_is a e"
  by (auto simp: addr_is_def)

lemma addr_len_wire:
  assumes "addr_is a e"
  shows "hev_socks5_addr_len a = int (length (addr_wire e))"
proof -
  obtain rest where a: "a = addr_wire e @ rest" and o: "ep_ok e" using assms by (rule addr_isE)
  show ?thesis
    using o by (cases e) (simp_all add: a hev_socks5_addr_len_def addr_types unsigned_of_nat take_bit_nat_eq_self)
qed

lemma mem_put_1: "mem_put (x # xs) (Suc n) v = x # mem_put xs n v"
  by (simp add: mem_put_def)

lemma from_ipv4_is:
  assumes "length a = ADDR_SIZE" "4 \<le> length ip"
  shows "addr_is (fst (hev_socks5_addr_from_ipv4 a ip (htons p))) (EpV4 (take 4 ip) p)"
proof (rule addr_isI)
  show "fst (hev_socks5_addr_from_ipv4 a ip (htons p)) = addr_wire (EpV4 (take 4 ip) p) @ drop 7 a"
    using assms by (cases a) (simp_all add: hev_socks5_addr_from_ipv4_def mem_put_def u16_mem_htons
        addr_types ADDR_SIZE_def)
qed (use assms in \<open>simp_all add: ADDR_SIZE_def\<close>)

lemma from_ipv6_is:
  assumes "length a = ADDR_SIZE" "16 \<le> length ip"
  shows "addr_is (fst (hev_socks5_addr_from_ipv6 a ip (htons p))) (EpV6 (take 16 ip) p)"
proof (rule addr_isI)
  show "fst (hev_socks5_addr_from_ipv6 a ip (htons p)) = addr_wire (EpV6 (take 16 ip) p) @ drop 19 a"
    using assms by (cases a) (simp_all add: hev_socks5_addr_from_ipv6_def mem_put_def u16_mem_htons
        addr_types ADDR_SIZE_def)
qed (use assms in \<open>simp_all add: ADDR_SIZE_def\<close>)

lemma from_name_is:
  assumes a: "length a = ADDR_SIZE" and n: "0 \<notin> set n" "length n \<le> 255"
  shows "\<exists>a'. hev_socks5_addr_from_name a n (htons p) = Some (a', 4 + int (length n)) \<and>
    addr_is a' (EpName n p)"
proof -
  obtain x y r where r: "a = x # y # r" "length r = 258"
    using a by (cases a; cases "tl a") (auto simp: ADDR_SIZE_def)
  have pad: "strncpy r n 256 = n @ 0 # replicate (255 - length n) 0 @ drop 256 r"
  proof -
    have "256 - length n = Suc (255 - length n)" using n(2) by simp
    then show ?thesis using n(2) by (simp add: strncpy_def)
  qed
  have len: "unat (of_nat (length n) :: byte) = length n" "uint (of_nat (length n) :: byte) = int (length n)"
    using n(2) by (simp_all add: unat_of_nat unsigned_of_nat take_bit_nat_eq_self)
  have z: "0 \<in> set (strncpy r n 256)" "cstr (strncpy r n 256) = n"
    using n cstr_strncpy [of n 256 r] by (simp_all add: pad)
  have a2: "take 2 (a[0 := HEV_SOCKS5_ADDR_TYPE_NAME]) @ strncpy (drop 2 (a[0 := HEV_SOCKS5_ADDR_TYPE_NAME])) n 256
      = 3 # y # strncpy r n 256"
    by (simp add: r addr_types)
  have "hev_socks5_addr_from_name a n (htons p) =
      Some (mem_put (3 # of_nat (length n) # strncpy r n 256) (2 + length n) (u16_mem (htons p)), 4 + int (length n))"
    unfolding hev_socks5_addr_from_name_def Let_def a2 using z len by simp
  moreover have "mem_put (3 # of_nat (length n) # strncpy r n 256) (2 + length n) (u16_mem (htons p)) =
      addr_wire (EpName n p) @ drop (length n + 2) (strncpy r n 256)"
    by (simp add: mem_put_def pad u16_mem_htons)
  moreover have "length (strncpy r n 256) = 258" using r(2) by simp
  ultimately show ?thesis
    using n(2) by (auto intro!: addr_isI simp: ADDR_SIZE_def)
qed

lemma u16_mem_split: "u16_mem w = [byte_lo w, byte_hi w]"
  by (simp add: u16_mem_def)

lemma from_sockaddr6_v4:
  assumes "length a = ADDR_SIZE" "length ip4 = 4"
  shows "hev_socks5_addr_from_sockaddr6 a \<lparr>sin6_port = q, sin6_addr = v4mapped ip4\<rparr> =
    (1 # ip4 @ u16_mem q @ drop 7 a, 7)"
  using assms by (cases a) (simp_all add: hev_socks5_addr_from_sockaddr6_def IN6_IS_ADDR_V4MAPPED_def
      v4mapped_def mem_put_def mem_get_def addr_types ADDR_SIZE_def u16_mem_split)

lemma from_sockaddr6_v6:
  assumes "length a = ADDR_SIZE" "length ip = 16" "\<not> IN6_IS_ADDR_V4MAPPED ip"
  shows "hev_socks5_addr_from_sockaddr6 a \<lparr>sin6_port = q, sin6_addr = ip\<rparr> =
    (4 # ip @ u16_mem q @ drop 19 a, 19)"
  using assms by (cases a) (simp_all add: hev_socks5_addr_from_sockaddr6_def
      mem_put_def mem_get_def addr_types ADDR_SIZE_def u16_mem_split)

lemma v4mapped_split:
  assumes "length ip = 16" "IN6_IS_ADDR_V4MAPPED ip"
  shows "ip = v4mapped (drop 12 ip)"
proof -
  have "take 12 ip = replicate 10 0 @ [0xff, 0xff]" using assms(2) by (simp add: IN6_IS_ADDR_V4MAPPED_def)
  then have "ip = (replicate 10 0 @ [0xff, 0xff]) @ drop 12 ip"
    using append_take_drop_id [of 12 ip] by metis
  then show ?thesis by (simp add: v4mapped_def)
qed

section \<open>Properties\<close>

text \<open>
  converting a socket address into the SOCKS5 structure and back gives the same socket address,
  for IPv6 addresses and for IPv4-mapped ones, which travel as IPv4.
\<close>

theorem sockaddr6_roundtrip:
  assumes "length a = ADDR_SIZE" "length (sin6_addr sa) = 16"
  shows "\<exists>f. hev_socks5_addr_into_sockaddr6 r (fst (hev_socks5_addr_from_sockaddr6 a sa)) fam = Some (sa, f)"
proof -
  obtain q ip where sa: "sa = \<lparr>sin6_port = q, sin6_addr = ip\<rparr>" by (cases sa)
  show ?thesis
  proof (cases "IN6_IS_ADDR_V4MAPPED ip")
    case True
    define ip4 where "ip4 = drop 12 ip"
    have ip: "ip = v4mapped ip4" "length ip4 = 4"
      using v4mapped_split True assms(2) sa by (simp_all add: ip4_def)
    show ?thesis
      using from_sockaddr6_v4 [OF assms(1) ip(2), of q] ip sa
      by (simp add: hev_socks5_addr_into_sockaddr6_def hev_socks5_ipv4_into_sockaddr6_def addr_types mem_get_def)
  next
    case False
    show ?thesis
      using from_sockaddr6_v6 [OF assms(1) _ False, of q] assms(2) sa
      by (simp add: hev_socks5_addr_into_sockaddr6_def hev_socks5_ipv6_into_sockaddr6_def addr_types mem_get_def)
  qed
qed

definition no_resolver :: resolver where
  "no_resolver = \<lparr>pton4 = (\<lambda>_. None), pton6 = (\<lambda>_. None), getaddrinfo = (\<lambda>_ _. None)\<rparr>"

theorem sockaddr6_roundtrip_witness:
  "\<exists>f. hev_socks5_addr_into_sockaddr6 no_resolver
      (fst (hev_socks5_addr_from_sockaddr6 (replicate 260 0)
        \<lparr>sin6_port = 80, sin6_addr = v4mapped [10, 0, 0, 1]\<rparr>)) FAMILY_UNSPEC =
      Some (\<lparr>sin6_port = 80, sin6_addr = v4mapped [10, 0, 0, 1]\<rparr>, f)"
  using sockaddr6_roundtrip [of "replicate 260 0" "\<lparr>sin6_port = 80, sin6_addr = v4mapped [10, 0, 0, 1]\<rparr>"
      no_resolver FAMILY_UNSPEC]
  by (simp add: ADDR_SIZE_def v4mapped_def)

text \<open>
  the SOCKS5 structure made for a name of at most 255 bytes is the protocol's encoding of that
  name and port, its computed length is the length of the encoding, and nothing is written outside
  the structure.
\<close>

theorem hev_socks5_addr_from_name_encodes:
  assumes "length a = ADDR_SIZE" "0 \<notin> set n" "length n \<le> 255"
  shows "\<exists>a'. hev_socks5_addr_from_name a n (htons p) = Some (a', 4 + int (length n)) \<and>
    length a' = ADDR_SIZE \<and> hev_socks5_addr_len a' = 4 + int (length n) \<and>
    take (4 + length n) a' = [3, of_nat (length n)] @ n @ [byte_hi p, byte_lo p]"
proof -
  obtain a' where a': "hev_socks5_addr_from_name a n (htons p) = Some (a', 4 + int (length n))"
      "addr_is a' (EpName n p)"
    using from_name_is [OF assms] by blast
  then show ?thesis using addr_len_wire [OF a'(2)] by (simp add: addr_is_def numeral_eq_Suc)
qed

theorem hev_socks5_addr_from_name_encodes_witness:
  "\<exists>a'. hev_socks5_addr_from_name (replicate 260 0) [97, 98] (htons 80) = Some (a', 6) \<and>
    length a' = ADDR_SIZE \<and> hev_socks5_addr_len a' = 6 \<and> take 6 a' = [3, 2, 97, 98, 0, 80]"
  using hev_socks5_addr_from_name_encodes [of "replicate 260 0" "[97, 98]" 80]
  by (simp add: ADDR_SIZE_def byte_hi_def byte_lo_def)

text \<open>
  a name of 256 bytes does not fit the length byte: the function reports an encoding of length
  4, that of the empty name.  The mapped DNS stores such names.
\<close>

theorem hev_socks5_addr_from_name_wraps:
  assumes "length a = ADDR_SIZE" "0 \<notin> set n" "length n = 256" "a ! 258 = 0"
  shows "\<exists>a'. hev_socks5_addr_from_name a n p = Some (a', 4) \<and> a' ! 1 = 0"
proof -
  obtain x y r where r: "a = x # y # r" "length r = 258"
    using assms(1) by (cases a; cases "tl a") (auto simp: ADDR_SIZE_def)
  then have "r ! 256 = 0" using assms(4) by (simp add: eval_nat_numeral)
  then have d: "drop 256 r = 0 # drop 257 r"
    using r(2) Cons_nth_drop_Suc [of 256 r] by simp
  have s: "strncpy r n 256 = n @ 0 # drop 257 r" using assms(3) d by (simp add: strncpy_def)
  have a2: "take 2 (a[0 := HEV_SOCKS5_ADDR_TYPE_NAME]) @ strncpy (drop 2 (a[0 := HEV_SOCKS5_ADDR_TYPE_NAME])) n 256
      = 3 # y # n @ 0 # drop 257 r"
    by (simp add: r s addr_types)
  have "of_nat (length (cstr (n @ 0 # drop 257 r))) = (0 :: byte)"
    using assms(2,3) by (simp add: cstr_append_zero)
  then show ?thesis
    unfolding hev_socks5_addr_from_name_def Let_def a2 by (simp add: mem_put_def)
qed

theorem hev_socks5_addr_from_name_wraps_witness:
  "\<exists>a'. hev_socks5_addr_from_name (replicate 260 0) (replicate 256 97) 0 = Some (a', 4) \<and> a' ! 1 = 0"
  using hev_socks5_addr_from_name_wraps [of "replicate 260 0" "replicate 256 97" 0]
  by (simp add: ADDR_SIZE_def)

text \<open>
  without a mapped name, an lwIP address goes into the SOCKS5 structure and back unchanged, with
  its port and its type.
\<close>

theorem lwip_roundtrip:
  assumes "length a = ADDR_SIZE" "length (ip_bytes ip) = 16" "length (ip_bytes ip0) = 16"
    and "ip_type ip \<noteq> IPADDR_TYPE_ANY"
  shows "\<exists>a' ip'. hev_socks5_addr_from_lwip None a ip port = Some (None, a', 0)
    \<and> hev_socks5_addr_into_lwip a' ip0 = Some (ip', port) \<and> ip_type ip' = ip_type ip
    \<and> take (if ip_type ip = IPADDR_TYPE_V4 then 4 else 16) (ip_bytes ip') =
        take (if ip_type ip = IPADDR_TYPE_V4 then 4 else 16) (ip_bytes ip)"
proof (cases "ip_type ip")
  case IPADDR_TYPE_V4
  have "addr_is (fst (hev_socks5_addr_from_ipv4 a (ip_bytes ip) (htons port))) (EpV4 (take 4 (ip_bytes ip)) port)"
    by (rule from_ipv4_is) (use assms in simp_all)
  then obtain r where r: "fst (hev_socks5_addr_from_ipv4 a (ip_bytes ip) (htons port)) =
      addr_wire (EpV4 (take 4 (ip_bytes ip)) port) @ r" by (rule addr_isE)
  show ?thesis
    using IPADDR_TYPE_V4 assms(2,3)
    by (simp add: hev_socks5_addr_from_lwip_def r hev_socks5_addr_into_lwip_def addr_types mem_get_def mem_put_def
        mem_u16_def htons_mk)
next
  case IPADDR_TYPE_V6
  have "addr_is (fst (hev_socks5_addr_from_ipv6 a (ip_bytes ip) (htons port))) (EpV6 (take 16 (ip_bytes ip)) port)"
    by (rule from_ipv6_is) (use assms in simp_all)
  then obtain r where r: "fst (hev_socks5_addr_from_ipv6 a (ip_bytes ip) (htons port)) =
      addr_wire (EpV6 (take 16 (ip_bytes ip)) port) @ r" by (rule addr_isE)
  show ?thesis
    using IPADDR_TYPE_V6 assms(2,3)
    by (simp add: hev_socks5_addr_from_lwip_def r hev_socks5_addr_into_lwip_def addr_types mem_get_def mem_put_def
        mem_u16_def htons_mk)
next
  case IPADDR_TYPE_ANY
  then show ?thesis using assms(4) by simp
qed

theorem lwip_roundtrip_witness:
  "\<exists>a' ip'. hev_socks5_addr_from_lwip None (replicate 260 0)
      \<lparr>ip_type = IPADDR_TYPE_V4, ip_bytes = [1, 2, 3, 4] @ replicate 12 0\<rparr> 53 = Some (None, a', 0)
    \<and> hev_socks5_addr_into_lwip a' \<lparr>ip_type = IPADDR_TYPE_V6, ip_bytes = replicate 16 9\<rparr> = Some (ip', 53)
    \<and> ip_type ip' = IPADDR_TYPE_V4 \<and> take 4 (ip_bytes ip') = [1, 2, 3, 4]"
  using lwip_roundtrip [of "replicate 260 0" "\<lparr>ip_type = IPADDR_TYPE_V4, ip_bytes = [1, 2, 3, 4] @ replicate 12 0\<rparr>"
      "\<lparr>ip_type = IPADDR_TYPE_V6, ip_bytes = replicate 16 9\<rparr>" 53]
  by (simp add: ADDR_SIZE_def)

text \<open>
  C21: the mapped DNS looks at the host bits only, so an address outside the mapped network is taken
  for a mapped name just like the one inside: its connection goes to that name.
\<close>

theorem foreign_address_is_mapped:
  assumes "hev_mapped_dns_lookup dns ip = Some (dns', Some name)"
    and "ip4_host (ip_bytes other) AND NOT (dns_mask dns) = ip AND NOT (dns_mask dns)"
    and "ip_type other = IPADDR_TYPE_V4" "length a = ADDR_SIZE" "0 \<notin> set name" "length name \<le> 255"
  shows "\<exists>a'. hev_socks5_addr_from_lwip (Some dns) a other port = Some (Some dns', a', 0) \<and>
    addr_is a' (EpName name port)"
proof -
  have "hev_mapped_dns_lookup dns (ip4_host (ip_bytes other)) = Some (dns', Some name)"
    using assms(1,2) by (simp add: hev_mapped_dns_lookup_def)
  moreover obtain a' where "hev_socks5_addr_from_name a name (htons port) = Some (a', 4 + int (length name))"
      "addr_is a' (EpName name port)"
    using from_name_is [OF assms(4-6)] by blast
  ultimately show ?thesis using assms(3) by (simp add: hev_socks5_addr_from_lwip_def)
qed

theorem foreign_address_is_mapped_witness:
  "\<exists>dns dns' a'. hev_socks5_addr_from_lwip (Some dns) (replicate 260 0)
      \<lparr>ip_type = IPADDR_TYPE_V4, ip_bytes = [1, 0, 0, 0] @ replicate 12 0\<rparr> 53 = Some (Some dns', a', 0) \<and>
    addr_is a' (EpName [97] 53)"
proof -
  obtain d1 where d1: "dns_ok d1" "dns_lru d1 = [([97], 0)]" "dns_mask d1 = 0xFFC00000"
    using find_ok [of dns_demo "[97]" 7] by (auto simp: dns_demo_ok dns_demo_new lru_find_def)
  obtain d2 where "hev_mapped_dns_lookup d1 0x64400000 = Some (d2, Some [97])"
    using lookup_ok [OF d1(1), of "0x64400000"] d1(2,3) by (auto simp: lru_get_def)
  from foreign_address_is_mapped [OF this, of
      "\<lparr>ip_type = IPADDR_TYPE_V4, ip_bytes = [1, 0, 0, 0] @ replicate 12 0\<rparr>" "replicate 260 0" 53]
  show ?thesis using d1(3) by (auto simp: ADDR_SIZE_def ip4_host_def)
qed

end
