(* ===== verification/TaskIO.thy ===== *)
theory TaskIO
  imports Socks5Addr
begin

text \<open>
  The input and output calls of the task library
  (\<^verbatim>\<open>third-part/hev-task-system/src/lib/io/socket/hev-task-io-socket.c\<close>): every call retries a
  non-blocking system call and runs the caller's yielder while the call would block.

  The kernel is a record of scripts.  Per descriptor there is what arrives on a stream
  (\<^verbatim>\<open>os_rx\<close>), how much room the peer leaves (\<^verbatim>\<open>os_tx\<close>), the bytes sent so far (\<^verbatim>\<open>os_out\<close>) and the
  same for datagrams; for the whole process the results of the remaining resource calls in order
  (\<^verbatim>\<open>os_calls\<close>), the outcome of the connection attempts (\<^verbatim>\<open>os_conn\<close>), the peers
  connected to, the local addresses of the sockets, the waits of the task, the
  descriptors shut down for writing, the open descriptors, the socket options set, the number of live heap blocks and whether \<^verbatim>\<open>errno\<close> is \<^verbatim>\<open>EAGAIN\<close>.  An exhausted
  script means the call would block; \<^term>\<open>None\<close> is a task that waits forever.
\<close>

section \<open>The kernel\<close>

datatype yield_type = HEV_TASK_YIELD | HEV_TASK_WAITIO

text \<open>One wait: what \<^verbatim>\<open>hev_task_sleep\<close> returns, and whether the session was terminated meanwhile.\<close>

datatype wait = Wait (slept: int) (terminated: bool)

datatype rx_ev = RxData "byte list" | RxAgain | RxEof | RxErr
datatype tx_ev = TxRoom nat | TxAgain | TxErr
datatype conn_ev = ConnOk | ConnBusy | ConnIsConn | ConnFail
datatype drx_ev = DgData sockaddr6 "byte list" | DgAgain | DgErr
datatype sock_opt = IPV6_V6ONLY | SO_RCVBUF | SO_REUSEADDR | SO_MARK | TCP_FASTOPEN_CONNECT

record os =
  os_calls :: "int list"
  os_conn :: "conn_ev list"
  os_peer :: "int \<Rightarrow> sockaddr6 option"
  os_sockname :: "int \<Rightarrow> sockaddr6"
  os_waits :: "wait list"
  os_rx :: "int \<Rightarrow> rx_ev list"
  os_tx :: "int \<Rightarrow> tx_ev list"
  os_out :: "int \<Rightarrow> byte list"
  os_drx :: "int \<Rightarrow> drx_ev list"
  os_dtx :: "int \<Rightarrow> tx_ev list"
  os_dout :: "int \<Rightarrow> (sockaddr6 option \<times> byte list) list"
  os_shut :: "int list"
  os_open :: "int list"
  os_opts :: "(int \<times> sock_opt \<times> int) list"
  os_live :: nat
  os_again :: bool

definition os_idle :: os where
  "os_idle = \<lparr>os_calls = [], os_conn = [], os_peer = (\<lambda>_. None),
     os_sockname = (\<lambda>_. \<lparr>sin6_port = 0, sin6_addr = replicate 16 0\<rparr>), os_waits = [], os_rx = (\<lambda>_. []),
     os_tx = (\<lambda>_. []), os_out = (\<lambda>_. []), os_drx = (\<lambda>_. []), os_dtx = (\<lambda>_. []), os_dout = (\<lambda>_. []),
     os_shut = [], os_open = [], os_opts = [], os_live = 0, os_again = False\<rparr>"

type_synonym 's yielder = "yield_type \<Rightarrow> 's \<times> os \<Rightarrow> (('s \<times> os) \<times> int) option"

datatype 'r sysres = SysOk 'r | SysAgain | SysErr

text \<open>A resource call with an \<^verbatim>\<open>int\<close> result; once the script is exhausted it fails.\<close>

definition sys_call :: "os \<Rightarrow> os \<times> int" where
  "sys_call os = (case os_calls os of [] \<Rightarrow> (os, - 1) | r # rs \<Rightarrow> (os\<lparr>os_calls := rs\<rparr>, r))"

definition sys_socket :: "os \<Rightarrow> os \<times> int" where
  "sys_socket os = (let (os1, fd) = sys_call os in
     (if fd < 0 then os1 else os1\<lparr>os_open := fd # os_open os1\<rparr>, fd))"

definition sys_setsockopt :: "int \<Rightarrow> sock_opt \<Rightarrow> int \<Rightarrow> os \<Rightarrow> os \<times> int" where
  "sys_setsockopt fd opt v os = (let (os1, r) = sys_call os in
     (if r < 0 then os1 else os1\<lparr>os_opts := os_opts os1 @ [(fd, opt, v)]\<rparr>, r))"

definition sys_close :: "int \<Rightarrow> os \<Rightarrow> os" where
  "sys_close fd os = os\<lparr>os_open := remove1 fd (os_open os)\<rparr>"

text \<open>\<^verbatim>\<open>malloc\<close> and \<^verbatim>\<open>free\<close>: a negative call result is a failed allocation.\<close>

definition sys_malloc :: "os \<Rightarrow> os \<times> bool" where
  "sys_malloc os = (let (os1, r) = sys_call os in
     if r < 0 then (os1, False) else (os1\<lparr>os_live := os_live os1 + 1\<rparr>, True))"

definition sys_free :: "os \<Rightarrow> os" where
  "sys_free os = os\<lparr>os_live := os_live os - 1\<rparr>"

definition sys_recv :: "int \<Rightarrow> nat \<Rightarrow> os \<Rightarrow> os \<times> byte list sysres" where
  "sys_recv fd n os =
     (case os_rx os fd of
        [] \<Rightarrow> (os\<lparr>os_again := True\<rparr>, SysAgain)
      | RxData bs # r \<Rightarrow>
          (if length bs \<le> n then (os\<lparr>os_rx := (os_rx os)(fd := r)\<rparr>, SysOk bs)
           else (os\<lparr>os_rx := (os_rx os)(fd := RxData (drop n bs) # r)\<rparr>, SysOk (take n bs)))
      | RxAgain # r \<Rightarrow> (os\<lparr>os_rx := (os_rx os)(fd := r), os_again := True\<rparr>, SysAgain)
      | RxEof # r \<Rightarrow> (os, SysOk [])
      | RxErr # r \<Rightarrow> (os\<lparr>os_rx := (os_rx os)(fd := r), os_again := False\<rparr>, SysErr))"

definition sys_send :: "int \<Rightarrow> byte list \<Rightarrow> os \<Rightarrow> os \<times> nat sysres" where
  "sys_send fd bs os =
     (case os_tx os fd of
        [] \<Rightarrow> (os\<lparr>os_again := True\<rparr>, SysAgain)
      | TxRoom k # r \<Rightarrow>
          let n = min k (length bs) in
          (os\<lparr>os_tx := (os_tx os)(fd := if n < k then TxRoom (k - n) # r else r),
              os_out := (os_out os)(fd := os_out os fd @ take n bs)\<rparr>, SysOk n)
      | TxAgain # r \<Rightarrow> (os\<lparr>os_tx := (os_tx os)(fd := r), os_again := True\<rparr>, SysAgain)
      | TxErr # r \<Rightarrow> (os\<lparr>os_tx := (os_tx os)(fd := r), os_again := False\<rparr>, SysErr))"

definition sys_shutdown :: "int \<Rightarrow> os \<Rightarrow> os" where
  "sys_shutdown fd os = os\<lparr>os_shut := os_shut os @ [fd]\<rparr>"

text \<open>
  How the two-way relays yield after a round with these results of the two directions; \<^term>\<open>None\<close> ends
  the relay.
\<close>

definition yield_choice :: "int \<Rightarrow> int \<Rightarrow> yield_type option" where
  "yield_choice res_f res_b =
     (if res_f > 0 \<or> res_b > 0 then Some HEV_TASK_YIELD
      else if and res_f res_b = 0 then Some HEV_TASK_WAITIO else None)"

section \<open>Streams\<close>

partial_function (option) recv_loop ::
    "'s yielder \<Rightarrow> int \<Rightarrow> nat \<Rightarrow> bool \<Rightarrow> bool \<Rightarrow> 's \<times> os \<Rightarrow> byte list \<Rightarrow>
     (('s \<times> os) \<times> byte list \<times> int) option" where
  "recv_loop yielder fd len waitall dontwait st acc =
     (let (os1, r) = sys_recv fd (len - length acc) (snd st) in
      case r of
        SysAgain \<Rightarrow>
          if dontwait
          then Some ((fst st, os1), acc, if waitall \<and> acc \<noteq> [] then int (length acc) else - 1)
          else Option.bind (yielder HEV_TASK_WAITIO (fst st, os1)) (\<lambda>(st2, y).
            if y \<noteq> 0 then Some (st2, acc, if acc \<noteq> [] then int (length acc) else - 2)
            else recv_loop yielder fd len waitall dontwait st2 acc)
      | SysErr \<Rightarrow>
          Some ((fst st, os1), acc, if waitall \<and> acc \<noteq> [] then int (length acc) else - 1)
      | SysOk bs \<Rightarrow>
          if \<not> waitall then Some ((fst st, os1), bs, int (length bs))
          else if bs = [] then Some ((fst st, os1), acc, int (length acc))
          else if length (acc @ bs) < len
          then recv_loop yielder fd len waitall dontwait (fst st, os1) (acc @ bs)
          else Some ((fst st, os1), acc @ bs, int (length (acc @ bs))))"

definition hev_task_io_socket_recv ::
    "'s yielder \<Rightarrow> int \<Rightarrow> nat \<Rightarrow> bool \<Rightarrow> bool \<Rightarrow> 's \<times> os \<Rightarrow> (('s \<times> os) \<times> byte list \<times> int) option" where
  "hev_task_io_socket_recv yielder fd len waitall dontwait st =
     recv_loop yielder fd len waitall dontwait st []"

text \<open>The calls that send wait for all of the data: every caller passes \<^verbatim>\<open>MSG_WAITALL\<close>.\<close>

partial_function (option) send_loop ::
    "'s yielder \<Rightarrow> int \<Rightarrow> byte list \<Rightarrow> 's \<times> os \<Rightarrow> nat \<Rightarrow> (('s \<times> os) \<times> int) option" where
  "send_loop yielder fd buf st sz =
     (let (os1, r) = sys_send fd (drop sz buf) (snd st) in
      case r of
        SysAgain \<Rightarrow>
          Option.bind (yielder HEV_TASK_WAITIO (fst st, os1)) (\<lambda>(st2, y).
            if y \<noteq> 0 then Some (st2, if sz \<noteq> 0 then int sz else - 2)
            else send_loop yielder fd buf st2 sz)
      | SysErr \<Rightarrow> Some ((fst st, os1), if sz \<noteq> 0 then int sz else - 1)
      | SysOk s \<Rightarrow>
          if s = 0 then Some ((fst st, os1), int sz)
          else if sz + s < length buf then send_loop yielder fd buf (fst st, os1) (sz + s)
          else Some ((fst st, os1), int (sz + s)))"

definition hev_task_io_socket_send ::
    "'s yielder \<Rightarrow> int \<Rightarrow> byte list \<Rightarrow> 's \<times> os \<Rightarrow> (('s \<times> os) \<times> int) option" where
  "hev_task_io_socket_send yielder fd buf st = send_loop yielder fd buf st 0"

text \<open>The loop of \<^verbatim>\<open>hev_task_io_socket_sendmsg\<close> that steps over what is sent.\<close>

fun iov_advance :: "nat \<Rightarrow> byte list list \<Rightarrow> byte list list" where
  "iov_advance s [] = []"
| "iov_advance s (b # iov) = (if s < length b then drop s b # iov else iov_advance (s - length b) iov)"

partial_function (option) sendmsg_loop ::
    "'s yielder \<Rightarrow> int \<Rightarrow> nat \<Rightarrow> byte list list \<Rightarrow> 's \<times> os \<Rightarrow> nat \<Rightarrow> (('s \<times> os) \<times> int) option" where
  "sendmsg_loop yielder fd len iov st sz =
     (let (os1, r) = sys_send fd (concat iov) (snd st) in
      case r of
        SysAgain \<Rightarrow>
          Option.bind (yielder HEV_TASK_WAITIO (fst st, os1)) (\<lambda>(st2, y).
            if y \<noteq> 0 then Some (st2, if sz \<noteq> 0 then int sz else - 2)
            else sendmsg_loop yielder fd len iov st2 sz)
      | SysErr \<Rightarrow> Some ((fst st, os1), if sz \<noteq> 0 then int sz else - 1)
      | SysOk s \<Rightarrow>
          if s = 0 then Some ((fst st, os1), int sz)
          else if sz + s < len
          then sendmsg_loop yielder fd len (iov_advance s iov) (fst st, os1) (sz + s)
          else Some ((fst st, os1), int (sz + s)))"

definition hev_task_io_socket_sendmsg ::
    "'s yielder \<Rightarrow> int \<Rightarrow> byte list list \<Rightarrow> 's \<times> os \<Rightarrow> (('s \<times> os) \<times> int) option" where
  "hev_task_io_socket_sendmsg yielder fd iov st =
     sendmsg_loop yielder fd (sum_list (map length iov)) iov st 0"

text \<open>
  \<^verbatim>\<open>hev_task_io_socket_recvmsg\<close> fills several buffers, given by their lengths; the bytes are
  returned in one list, \<^term>\<open>scatter\<close> cuts it along the buffers.
\<close>

fun lens_advance :: "nat \<Rightarrow> nat list \<Rightarrow> nat list" where
  "lens_advance s [] = []"
| "lens_advance s (n # lens) = (if s < n then (n - s) # lens else lens_advance (s - n) lens)"

partial_function (option) recvmsg_loop ::
    "'s yielder \<Rightarrow> int \<Rightarrow> nat \<Rightarrow> nat list \<Rightarrow> 's \<times> os \<Rightarrow> byte list \<Rightarrow>
     (('s \<times> os) \<times> byte list \<times> int) option" where
  "recvmsg_loop yielder fd len lens st acc =
     (let (os1, r) = sys_recv fd (sum_list lens) (snd st) in
      case r of
        SysAgain \<Rightarrow>
          Option.bind (yielder HEV_TASK_WAITIO (fst st, os1)) (\<lambda>(st2, y).
            if y \<noteq> 0 then Some (st2, acc, if acc \<noteq> [] then int (length acc) else - 2)
            else recvmsg_loop yielder fd len lens st2 acc)
      | SysErr \<Rightarrow> Some ((fst st, os1), acc, if acc \<noteq> [] then int (length acc) else - 1)
      | SysOk bs \<Rightarrow>
          if bs = [] then Some ((fst st, os1), acc, int (length acc))
          else if length (acc @ bs) < len
          then recvmsg_loop yielder fd len (lens_advance (length bs) lens) (fst st, os1) (acc @ bs)
          else Some ((fst st, os1), acc @ bs, int (length (acc @ bs))))"

definition hev_task_io_socket_recvmsg ::
    "'s yielder \<Rightarrow> int \<Rightarrow> nat list \<Rightarrow> 's \<times> os \<Rightarrow> (('s \<times> os) \<times> byte list \<times> int) option" where
  "hev_task_io_socket_recvmsg yielder fd lens st = recvmsg_loop yielder fd (sum_list lens) lens st []"

fun scatter :: "nat list \<Rightarrow> byte list \<Rightarrow> byte list list" where
  "scatter [] bs = []"
| "scatter (n # lens) bs = take n bs # scatter lens (drop n bs)"

section \<open>Connections\<close>

definition sys_connect :: "os \<Rightarrow> os \<times> conn_ev" where
  "sys_connect os =
     (case os_conn os of [] \<Rightarrow> (os, ConnBusy) | c # cs \<Rightarrow> (os\<lparr>os_conn := cs\<rparr>, c))"

partial_function (option) hev_task_io_socket_connect ::
    "'s yielder \<Rightarrow> int \<Rightarrow> sockaddr6 \<Rightarrow> 's \<times> os \<Rightarrow> (('s \<times> os) \<times> int) option" where
  "hev_task_io_socket_connect yielder fd addr st =
     (let (os1, c) = sys_connect (snd st); os2 = os1\<lparr>os_peer := (os_peer os1)(fd \<mapsto> addr)\<rparr> in
      case c of
        ConnOk \<Rightarrow> Some ((fst st, os2), 0)
      | ConnIsConn \<Rightarrow> Some ((fst st, os2), 0)
      | ConnFail \<Rightarrow> Some ((fst st, os1), - 1)
      | ConnBusy \<Rightarrow>
          Option.bind (yielder HEV_TASK_WAITIO (fst st, os1)) (\<lambda>(st2, y).
            if y \<noteq> 0 then Some (st2, - 2) else hev_task_io_socket_connect yielder fd addr st2))"

section \<open>Datagrams\<close>

fun take_dgrams :: "nat list \<Rightarrow> drx_ev list \<Rightarrow> (sockaddr6 \<times> byte list) list \<times> drx_ev list" where
  "take_dgrams (n # lens) (DgData a bs # r) =
     (let (ms, r') = take_dgrams lens r in ((a, take n bs) # ms, r'))"
| "take_dgrams lens r = ([], r)"

definition sys_recvmmsg :: "int \<Rightarrow> nat list \<Rightarrow> os \<Rightarrow> os \<times> (sockaddr6 \<times> byte list) list sysres" where
  "sys_recvmmsg fd lens os =
     (if lens = [] then (os, SysOk []) else
      case os_drx os fd of
        [] \<Rightarrow> (os\<lparr>os_again := True\<rparr>, SysAgain)
      | DgAgain # r \<Rightarrow> (os\<lparr>os_drx := (os_drx os)(fd := r), os_again := True\<rparr>, SysAgain)
      | DgErr # r \<Rightarrow> (os\<lparr>os_drx := (os_drx os)(fd := r), os_again := False\<rparr>, SysErr)
      | DgData _ _ # _ \<Rightarrow>
          let (ms, r) = take_dgrams lens (os_drx os fd)
          in (os\<lparr>os_drx := (os_drx os)(fd := r)\<rparr>, SysOk ms))"

definition sys_sendmmsg ::
    "int \<Rightarrow> (sockaddr6 option \<times> byte list) list \<Rightarrow> os \<Rightarrow> os \<times> nat sysres" where
  "sys_sendmmsg fd ms os =
     (case os_dtx os fd of
        [] \<Rightarrow> (os\<lparr>os_again := True\<rparr>, SysAgain)
      | TxRoom k # r \<Rightarrow>
          let n = min k (length ms) in
          (os\<lparr>os_dtx := (os_dtx os)(fd := if n < k then TxRoom (k - n) # r else r),
              os_dout := (os_dout os)(fd := os_dout os fd @ take n ms)\<rparr>, SysOk n)
      | TxAgain # r \<Rightarrow> (os\<lparr>os_dtx := (os_dtx os)(fd := r), os_again := True\<rparr>, SysAgain)
      | TxErr # r \<Rightarrow> (os\<lparr>os_dtx := (os_dtx os)(fd := r), os_again := False\<rparr>, SysErr))"

text \<open>No caller of \<^verbatim>\<open>recvmmsg\<close> asks for all of the messages, every caller of \<^verbatim>\<open>sendmmsg\<close> does.\<close>

partial_function (option) hev_task_io_socket_recvmmsg ::
    "'s yielder \<Rightarrow> int \<Rightarrow> nat list \<Rightarrow> bool \<Rightarrow> 's \<times> os \<Rightarrow>
     (('s \<times> os) \<times> (sockaddr6 \<times> byte list) list \<times> int) option" where
  "hev_task_io_socket_recvmmsg yielder fd lens dontwait st =
     (let (os1, r) = sys_recvmmsg fd lens (snd st) in
      case r of
        SysAgain \<Rightarrow>
          if dontwait then Some ((fst st, os1), [], - 1)
          else Option.bind (yielder HEV_TASK_WAITIO (fst st, os1)) (\<lambda>(st2, y).
            if y \<noteq> 0 then Some (st2, [], - 2)
            else hev_task_io_socket_recvmmsg yielder fd lens dontwait st2)
      | SysErr \<Rightarrow> Some ((fst st, os1), [], - 1)
      | SysOk ms \<Rightarrow> Some ((fst st, os1), ms, int (length ms)))"

partial_function (option) sendmmsg_loop ::
    "'s yielder \<Rightarrow> int \<Rightarrow> (sockaddr6 option \<times> byte list) list \<Rightarrow> 's \<times> os \<Rightarrow> nat \<Rightarrow> (('s \<times> os) \<times> int) option" where
  "sendmmsg_loop yielder fd ms st c =
     (let (os1, r) = sys_sendmmsg fd (drop c ms) (snd st) in
      case r of
        SysAgain \<Rightarrow>
          Option.bind (yielder HEV_TASK_WAITIO (fst st, os1)) (\<lambda>(st2, y).
            if y \<noteq> 0 then Some (st2, if c \<noteq> 0 then int c else - 2)
            else sendmmsg_loop yielder fd ms st2 c)
      | SysErr \<Rightarrow> Some ((fst st, os1), if c \<noteq> 0 then int c else - 1)
      | SysOk k \<Rightarrow>
          if k = 0 then Some ((fst st, os1), int c)
          else if c + k < length ms then sendmmsg_loop yielder fd ms (fst st, os1) (c + k)
          else Some ((fst st, os1), int (c + k)))"

definition hev_task_io_socket_sendmmsg ::
    "'s yielder \<Rightarrow> int \<Rightarrow> (sockaddr6 option \<times> byte list) list \<Rightarrow> 's \<times> os \<Rightarrow> (('s \<times> os) \<times> int) option" where
  "hev_task_io_socket_sendmmsg yielder fd ms st = sendmmsg_loop yielder fd ms st 0"

declare recv_loop.simps [code] send_loop.simps [code] sendmsg_loop.simps [code] recvmsg_loop.simps [code]
  hev_task_io_socket_connect.simps [code] hev_task_io_socket_recvmmsg.simps [code] sendmmsg_loop.simps [code]

section \<open>The system calls\<close>

text \<open>The bytes a script still delivers.\<close>

fun rx_bytes :: "rx_ev list \<Rightarrow> byte list" where
  "rx_bytes [] = []"
| "rx_bytes (RxData bs # r) = bs @ rx_bytes r"
| "rx_bytes (RxAgain # r) = rx_bytes r"
| "rx_bytes (RxEof # r) = rx_bytes r"
| "rx_bytes (RxErr # r) = rx_bytes r"

text \<open>No resource is taken or given back.\<close>

definition io_only :: "os \<Rightarrow> os \<Rightarrow> bool" where
  "io_only a b \<longleftrightarrow> os_calls b = os_calls a \<and> os_conn b = os_conn a \<and> os_open b = os_open a \<and>
     os_opts b = os_opts a \<and> os_live b = os_live a \<and> os_peer b = os_peer a"

lemma io_only_refl [simp]: "io_only a a"
  by (simp add: io_only_def)

lemma io_only_trans [trans]: "io_only a b \<Longrightarrow> io_only b c \<Longrightarrow> io_only a c"
  by (simp add: io_only_def)

lemma io_onlyD:
  assumes "io_only a b"
  shows "os_calls b = os_calls a" "os_conn b = os_conn a" "os_open b = os_open a"
    "os_opts b = os_opts a" "os_live b = os_live a" "os_peer b = os_peer a"
  using assms by (auto simp: io_only_def)

lemma sys_recv_io:
  assumes "sys_recv fd n a = (b, r)"
  shows "io_only a b" "os_out b = os_out a" "os_tx b = os_tx a" "os_waits b = os_waits a"
    "length (os_rx b fd) \<le> length (os_rx a fd)"
  using assms
  by (auto simp: sys_recv_def io_only_def split: list.splits rx_ev.splits if_splits)

lemma sys_recv_bytes:
  assumes "sys_recv fd n a = (b, r)"
  shows "rx_bytes (os_rx a fd) = (case r of SysOk bs \<Rightarrow> bs | _ \<Rightarrow> []) @ rx_bytes (os_rx b fd)"
  using assms by (auto simp: sys_recv_def split: list.splits rx_ev.splits if_splits)

lemma sys_recv_ok:
  assumes "sys_recv fd n a = (b, SysOk bs)"
  shows "length bs \<le> n" "bs \<noteq> [] \<Longrightarrow> length bs < n \<Longrightarrow> length (os_rx b fd) < length (os_rx a fd)"
  using assms by (auto simp: sys_recv_def split: list.splits rx_ev.splits if_splits)

lemma sys_send_io:
  assumes "sys_send fd bs a = (b, r)"
  shows "io_only a b" "os_rx b = os_rx a" "os_waits b = os_waits a"
    "length (os_tx b fd) \<le> length (os_tx a fd)"
  using assms
  by (auto simp: sys_send_def io_only_def Let_def split: list.splits tx_ev.splits if_splits)

lemma sys_send_out:
  assumes "sys_send fd bs a = (b, r)"
  shows "os_out b = (os_out a)(fd := os_out a fd @ (case r of SysOk n \<Rightarrow> take n bs | _ \<Rightarrow> []))"
  using assms by (auto simp: sys_send_def Let_def split: list.splits tx_ev.splits if_splits)

lemma sys_send_ok:
  assumes "sys_send fd bs a = (b, SysOk n)"
  shows "n \<le> length bs" "n < length bs \<Longrightarrow> length (os_tx b fd) < length (os_tx a fd)"
  using assms by (auto simp: sys_send_def Let_def split: list.splits tx_ev.splits if_splits)

lemma concat_iov_advance [simp]: "concat (iov_advance s iov) = drop s (concat iov)"
  by (induction s iov rule: iov_advance.induct) (auto simp: drop_append)

lemma sendmsg_loop_send:
  "sendmsg_loop yld fd len iov st sz = Some res \<Longrightarrow>
   len = length buf \<longrightarrow> concat iov = drop sz buf \<longrightarrow> send_loop yld fd buf st sz = Some res"
  apply (erule sendmsg_loop.raw_induct [where P = "\<lambda>yld fd len iov st sz res.
      len = length buf \<longrightarrow> concat iov = drop sz buf \<longrightarrow> send_loop yld fd buf st sz = Some res", rotated])
  apply (intro impI)
  apply (subst send_loop.simps)
  apply (auto simp: Let_def add.commute split: sysres.splits if_splits prod.splits bind_splits)
  done

lemma send_loop_sendmsg:
  "send_loop yld fd buf st sz = Some res \<Longrightarrow>
   \<forall>iov. concat iov = drop sz buf \<longrightarrow> sendmsg_loop yld fd (length buf) iov st sz = Some res"
  apply (erule send_loop.raw_induct [where P = "\<lambda>yld fd buf st sz res.
      \<forall>iov. concat iov = drop sz buf \<longrightarrow> sendmsg_loop yld fd (length buf) iov st sz = Some res", rotated])
  apply (intro impI allI)
  apply (subst sendmsg_loop.simps)
  apply (auto simp: Let_def add.commute split: sysres.splits if_splits prod.splits bind_splits)
  done

lemma sendmsg_is_send:
  "hev_task_io_socket_sendmsg yld fd iov st = hev_task_io_socket_send yld fd (concat iov) st"
proof (cases "hev_task_io_socket_send yld fd (concat iov) st")
  case None
  then show ?thesis unfolding hev_task_io_socket_sendmsg_def hev_task_io_socket_send_def
    using sendmsg_loop_send [of yld fd "length (concat iov)" iov st 0 _ "concat iov"]
    by (cases "sendmsg_loop yld fd (length (concat iov)) iov st 0") (auto simp: length_concat)
next
  case (Some res)
  then show ?thesis unfolding hev_task_io_socket_sendmsg_def hev_task_io_socket_send_def
    using send_loop_sendmsg [of yld fd "concat iov" st 0 res, rule_format, of iov]
    by (simp add: length_concat)
qed


text \<open>What a call that receives leaves behind, from the bytes it already had.\<close>

definition recv_post :: "int \<Rightarrow> nat \<Rightarrow> byte list \<Rightarrow> os \<Rightarrow> os \<Rightarrow> byte list \<Rightarrow> int \<Rightarrow> bool" where
  "recv_post fd len acc a b bs n \<longleftrightarrow>
     (\<exists>got. bs = acc @ got \<and> rx_bytes (os_rx a fd) = got @ rx_bytes (os_rx b fd)) \<and>
     length bs \<le> len \<and> (if n < 0 then bs = [] else n = int (length bs)) \<and>
     io_only a b \<and> os_out b = os_out a \<and> os_tx b fd = os_tx a fd"

lemma recv_post_step:
  assumes "recv_post fd len (acc @ bs) b c cs n"
    and "rx_bytes (os_rx a fd) = bs @ rx_bytes (os_rx b fd)"
    and "io_only a b" "os_out b = os_out a" "os_tx b fd = os_tx a fd"
  shows "recv_post fd len acc a c cs n"
  using assms unfolding recv_post_def by (auto intro: io_only_trans)

lemma recv_post_here:
  assumes "rx_bytes (os_rx a fd) = bs @ rx_bytes (os_rx b fd)" "length (acc @ bs) \<le> len"
    and "if n < 0 then acc @ bs = [] else n = int (length (acc @ bs))"
    and "io_only a b" "os_out b = os_out a" "os_tx b = os_tx a"
  shows "recv_post fd len acc a b (acc @ bs) n"
  using assms unfolding recv_post_def by auto

definition send_post :: "int \<Rightarrow> byte list \<Rightarrow> nat \<Rightarrow> os \<Rightarrow> os \<Rightarrow> int \<Rightarrow> bool" where
  "send_post fd buf sz a b n \<longleftrightarrow>
     (\<exists>k. sz \<le> k \<and> k \<le> length buf \<and> (if n < 0 then k = 0 else n = int k) \<and>
        os_out b = (os_out a)(fd := os_out a fd @ take (k - sz) (drop sz buf))) \<and>
     io_only a b \<and> os_rx b fd = os_rx a fd"

lemma send_post_step:
  assumes "send_post fd buf (sz + s) b c n" "sz + s \<le> length buf"
    and "os_out b = (os_out a)(fd := os_out a fd @ take s (drop sz buf))"
    and "io_only a b" "os_rx b fd = os_rx a fd"
  shows "send_post fd buf sz a c n"
proof -
  obtain k where k: "sz + s \<le> k" "k \<le> length buf" "if n < 0 then k = 0 else n = int k"
    "os_out c = (os_out b)(fd := os_out b fd @ take (k - (sz + s)) (drop (sz + s) buf))"
    using assms(1) unfolding send_post_def by blast
  have "take s (drop sz buf) @ take (k - (sz + s)) (drop (sz + s) buf) = take (k - sz) (drop sz buf)"
    using k(1) take_add [of s "k - (sz + s)" "drop sz buf"] by (simp add: add.commute)
  then have "os_out c = (os_out a)(fd := os_out a fd @ take (k - sz) (drop sz buf))"
    using k(4) assms(3) by simp
  then show ?thesis
    using k assms unfolding send_post_def by (auto intro!: exI [of _ k] intro: io_only_trans)
qed

section \<open>What the calls do, for every yielder\<close>

text \<open>
  The contract of a yielder for the descriptor a call works on: it leaves the stream alone, changes
  of the object only what \<^verbatim>\<open>same\<close> allows, and for a task with a deadline (\<^verbatim>\<open>timed\<close>) it comes back,
  having used up one of the task's waits.
\<close>

locale task_yielder =
  fixes yld :: "'s yielder" and fd :: int and timed :: "'s \<Rightarrow> bool" and same :: "'s \<Rightarrow> 's \<Rightarrow> bool"
  assumes same_refl: "same s s"
    and same_trans: "same s s' \<Longrightarrow> same s' s'' \<Longrightarrow> same s s''"
    and same_yield: "yld HEV_TASK_WAITIO (s, a) = Some ((s', b), y) \<Longrightarrow> same s s'"
    and frame: "yld HEV_TASK_WAITIO (s, a) = Some ((s', b), y) \<Longrightarrow>
      io_only a b \<and> os_rx b fd = os_rx a fd \<and> os_tx b fd = os_tx a fd \<and> os_out b = os_out a"
    and returns: "timed s \<Longrightarrow>
      \<exists>s' b y. yld HEV_TASK_WAITIO (s, a) = Some ((s', b), y) \<and> timed s' \<and>
        (y = 0 \<longrightarrow> length (os_waits b) < length (os_waits a))"
begin

lemma recv_returns:
  assumes "timed s" "length acc \<le> len"
  shows "\<exists>s' b bs n. recv_loop yld fd len wa dw (s, a) acc = Some ((s', b), bs, n) \<and> timed s'"
  using assms
proof (induction "length (os_rx a fd) + length (os_waits a)" arbitrary: s a acc rule: less_induct)
  case less
  obtain b r where sr: "sys_recv fd (len - length acc) a = (b, r)" by fastforce
  note io = sys_recv_io [OF sr]
  show ?case
  proof (cases r)
    case SysAgain
    obtain s' c y where y: "yld HEV_TASK_WAITIO (s, b) = Some ((s', c), y)" and t: "timed s'"
      and w: "y = 0 \<longrightarrow> length (os_waits c) < length (os_waits b)"
      using returns [OF less.prems(1), of b] by blast
    have "y = 0 \<Longrightarrow> length (os_rx c fd) + length (os_waits c) < length (os_rx a fd) + length (os_waits a)"
      using frame [OF y] w io by simp
    then show ?thesis using less.hyps [OF _ t less.prems(2), of c]
      by (subst recv_loop.simps) (use sr SysAgain y t less.prems in \<open>auto simp: Let_def\<close>)
  next
    case SysErr
    then show ?thesis by (subst recv_loop.simps) (use sr less.prems in \<open>auto simp: Let_def\<close>)
  next
    case (SysOk bs)
    note ok = sys_recv_ok [OF sr [unfolded SysOk]]
    have "bs \<noteq> [] \<Longrightarrow> length (acc @ bs) < len \<Longrightarrow>
        length (os_rx b fd) + length (os_waits b) < length (os_rx a fd) + length (os_waits a)"
      using ok io by (simp add: less_diff_conv)
    then show ?thesis using less.hyps [OF _ less.prems(1), of b "acc @ bs"]
      by (subst recv_loop.simps) (use sr SysOk less.prems in \<open>auto simp: Let_def\<close>)
  qed
qed

lemma recv_loop_sound:
  "recv_loop yl f len wa dw st acc = Some res \<Longrightarrow>
   yl = yld \<longrightarrow> f = fd \<longrightarrow> wa \<or> acc = [] \<longrightarrow> length acc \<le> len \<longrightarrow>
   recv_post fd len acc (snd st) (snd (fst res)) (fst (snd res)) (snd (snd res))"
  apply (erule recv_loop.raw_induct [where P = "\<lambda>yl f len wa dw st acc res.
      yl = yld \<longrightarrow> f = fd \<longrightarrow> wa \<or> acc = [] \<longrightarrow> length acc \<le> len \<longrightarrow>
      recv_post fd len acc (snd st) (snd (fst res)) (fst (snd res)) (snd (snd res))", rotated])
  subgoal premises prems for loop yl f len wa dw st acc res
  proof (intro impI)
    assume h: "yl = yld" "f = fd" "wa \<or> acc = []" "length acc \<le> len"
    obtain s a where st: "st = (s, a)" by fastforce
    obtain s' d cs n where res: "res = ((s', d), cs, n)" by (metis prod.exhaust)
    obtain b r where sr: "sys_recv fd (len - length acc) a = (b, r)" by fastforce
    note io = sys_recv_io [OF sr] and byt = sys_recv_bytes [OF sr]
    note ih = prems(1) [rule_format, OF _ h(1,2)]
    show "recv_post fd len acc (snd st) (snd (fst res)) (fst (snd res)) (snd (snd res))"
    proof (cases r)
      case SysAgain
      note stay = recv_post_here [of a fd "[]" b acc len]
      show ?thesis
      proof (cases dw)
        case True
        then show ?thesis using prems(2) SysAgain h io byt sr stay by (auto simp: st res Let_def)
      next
        case False
        then obtain s2 c y where y: "yld HEV_TASK_WAITIO (s, b) = Some ((s2, c), y)"
          using prems(2) SysAgain h sr by (auto simp: st res Let_def split: bind_splits)
        note fr = frame [OF y]
        have step: "recv_post fd len acc c d bs n \<Longrightarrow> recv_post fd len acc a d bs n" for d bs n
          using recv_post_step [of fd len acc "[]" c d bs n a] fr io byt SysAgain
          by (auto intro: io_only_trans)
        show ?thesis
        proof (cases "y = 0")
          case True
          then show ?thesis using prems(2) SysAgain h sr y False ih
            by (auto simp: st res Let_def intro!: step)
        next
          case y0: False
          have "recv_post fd len acc c c acc (if acc \<noteq> [] then int (length acc) else - 2)"
            using recv_post_here [of c fd "[]" c acc len] h by auto
          then have "recv_post fd len acc a c acc (if acc \<noteq> [] then int (length acc) else - 2)"
            by (rule step)
          then show ?thesis using prems(2) SysAgain h sr y False y0
            by (auto simp: st res Let_def)
        qed
      qed
    next
      case SysErr
      then show ?thesis using prems(2) h io byt sr recv_post_here [of a fd "[]" b acc len] 
        by (auto simp: st res Let_def)
    next
      case (SysOk bs)
      note ok = sys_recv_ok [OF sr [unfolded SysOk]]
      have here: "recv_post fd len acc a b (acc @ bs) (int (length (acc @ bs)))"
        using recv_post_here [of a fd bs b acc len] io byt SysOk ok h by auto
      have step: "recv_post fd len (acc @ bs) b d cs n \<Longrightarrow> recv_post fd len acc a d cs n" for d cs n
        using recv_post_step [of fd len acc bs b d cs n a] io byt SysOk by auto
      show ?thesis using prems(2) SysOk h sr ih here
        by (auto simp: st res Let_def intro!: step split: if_splits)
    qed
  qed
  done

lemma send_loop_sound:
  "send_loop yl f buf st sz = Some res \<Longrightarrow>
   yl = yld \<longrightarrow> f = fd \<longrightarrow> sz \<le> length buf \<longrightarrow> send_post fd buf sz (snd st) (snd (fst res)) (snd res)"
  apply (erule send_loop.raw_induct [where P = "\<lambda>yl f buf st sz res.
      yl = yld \<longrightarrow> f = fd \<longrightarrow> sz \<le> length buf \<longrightarrow>
      send_post fd buf sz (snd st) (snd (fst res)) (snd res)", rotated])
  subgoal premises prems for loop yl f buf st sz res
  proof (intro impI)
    assume h: "yl = yld" "f = fd" "sz \<le> length buf"
    obtain s a where st: "st = (s, a)" by fastforce
    obtain s' d n where res: "res = ((s', d), n)" by (metis prod.exhaust)
    obtain b r where sr: "sys_send fd (drop sz buf) a = (b, r)" by fastforce
    note io = sys_send_io [OF sr] and out = sys_send_out [OF sr]
    note ih = prems(1) [rule_format, OF _ h(1,2)]
    show "send_post fd buf sz (snd st) (snd (fst res)) (snd res)"
    proof (cases r)
      case SysAgain
      then obtain s2 c y where y: "yld HEV_TASK_WAITIO (s, b) = Some ((s2, c), y)"
        using prems(2) h sr by (auto simp: st res Let_def split: bind_splits)
      note fr = frame [OF y]
      have step: "send_post fd buf sz c d n \<Longrightarrow> send_post fd buf sz a d n" for d n
        using send_post_step [of fd buf sz 0 c d n a] fr io out SysAgain h
        by (auto intro: io_only_trans)
      have "send_post fd buf sz c c (if sz \<noteq> 0 then int sz else - 2)"
        using h by (auto simp: send_post_def intro!: exI [of _ sz])
      then have "send_post fd buf sz a c (if sz \<noteq> 0 then int sz else - 2)"
        by (rule step)
      then show ?thesis using prems(2) SysAgain h sr y ih
        by (cases "y = 0") (auto simp: st res Let_def intro!: step)
    next
      case SysErr
      then show ?thesis using prems(2) h io out sr
        by (auto simp: st res Let_def send_post_def split: if_splits intro!: exI [of _ sz])
    next
      case (SysOk k)
      note ok = sys_send_ok [OF sr [unfolded SysOk]]
      have step: "send_post fd buf (sz + k) b d n \<Longrightarrow> send_post fd buf sz a d n" for d n
        using send_post_step [of fd buf sz k b d n a] io out SysOk ok h by auto
      have "send_post fd buf sz a b (int (sz + k))"
        using io out SysOk ok h by (auto simp: send_post_def intro!: exI [of _ "sz + k"])
      then show ?thesis using prems(2) SysOk h sr ih ok
        by (auto simp: st res Let_def intro!: step split: if_splits)
    qed
  qed
  done

lemma send_returns:
  assumes "timed s"
  shows "\<exists>s' b n. send_loop yld fd buf (s, a) sz = Some ((s', b), n) \<and> timed s'"
  using assms
proof (induction "length (os_tx a fd) + length (os_waits a)" arbitrary: s a sz rule: less_induct)
  case less
  obtain b r where sr: "sys_send fd (drop sz buf) a = (b, r)" by fastforce
  note io = sys_send_io [OF sr]
  show ?case
  proof (cases r)
    case SysAgain
    obtain s' c y where y: "yld HEV_TASK_WAITIO (s, b) = Some ((s', c), y)" and t: "timed s'"
      and w: "y = 0 \<longrightarrow> length (os_waits c) < length (os_waits b)"
      using returns [OF less.prems, of b] by blast
    have "y = 0 \<Longrightarrow> length (os_tx c fd) + length (os_waits c) < length (os_tx a fd) + length (os_waits a)"
      using frame [OF y] w io by simp
    then show ?thesis using less.hyps [OF _ t, of c]
      by (subst send_loop.simps) (use sr SysAgain y t less.prems in \<open>auto simp: Let_def\<close>)
  next
    case SysErr
    then show ?thesis by (subst send_loop.simps) (use sr less.prems in \<open>auto simp: Let_def\<close>)
  next
    case (SysOk k)
    note ok = sys_send_ok [OF sr [unfolded SysOk]]
    have "k \<noteq> 0 \<Longrightarrow> sz + k < length buf \<Longrightarrow>
        length (os_tx b fd) + length (os_waits b) < length (os_tx a fd) + length (os_waits a)"
      using ok io by simp
    then show ?thesis using less.hyps [OF _ less.prems, of b "sz + k"]
      by (subst send_loop.simps) (use sr SysOk less.prems in \<open>auto simp: Let_def\<close>)
  qed
qed

lemma recv_loop_same:
  "recv_loop yl f len wa dw st acc = Some res \<Longrightarrow> yl = yld \<longrightarrow> same (fst st) (fst (fst res))"
  apply (erule recv_loop.raw_induct [where P = "\<lambda>yl f len wa dw st acc res.
      yl = yld \<longrightarrow> same (fst st) (fst (fst res))", rotated])
  apply (auto simp: Let_def same_refl split: sysres.splits if_splits prod.splits bind_splits
      dest!: same_yield intro: same_trans)
  done

lemma send_loop_same:
  "send_loop yl f buf st sz = Some res \<Longrightarrow> yl = yld \<longrightarrow> same (fst st) (fst (fst res))"
  apply (erule send_loop.raw_induct [where P = "\<lambda>yl f buf st sz res.
      yl = yld \<longrightarrow> same (fst st) (fst (fst res))", rotated])
  apply (auto simp: Let_def same_refl split: sysres.splits if_splits prod.splits bind_splits
      dest!: same_yield intro: same_trans)
  done

lemma connect_sound:
  "hev_task_io_socket_connect yl f addr st = Some res \<Longrightarrow> yl = yld \<longrightarrow>
   same (fst st) (fst (fst res)) \<and> snd res \<le> 0 \<and>
   os_open (snd (fst res)) = os_open (snd st) \<and> os_live (snd (fst res)) = os_live (snd st) \<and>
   os_opts (snd (fst res)) = os_opts (snd st) \<and>
   (snd res = 0 \<longrightarrow> os_peer (snd (fst res)) f = Some addr)"
  apply (erule hev_task_io_socket_connect.raw_induct [where P = "\<lambda>yl f addr st res. yl = yld \<longrightarrow>
   same (fst st) (fst (fst res)) \<and> snd res \<le> 0 \<and>
   os_open (snd (fst res)) = os_open (snd st) \<and> os_live (snd (fst res)) = os_live (snd st) \<and>
   os_opts (snd (fst res)) = os_opts (snd st) \<and>
   (snd res = 0 \<longrightarrow> os_peer (snd (fst res)) f = Some addr)", rotated])
  subgoal premises prems for loop yl f addr st res
  proof
    assume yl: "yl = yld"
    obtain s a where st: "st = (s, a)" by fastforce
    obtain b c where c: "sys_connect a = (b, c)" by fastforce
    have io: "os_open b = os_open a" "os_live b = os_live a" "os_opts b = os_opts a"
      using c by (auto simp: sys_connect_def split: list.splits)
    show "same (fst st) (fst (fst res)) \<and> snd res \<le> 0 \<and>
       os_open (snd (fst res)) = os_open (snd st) \<and> os_live (snd (fst res)) = os_live (snd st) \<and>
       os_opts (snd (fst res)) = os_opts (snd st) \<and> (snd res = 0 \<longrightarrow> os_peer (snd (fst res)) f = Some addr)"
    proof (cases "c = ConnBusy")
      case True
      then obtain s2 d y where y: "yld HEV_TASK_WAITIO (s, b) = Some ((s2, d), y)"
        and r: "(if y \<noteq> 0 then Some ((s2, d), - 2) else loop yld f addr (s2, d)) = Some res"
        using prems(2) [unfolded yl] c by (auto simp: st Let_def bind_eq_Some_conv)
      have "same s s2" "os_open d = os_open a" "os_live d = os_live a" "os_opts d = os_opts a"
        using frame [OF y] same_yield [OF y] io by (auto simp: io_only_def)
      then show ?thesis using r prems(1) [rule_format, of yld f addr "(s2, d)" res] same_trans
        by (auto simp: st split: if_splits)
    next
      case False
      then show ?thesis using prems(2) c io same_refl
        by (cases c) (auto simp: st yl Let_def)
    qed
  qed
  done

lemma connect_returns:
  assumes "timed s"
  shows "\<exists>s' b n. hev_task_io_socket_connect yld f addr (s, a) = Some ((s', b), n) \<and> timed s'"
  using assms
proof (induction "length (os_conn a) + length (os_waits a)" arbitrary: s a rule: less_induct)
  case less
  obtain b c where c: "sys_connect a = (b, c)" by fastforce
  have io: "length (os_conn b) \<le> length (os_conn a)" "os_waits b = os_waits a"
    using c by (auto simp: sys_connect_def split: list.splits)
  obtain s' d y where y: "yld HEV_TASK_WAITIO (s, b) = Some ((s', d), y)" and t: "timed s'"
    and w: "y = 0 \<longrightarrow> length (os_waits d) < length (os_waits b)"
    using returns [OF less.prems, of b] by blast
  have "y = 0 \<Longrightarrow> length (os_conn d) + length (os_waits d) < length (os_conn a) + length (os_waits a)"
    using frame [OF y] w io by (simp add: io_only_def)
  then show ?case using less.hyps [OF _ t, of d] c y t less.prems
    by (subst hev_task_io_socket_connect.simps) (cases c; auto simp: Let_def)
qed

lemmas recv_same = recv_loop_same [where yl = yld and acc = "[]", simplified,
  folded hev_task_io_socket_recv_def]

lemmas send_same = send_loop_same [where yl = yld and sz = 0, simplified,
  folded hev_task_io_socket_send_def]

lemmas recv_sound = recv_loop_sound [where yl = yld and f = fd and acc = "[]", simplified,
  folded hev_task_io_socket_recv_def]

lemmas send_sound = send_loop_sound [where yl = yld and f = fd and sz = 0, simplified,
  folded hev_task_io_socket_send_def]

end

end
