(* ===== verification/Socks5Base.thy ===== *)
theory Socks5Base
  imports TaskIO
begin

text \<open>
  The base object of a SOCKS5 connection (\<^verbatim>\<open>src/core/src/hev-socks5.c\<close>) and the settings, the
  yielder and the socket constructor of \<^verbatim>\<open>src/core/src/hev-socks5-misc.c\<close>.  Registering a
  descriptor with the task has no result the code looks at and is left out.
\<close>

section \<open>Settings\<close>

record socks5_conf =
  connect_timeout :: int
  tcp_timeout :: int
  udp_timeout :: int
  task_stack_size :: int
  udp_recv_buffer_size :: int
  udp_copy_buffer_nums :: int

definition socks5_conf_init :: socks5_conf where
  "socks5_conf_init = \<lparr>connect_timeout = 10000, tcp_timeout = 300000, udp_timeout = 60000,
     task_stack_size = 8192, udp_recv_buffer_size = 512 * 1024, udp_copy_buffer_nums = 10\<rparr>"

definition hev_socks5_set_connect_timeout :: "int \<Rightarrow> socks5_conf \<Rightarrow> socks5_conf" where
  "hev_socks5_set_connect_timeout t c = c\<lparr>connect_timeout := t\<rparr>"

definition hev_socks5_set_tcp_timeout :: "int \<Rightarrow> socks5_conf \<Rightarrow> socks5_conf" where
  "hev_socks5_set_tcp_timeout t c = c\<lparr>tcp_timeout := t\<rparr>"

definition hev_socks5_set_udp_timeout :: "int \<Rightarrow> socks5_conf \<Rightarrow> socks5_conf" where
  "hev_socks5_set_udp_timeout t c = c\<lparr>udp_timeout := t\<rparr>"

definition hev_socks5_set_task_stack_size :: "int \<Rightarrow> socks5_conf \<Rightarrow> socks5_conf" where
  "hev_socks5_set_task_stack_size n c = c\<lparr>task_stack_size := n\<rparr>"

definition hev_socks5_set_udp_recv_buffer_size :: "int \<Rightarrow> socks5_conf \<Rightarrow> socks5_conf" where
  "hev_socks5_set_udp_recv_buffer_size n c = c\<lparr>udp_recv_buffer_size := n\<rparr>"

definition hev_socks5_set_udp_copy_buffer_nums :: "int \<Rightarrow> socks5_conf \<Rightarrow> socks5_conf" where
  "hev_socks5_set_udp_copy_buffer_nums n c = c\<lparr>udp_copy_buffer_nums := n\<rparr>"

section \<open>The object\<close>

datatype socks5_type = TYPE_NONE | TYPE_TCP | TYPE_UDP_IN_TCP | TYPE_UDP_IN_UDP

record socks5 =
  s5_fd :: int
  s5_timeout :: int
  s5_type :: socks5_type
  s5_udp_associated :: bool
  s5_family :: addr_family

definition hev_socks5_set_timeout :: "int \<Rightarrow> 'a socks5_scheme \<Rightarrow> 'a socks5_scheme" where
  "hev_socks5_set_timeout t self = (if s5_timeout self \<noteq> 0 then self\<lparr>s5_timeout := t\<rparr> else self)"

definition hev_socks5_set_addr_family :: "addr_family \<Rightarrow> 'a socks5_scheme \<Rightarrow> 'a socks5_scheme" where
  "hev_socks5_set_addr_family f self = self\<lparr>s5_family := f\<rparr>"

definition hev_socks5_bind :: "int \<Rightarrow> sockaddr6 \<Rightarrow> os \<Rightarrow> os \<times> int" where
  "hev_socks5_bind fd dest os = (os, 0)"

definition hev_socks5_construct :: "socks5_type \<Rightarrow> 'a socks5_scheme \<Rightarrow> 'a socks5_scheme" where
  "hev_socks5_construct ty self =
     self\<lparr>s5_fd := - 1, s5_timeout := - 1, s5_type := ty, s5_family := FAMILY_UNSPEC\<rparr>"

definition hev_socks5_destruct :: "'a socks5_scheme \<Rightarrow> os \<Rightarrow> os" where
  "hev_socks5_destruct self os =
     sys_free (if s5_fd self \<ge> 0 then sys_close (s5_fd self) os else os)"

section \<open>Yielding\<close>

text \<open>
  The yielder of \<^verbatim>\<open>hev-socks5-misc.c\<close>.  A sleep of zero returns at once; a wait that is not in the
  script ends with the timeout, or never when there is none.  A termination during the wait is
  \<^verbatim>\<open>hev_socks5_set_timeout (self, 0)\<close>, run by another task.
\<close>

definition hev_socks5_task_io_yielder :: "'a socks5_scheme yielder" where
  "hev_socks5_task_io_yielder ty st =
     (let self = fst st; os = snd st in
      if ty = HEV_TASK_YIELD then Some (st, 0)
      else if s5_timeout self = 0 then Some (st, - 1)
      else case os_waits os of
        [] \<Rightarrow> if s5_timeout self < 0 then None else Some (st, - 1)
      | w # ws \<Rightarrow>
          let st1 = (if terminated w then hev_socks5_set_timeout 0 self else self, os\<lparr>os_waits := ws\<rparr>)
          in Some (st1, if s5_timeout self < 0 then 0 else if slept w \<le> 0 then - 1 else 0))"

datatype sock_type = SOCK_STREAM | SOCK_DGRAM

definition hev_socks5_socket :: "socks5_conf \<Rightarrow> sock_type \<Rightarrow> os \<Rightarrow> os \<times> int" where
  "hev_socks5_socket conf ty os =
     (let (os1, fd) = sys_socket os in
      if fd < 0 then (os1, - 1)
      else
        let (os2, res) = sys_setsockopt fd IPV6_V6ONLY 0 os1 in
        if res < 0 then (sys_close fd os2, - 1)
        else (if ty = SOCK_DGRAM then fst (sys_setsockopt fd SO_RCVBUF (udp_recv_buffer_size conf) os2)
              else os2, fd))"

section \<open>Printing an address\<close>

fun dec_string :: "nat \<Rightarrow> cstring" where
  "dec_string n = (if n < 10 then [48 + of_nat n] else dec_string (n div 10) @ [48 + of_nat (n mod 10)])"

declare dec_string.simps [simp del]

text \<open>
  \<^verbatim>\<open>hev_socks5_addr_into_str\<close> with a buffer of the given size; \<^verbatim>\<open>inet_ntop\<close> for the two families is
  a parameter.  \<^term>\<open>None\<close> is the result \<^verbatim>\<open>NULL\<close>.
\<close>

definition hev_socks5_addr_into_str ::
    "(byte list \<Rightarrow> cstring) \<Rightarrow> (byte list \<Rightarrow> cstring) \<Rightarrow> socks5_addr \<Rightarrow> nat \<Rightarrow> cstring option" where
  "hev_socks5_addr_into_str ntop4 ntop6 a len =
     (let out = \<lambda>sa port. Some (take (len - 1) ([91] @ sa @ [93, 58] @ dec_string (unat (ntohs port)))) in
      if a ! 0 = HEV_SOCKS5_ADDR_TYPE_IPV4 then out (ntop4 (mem_get a 1 4)) (mem_u16 (mem_get a 5 2))
      else if a ! 0 = HEV_SOCKS5_ADDR_TYPE_IPV6 then out (ntop6 (mem_get a 1 16)) (mem_u16 (mem_get a 17 2))
      else if a ! 0 = HEV_SOCKS5_ADDR_TYPE_NAME then
        let n = unat (a ! 1) in out (cstr (mem_get a 2 n @ [0])) (mem_u16 (mem_get a (2 + n) 2))
      else None)"

section \<open>Lemmas\<close>

lemma set_timeout_sel [simp]:
  "s5_fd (hev_socks5_set_timeout t s) = s5_fd s"
  "s5_type (hev_socks5_set_timeout t s) = s5_type s"
  "s5_udp_associated (hev_socks5_set_timeout t s) = s5_udp_associated s"
  "s5_family (hev_socks5_set_timeout t s) = s5_family s"
  "socks5.more (hev_socks5_set_timeout t s) = socks5.more s"
  by (simp_all add: hev_socks5_set_timeout_def)

text \<open>A terminated connection stays terminated: no later timeout replaces the zero.\<close>

lemma set_timeout_zero [simp]: "s5_timeout s = 0 \<Longrightarrow> hev_socks5_set_timeout t s = s"
  by (simp add: hev_socks5_set_timeout_def)

lemma set_timeout_nonneg: "0 \<le> s5_timeout s \<Longrightarrow> 0 \<le> t \<Longrightarrow> 0 \<le> s5_timeout (hev_socks5_set_timeout t s)"
  by (simp add: hev_socks5_set_timeout_def)

lemma yielder_frame:
  assumes "hev_socks5_task_io_yielder ty (s, a) = Some ((s', b), y)"
  shows "\<exists>ws. b = a\<lparr>os_waits := ws\<rparr>" "s' = s \<or> s' = hev_socks5_set_timeout 0 s"
  using assms
  by (auto simp: hev_socks5_task_io_yielder_def Let_def split: if_splits list.splits intro: exI [of _ "os_waits a"])

text \<open>All that a wait changes of the object is the timeout, and only to zero.\<close>

definition kept :: "'a socks5_scheme \<Rightarrow> 'a socks5_scheme \<Rightarrow> bool" where
  "kept s s' \<longleftrightarrow> s' = s \<or> s' = hev_socks5_set_timeout 0 s"

lemma set_timeout_0_0 [simp]:
  "hev_socks5_set_timeout 0 (hev_socks5_set_timeout 0 s) = hev_socks5_set_timeout 0 s"
  by (simp add: hev_socks5_set_timeout_def)

lemma kept_refl [simp]: "kept s s"
  by (simp add: kept_def)

lemma kept_trans: "kept s s' \<Longrightarrow> kept s' s'' \<Longrightarrow> kept s s''"
  by (auto simp: kept_def)

lemma keptD:
  assumes "kept s s'"
  shows "s5_fd s' = s5_fd s" "s5_type s' = s5_type s" "s5_family s' = s5_family s"
    "s5_udp_associated s' = s5_udp_associated s" "socks5.more s' = socks5.more s"
    "s5_timeout s' = s5_timeout s \<or> s5_timeout s' = 0"
  using assms by (auto simp: kept_def hev_socks5_set_timeout_def split: if_splits)

interpretation ty: task_yielder hev_socks5_task_io_yielder fd "\<lambda>s. 0 \<le> s5_timeout s" kept for fd
proof unfold_locales
  fix s :: "'a socks5_scheme" and a s' b y
  assume y: "hev_socks5_task_io_yielder HEV_TASK_WAITIO (s, a) = Some ((s', b), y)"
  show "io_only a b \<and> os_rx b fd = os_rx a fd \<and> os_tx b fd = os_tx a fd \<and> os_out b = os_out a"
    using yielder_frame(1) [OF y] by (auto simp: io_only_def)
  show "kept s s'"
    using yielder_frame(2) [OF y] by (simp add: kept_def)
next
  fix s :: "'a socks5_scheme" and a
  assume "0 \<le> s5_timeout s"
  then show "\<exists>s' b y. hev_socks5_task_io_yielder HEV_TASK_WAITIO (s, a) = Some ((s', b), y) \<and>
      0 \<le> s5_timeout s' \<and> (y = 0 \<longrightarrow> length (os_waits b) < length (os_waits a))"
    by (cases "os_waits a")
      (auto simp: hev_socks5_task_io_yielder_def Let_def hev_socks5_set_timeout_def)
qed (auto intro: kept_trans)

lemma dec_string_length: "n < 10 ^ k \<Longrightarrow> 0 < k \<Longrightarrow> length (dec_string n) \<le> k"
proof (induction k arbitrary: n)
  case (Suc k)
  then show ?case
    using Suc.IH [of "n div 10"] by (subst dec_string.simps) (cases k; simp add: less_mult_imp_div_less)
qed simp

end
