(* ===== verification/Socks5Client.thy ===== *)
theory Socks5Client
  imports Socks5Base
begin

text \<open>
  The SOCKS5 client: \<^verbatim>\<open>src/core/src/hev-socks5-client.c\<close> with its two subclasses
  \<^verbatim>\<open>hev-socks5-client-tcp.c\<close> and \<^verbatim>\<open>hev-socks5-client-udp.c\<close>.  A subclass extends the record of
  the object; its methods are the fields of a class record.  A result of \<^term>\<open>None\<close> is an access
  through \<^verbatim>\<open>NULL\<close> or a task that waits forever.
\<close>

section \<open>Objects, classes and messages\<close>

record socks5_client = socks5 +
  auth_user :: "cstring option"
  auth_pass :: "cstring option"

record 'c client_class =
  klass_binder :: "int \<Rightarrow> sockaddr6 \<Rightarrow> os \<Rightarrow> os \<times> int"
  get_upstream_addr :: "'c \<times> os \<Rightarrow> ('c \<times> os) \<times> socks5_addr option"
  set_upstream_addr :: "socks5_addr \<Rightarrow> 'c \<times> os \<Rightarrow> (('c \<times> os) \<times> int) option"

definition HEV_SOCKS5_VERSION_5 :: byte where "HEV_SOCKS5_VERSION_5 = 5"
definition HEV_SOCKS5_AUTH_METHOD_NONE :: byte where "HEV_SOCKS5_AUTH_METHOD_NONE = 0"
definition HEV_SOCKS5_AUTH_METHOD_USER :: byte where "HEV_SOCKS5_AUTH_METHOD_USER = 2"
definition HEV_SOCKS5_AUTH_VERSION_1 :: byte where "HEV_SOCKS5_AUTH_VERSION_1 = 1"
definition HEV_SOCKS5_REQ_CMD_CONNECT :: byte where "HEV_SOCKS5_REQ_CMD_CONNECT = 1"
definition HEV_SOCKS5_REQ_CMD_UDP_ASC :: byte where "HEV_SOCKS5_REQ_CMD_UDP_ASC = 3"
definition HEV_SOCKS5_REQ_CMD_FWD_UDP :: byte where "HEV_SOCKS5_REQ_CMD_FWD_UDP = 5"
definition HEV_SOCKS5_RES_REP_SUCC :: byte where "HEV_SOCKS5_RES_REP_SUCC = 0"
definition HEV_SOCKS5_RES_REP_FAIL :: byte where "HEV_SOCKS5_RES_REP_FAIL = 1"
definition HEV_SOCKS5_RES_REP_HOST :: byte where "HEV_SOCKS5_RES_REP_HOST = 4"
definition HEV_SOCKS5_RES_REP_IMPL :: byte where "HEV_SOCKS5_RES_REP_IMPL = 7"
definition HEV_SOCKS5_RES_REP_ADDR :: byte where "HEV_SOCKS5_RES_REP_ADDR = 8"

lemmas proto_consts =
  HEV_SOCKS5_VERSION_5_def HEV_SOCKS5_AUTH_METHOD_NONE_def HEV_SOCKS5_AUTH_METHOD_USER_def
  HEV_SOCKS5_AUTH_VERSION_1_def HEV_SOCKS5_REQ_CMD_CONNECT_def HEV_SOCKS5_REQ_CMD_UDP_ASC_def
  HEV_SOCKS5_REQ_CMD_FWD_UDP_def HEV_SOCKS5_RES_REP_SUCC_def HEV_SOCKS5_RES_REP_FAIL_def
  HEV_SOCKS5_RES_REP_HOST_def HEV_SOCKS5_RES_REP_IMPL_def HEV_SOCKS5_RES_REP_ADDR_def

abbreviation task_io_yielder :: "'a socks5_scheme yielder" where
  "task_io_yielder \<equiv> hev_socks5_task_io_yielder"

definition has_auth :: "'a socks5_client_scheme \<Rightarrow> bool" where
  "has_auth self \<longleftrightarrow> auth_user self \<noteq> None \<and> auth_pass self \<noteq> None"

section \<open>Writing\<close>

definition hev_socks5_client_write_auth_methods ::
    "'a socks5_client_scheme \<times> os \<Rightarrow> (('a socks5_client_scheme \<times> os) \<times> int) option" where
  "hev_socks5_client_write_auth_methods st =
     do {
       let m = (if \<not> has_auth (fst st) then HEV_SOCKS5_AUTH_METHOD_NONE
                else HEV_SOCKS5_AUTH_METHOD_USER);
       (st1, res) \<leftarrow> hev_task_io_socket_send task_io_yielder (s5_fd (fst st)) [HEV_SOCKS5_VERSION_5, 1, m] st;
       Some (st1, if res \<le> 0 then - 1 else 0)
     }"

definition hev_socks5_client_write_auth_creds ::
    "'a socks5_client_scheme \<times> os \<Rightarrow> (('a socks5_client_scheme \<times> os) \<times> int) option" where
  "hev_socks5_client_write_auth_creds st =
     (case (auth_user (fst st), auth_pass (fst st)) of
        (Some user, Some pass) \<Rightarrow> do {
          let ub1 = (of_nat (length user) :: byte);
          let ub2 = (of_nat (length pass) :: byte);
          let iov = [[HEV_SOCKS5_AUTH_VERSION_1, ub1], take (unat ub1) user, [ub2], take (unat ub2) pass];
          (st1, res) \<leftarrow> hev_task_io_socket_sendmsg task_io_yielder (s5_fd (fst st)) iov st;
          Some (st1, if res \<le> 0 then - 1 else 0)
        }
      | _ \<Rightarrow> Some (st, 0))"

definition req_cmd :: "socks5_type \<Rightarrow> byte option" where
  "req_cmd ty =
     (case ty of
        TYPE_TCP \<Rightarrow> Some HEV_SOCKS5_REQ_CMD_CONNECT
      | TYPE_UDP_IN_TCP \<Rightarrow> Some HEV_SOCKS5_REQ_CMD_FWD_UDP
      | TYPE_UDP_IN_UDP \<Rightarrow> Some HEV_SOCKS5_REQ_CMD_UDP_ASC
      | TYPE_NONE \<Rightarrow> None)"

definition hev_socks5_client_write_request ::
    "'a socks5_client_scheme client_class \<Rightarrow> 'a socks5_client_scheme \<times> os \<Rightarrow>
     (('a socks5_client_scheme \<times> os) \<times> int) option" where
  "hev_socks5_client_write_request klass st =
     (case req_cmd (s5_type (fst st)) of
        None \<Rightarrow> Some (st, - 1)
      | Some cmd \<Rightarrow> do {
          let (st1, addrp) = get_upstream_addr klass st;
          addr \<leftarrow> addrp;
          let addrlen = hev_socks5_addr_len addr;
          if addrlen < 0 then Some (st1, - 1)
          else do {
            let iov = [[HEV_SOCKS5_VERSION_5, cmd, 0], take (nat addrlen) addr];
            (st2, ret) \<leftarrow> hev_task_io_socket_sendmsg task_io_yielder (s5_fd (fst st1)) iov st1;
            if ret \<le> 0 then Some (st2, - 1) else Some ((fst st2, sys_free (snd st2)), 0)
          }
        })"

section \<open>Reading\<close>

definition hev_socks5_client_read_auth_method ::
    "'a socks5_client_scheme \<times> os \<Rightarrow> (('a socks5_client_scheme \<times> os) \<times> int) option" where
  "hev_socks5_client_read_auth_method st =
     do {
       (st1, auth, res) \<leftarrow> hev_task_io_socket_recv task_io_yielder (s5_fd (fst st)) 2 True False st;
       Some (st1, if res \<noteq> 2 then - 1
                  else if auth ! 0 \<noteq> HEV_SOCKS5_VERSION_5 then - 1
                  else uint (auth ! 1))
     }"

definition hev_socks5_client_read_auth_creds ::
    "'a socks5_client_scheme \<times> os \<Rightarrow> (('a socks5_client_scheme \<times> os) \<times> int) option" where
  "hev_socks5_client_read_auth_creds st =
     do {
       (st1, r, ret) \<leftarrow> hev_task_io_socket_recv task_io_yielder (s5_fd (fst st)) 2 True False st;
       Some (st1, if ret \<noteq> 2 then - 1
                  else if r ! 0 \<noteq> HEV_SOCKS5_AUTH_VERSION_1 then - 1
                  else if r ! 1 \<noteq> HEV_SOCKS5_RES_REP_SUCC then - 1
                  else 0)
     }"

text \<open>
  The address in the response is a whole structure on the stack; the bytes behind the received
  ones are never read and are zero here.
\<close>

definition res_addr :: "byte \<Rightarrow> byte list \<Rightarrow> socks5_addr" where
  "res_addr atype bs = mem_put (replicate ADDR_SIZE 0) 0 (atype # bs)"

definition hev_socks5_client_read_response ::
    "'a socks5_client_scheme client_class \<Rightarrow> 'a socks5_client_scheme \<times> os \<Rightarrow>
     (('a socks5_client_scheme \<times> os) \<times> int) option" where
  "hev_socks5_client_read_response klass st =
     do {
       (st1, r, ret) \<leftarrow> hev_task_io_socket_recv task_io_yielder (s5_fd (fst st)) 4 True False st;
       if ret \<noteq> 4 then Some (st1, - 1)
       else if r ! 0 \<noteq> HEV_SOCKS5_VERSION_5 then Some (st1, - 1)
       else if r ! 1 \<noteq> HEV_SOCKS5_RES_REP_SUCC then Some (st1, - 1)
       else if r ! 3 \<noteq> HEV_SOCKS5_ADDR_TYPE_IPV4 \<and> r ! 3 \<noteq> HEV_SOCKS5_ADDR_TYPE_IPV6 then Some (st1, - 1)
       else do {
         let addrlen = (if r ! 3 = HEV_SOCKS5_ADDR_TYPE_IPV4 then 6 else 18);
         (st2, bs, ret2) \<leftarrow> hev_task_io_socket_recv task_io_yielder (s5_fd (fst st1)) addrlen True False st1;
         if ret2 \<noteq> int addrlen then Some (st2, - 1)
         else do {
           (st3, ret3) \<leftarrow> set_upstream_addr klass (res_addr (r ! 3) bs) st2;
           Some (st3, if ret3 < 0 then - 1 else 0)
         }
       }
     }"

section \<open>Connecting and the handshakes\<close>

definition hev_socks5_client_connect ::
    "socks5_conf \<Rightarrow> resolver \<Rightarrow> 'a socks5_client_scheme client_class \<Rightarrow> cstring \<Rightarrow> int \<Rightarrow>
     'a socks5_client_scheme \<times> os \<Rightarrow> (('a socks5_client_scheme \<times> os) \<times> int) option" where
  "hev_socks5_client_connect conf rsv klass addr port st =
     (let self = hev_socks5_set_timeout (connect_timeout conf) (fst st) in
      case hev_socks5_name_into_sockaddr6 rsv addr (of_int port) (s5_family self) of
        None \<Rightarrow> Some ((self, snd st), - 1)
      | Some (saddr, family) \<Rightarrow>
          let (os1, fd) = hev_socks5_socket conf SOCK_STREAM (snd st) in
          if fd < 0 then Some ((self, os1), - 1)
          else
            let (os2, res) = klass_binder klass fd saddr os1 in
            if res < 0 then Some ((self, sys_close fd os2), - 1)
            else do {
              (st3, res) \<leftarrow> hev_task_io_socket_connect task_io_yielder fd saddr (self, os2);
              if res < 0 then Some ((fst st3, sys_close fd (snd st3)), - 1)
              else Some ((hev_socks5_set_addr_family family ((fst st3)\<lparr>s5_fd := fd\<rparr>), snd st3), 0)
            })"

definition hev_socks5_client_handshake_standard ::
    "'a socks5_client_scheme client_class \<Rightarrow> 'a socks5_client_scheme \<times> os \<Rightarrow>
     (('a socks5_client_scheme \<times> os) \<times> int) option" where
  "hev_socks5_client_handshake_standard klass st =
     do {
       (st1, res) \<leftarrow> hev_socks5_client_write_auth_methods st;
       if res < 0 then Some (st1, - 1)
       else do {
         (st2, method) \<leftarrow> hev_socks5_client_read_auth_method st1;
         if method < 0 then Some (st2, - 1)
         else do {
           (st4, res) \<leftarrow>
             (if method = uint HEV_SOCKS5_AUTH_METHOD_USER then do {
                (st3, res) \<leftarrow> hev_socks5_client_write_auth_creds st2;
                if res < 0 then Some (st3, - 1) else hev_socks5_client_read_auth_creds st3
              }
              else if method \<noteq> uint HEV_SOCKS5_AUTH_METHOD_NONE then Some (st2, - 1)
              else Some (st2, 0));
           if res < 0 then Some (st4, - 1)
           else do {
             (st5, res) \<leftarrow> hev_socks5_client_write_request klass st4;
             if res < 0 then Some (st5, - 1)
             else do {
               (st6, res) \<leftarrow> hev_socks5_client_read_response klass st5;
               Some (st6, if res < 0 then - 1 else 0)
             }
           }
         }
       }
     }"

definition hev_socks5_client_handshake_pipeline ::
    "'a socks5_client_scheme client_class \<Rightarrow> 'a socks5_client_scheme \<times> os \<Rightarrow>
     (('a socks5_client_scheme \<times> os) \<times> int) option" where
  "hev_socks5_client_handshake_pipeline klass st =
     do {
       (st1, res) \<leftarrow> hev_socks5_client_write_auth_methods st;
       if res < 0 then Some (st1, - 1)
       else do {
         (st2, res) \<leftarrow> hev_socks5_client_write_auth_creds st1;
         if res < 0 then Some (st2, - 1)
         else do {
           (st3, res) \<leftarrow> hev_socks5_client_write_request klass st2;
           if res < 0 then Some (st3, - 1)
           else do {
             (st4, method) \<leftarrow> hev_socks5_client_read_auth_method st3;
             if method < 0 then Some (st4, - 1)
             else do {
               (st5, res) \<leftarrow>
                 (if method = uint HEV_SOCKS5_AUTH_METHOD_USER then hev_socks5_client_read_auth_creds st4
                  else if method \<noteq> uint HEV_SOCKS5_AUTH_METHOD_NONE then Some (st4, - 1)
                  else Some (st4, 0));
               if res < 0 then Some (st5, - 1)
               else do {
                 (st6, res) \<leftarrow> hev_socks5_client_read_response klass st5;
                 Some (st6, if res < 0 then - 1 else 0)
               }
             }
           }
         }
       }
     }"

definition hev_socks5_client_handshake ::
    "socks5_conf \<Rightarrow> 'a socks5_client_scheme client_class \<Rightarrow> bool \<Rightarrow> 'a socks5_client_scheme \<times> os \<Rightarrow>
     (('a socks5_client_scheme \<times> os) \<times> int) option" where
  "hev_socks5_client_handshake conf klass pipeline st =
     do {
       let st0 = (hev_socks5_set_timeout (tcp_timeout conf) (fst st), snd st);
       (st1, res) \<leftarrow>
         (if pipeline then hev_socks5_client_handshake_pipeline klass st0
          else hev_socks5_client_handshake_standard klass st0);
       let self = (if s5_type (fst st1) \<in> {TYPE_UDP_IN_TCP, TYPE_UDP_IN_UDP}
                   then hev_socks5_set_timeout (udp_timeout conf) (fst st1) else fst st1);
       Some ((self, snd st1), res)
     }"

definition hev_socks5_client_set_auth ::
    "cstring option \<Rightarrow> cstring option \<Rightarrow> 'a socks5_client_scheme \<Rightarrow> 'a socks5_client_scheme" where
  "hev_socks5_client_set_auth user pass self = self\<lparr>auth_user := user, auth_pass := pass\<rparr>"

definition hev_socks5_client_construct ::
    "socks5_type \<Rightarrow> 'a socks5_client_scheme \<Rightarrow> 'a socks5_client_scheme" where
  "hev_socks5_client_construct ty self = hev_socks5_construct ty self"

definition hev_socks5_client_destruct :: "'a socks5_client_scheme \<Rightarrow> os \<Rightarrow> os" where
  "hev_socks5_client_destruct self os = hev_socks5_destruct self os"

section \<open>The TCP client\<close>

record client_tcp = socks5_client +
  ct_addr :: "socks5_addr option"

definition client_tcp_zero :: client_tcp where
  "client_tcp_zero = \<lparr>s5_fd = 0, s5_timeout = 0, s5_type = TYPE_NONE, s5_udp_associated = False,
     s5_family = FAMILY_UNSPEC, auth_user = None, auth_pass = None, ct_addr = None\<rparr>"

text \<open>An address of unknown type has length \<^verbatim>\<open>-1\<close>, an allocation that fails.\<close>

definition hev_socks5_client_tcp_construct ::
    "socks5_addr \<Rightarrow> 'a client_tcp_scheme \<times> os \<Rightarrow> ('a client_tcp_scheme \<times> os) \<times> int" where
  "hev_socks5_client_tcp_construct addr st =
     (let self = hev_socks5_client_construct TYPE_TCP (fst st);
          res = hev_socks5_addr_len addr;
          (os1, ok) = (if res < 0 then (snd st, False) else sys_malloc (snd st))
      in if \<not> ok then ((self\<lparr>ct_addr := None\<rparr>, os1), - 1)
         else ((self\<lparr>ct_addr := Some (take (nat res) addr)\<rparr>, os1), 0))"

definition client_tcp_new :: "socks5_addr \<Rightarrow> os \<Rightarrow> os \<times> client_tcp option" where
  "client_tcp_new addr os =
     (let (os1, ok) = sys_malloc os in
      if \<not> ok then (os1, None)
      else
        let ((self, os2), res) = hev_socks5_client_tcp_construct addr (client_tcp_zero, os1) in
        if res < 0 then (sys_free os2, None) else (os2, Some self))"

definition hev_socks5_client_tcp_new_name :: "cstring \<Rightarrow> int \<Rightarrow> os \<Rightarrow> (os \<times> client_tcp option) option" where
  "hev_socks5_client_tcp_new_name name port os =
     do {
       (addr, _) \<leftarrow> hev_socks5_addr_from_name (replicate ADDR_SIZE 0) name (of_int port);
       Some (client_tcp_new addr os)
     }"

definition hev_socks5_client_tcp_new_ipv4 :: "byte list \<Rightarrow> int \<Rightarrow> os \<Rightarrow> os \<times> client_tcp option" where
  "hev_socks5_client_tcp_new_ipv4 ipv4 port os =
     client_tcp_new (fst (hev_socks5_addr_from_ipv4 (replicate ADDR_SIZE 0) ipv4 (of_int port))) os"

definition hev_socks5_client_tcp_new_ipv6 :: "byte list \<Rightarrow> int \<Rightarrow> os \<Rightarrow> os \<times> client_tcp option" where
  "hev_socks5_client_tcp_new_ipv6 ipv6 port os =
     client_tcp_new (fst (hev_socks5_addr_from_ipv6 (replicate ADDR_SIZE 0) ipv6 (of_int port))) os"

definition hev_socks5_client_tcp_get_upstream_addr ::
    "'a client_tcp_scheme \<times> os \<Rightarrow> ('a client_tcp_scheme \<times> os) \<times> socks5_addr option" where
  "hev_socks5_client_tcp_get_upstream_addr st =
     (((fst st)\<lparr>ct_addr := None\<rparr>, snd st), ct_addr (fst st))"

definition hev_socks5_client_tcp_set_upstream_addr ::
    "socks5_addr \<Rightarrow> 'a client_tcp_scheme \<times> os \<Rightarrow> (('a client_tcp_scheme \<times> os) \<times> int) option" where
  "hev_socks5_client_tcp_set_upstream_addr addr st = Some (st, 0)"

definition hev_socks5_client_tcp_destruct :: "'a client_tcp_scheme \<Rightarrow> os \<Rightarrow> os" where
  "hev_socks5_client_tcp_destruct self os =
     hev_socks5_client_destruct self (if ct_addr self \<noteq> None then sys_free os else os)"

definition hev_socks5_client_tcp_class ::
    "(int \<Rightarrow> sockaddr6 \<Rightarrow> os \<Rightarrow> os \<times> int) \<Rightarrow> 'a client_tcp_scheme client_class" where
  "hev_socks5_client_tcp_class bnd =
     \<lparr>klass_binder = bnd, get_upstream_addr = hev_socks5_client_tcp_get_upstream_addr,
      set_upstream_addr = hev_socks5_client_tcp_set_upstream_addr\<rparr>"

section \<open>The UDP client\<close>

record client_udp = socks5_client +
  cu_fd :: int

definition client_udp_zero :: client_udp where
  "client_udp_zero = \<lparr>s5_fd = 0, s5_timeout = 0, s5_type = TYPE_NONE, s5_udp_associated = False,
     s5_family = FAMILY_UNSPEC, auth_user = None, auth_pass = None, cu_fd = 0\<rparr>"

definition hev_socks5_client_udp_construct ::
    "socks5_type \<Rightarrow> 'a client_udp_scheme \<Rightarrow> 'a client_udp_scheme" where
  "hev_socks5_client_udp_construct ty self = (hev_socks5_client_construct ty self)\<lparr>cu_fd := - 1\<rparr>"

definition hev_socks5_client_udp_new :: "socks5_type \<Rightarrow> os \<Rightarrow> os \<times> client_udp option" where
  "hev_socks5_client_udp_new ty os =
     (let (os1, ok) = sys_malloc os in
      (os1, if \<not> ok then None else Some (hev_socks5_client_udp_construct ty client_udp_zero)))"

definition hev_socks5_client_udp_get_upstream_addr ::
    "'a client_udp_scheme \<times> os \<Rightarrow> ('a client_udp_scheme \<times> os) \<times> socks5_addr option" where
  "hev_socks5_client_udp_get_upstream_addr st =
     (case s5_family (fst st) of
        FAMILY_IPV4 \<Rightarrow>
          let (os1, ok) = sys_malloc (snd st)
          in ((fst st, os1), if ok then Some ((replicate 7 0)[0 := HEV_SOCKS5_ADDR_TYPE_IPV4]) else None)
      | FAMILY_IPV6 \<Rightarrow>
          let (os1, ok) = sys_malloc (snd st)
          in ((fst st, os1), if ok then Some ((replicate 19 0)[0 := HEV_SOCKS5_ADDR_TYPE_IPV6]) else None)
      | FAMILY_UNSPEC \<Rightarrow> (st, None))"

definition hev_socks5_client_udp_set_upstream_addr ::
    "socks5_conf \<Rightarrow> resolver \<Rightarrow> (int \<Rightarrow> sockaddr6 \<Rightarrow> os \<Rightarrow> os \<times> int) \<Rightarrow> socks5_addr \<Rightarrow>
     'a client_udp_scheme \<times> os \<Rightarrow> (('a client_udp_scheme \<times> os) \<times> int) option" where
  "hev_socks5_client_udp_set_upstream_addr conf rsv bnd addr st =
     (let self = fst st in
      if s5_type self \<noteq> TYPE_UDP_IN_UDP then Some (st, 0)
      else case hev_socks5_addr_into_sockaddr6 rsv addr (s5_family self) of
        None \<Rightarrow> Some (st, - 1)
      | Some (saddr, _) \<Rightarrow>
          let (os1, fd) = hev_socks5_socket conf SOCK_DGRAM (snd st) in
          if fd < 0 then Some ((self, os1), - 1)
          else
            let (os2, res) = bnd fd saddr os1 in
            if res < 0 then Some ((self, sys_close fd os2), - 1)
            else do {
              (st3, res) \<leftarrow> hev_task_io_socket_connect task_io_yielder fd saddr (self, os2);
              if res < 0 then Some ((fst st3, sys_close fd (snd st3)), - 1)
              else Some (((fst st3)\<lparr>s5_udp_associated := True, cu_fd := fd\<rparr>, snd st3), 0)
            })"

definition hev_socks5_client_udp_get_fd :: "'a client_udp_scheme \<Rightarrow> int" where
  "hev_socks5_client_udp_get_fd self =
     (case s5_type self of
        TYPE_UDP_IN_TCP \<Rightarrow> s5_fd self
      | TYPE_UDP_IN_UDP \<Rightarrow> cu_fd self
      | _ \<Rightarrow> - 1)"

definition hev_socks5_client_udp_destruct :: "'a client_udp_scheme \<Rightarrow> os \<Rightarrow> os" where
  "hev_socks5_client_udp_destruct self os =
     hev_socks5_client_destruct self (if cu_fd self \<ge> 0 then sys_close (cu_fd self) os else os)"

definition hev_socks5_client_udp_class ::
    "socks5_conf \<Rightarrow> resolver \<Rightarrow> (int \<Rightarrow> sockaddr6 \<Rightarrow> os \<Rightarrow> os \<times> int) \<Rightarrow> 'a client_udp_scheme client_class" where
  "hev_socks5_client_udp_class conf rsv bnd =
     \<lparr>klass_binder = bnd, get_upstream_addr = hev_socks5_client_udp_get_upstream_addr,
      set_upstream_addr = hev_socks5_client_udp_set_upstream_addr conf rsv bnd\<rparr>"

end
