(* ===== verification/Socks5ClientProofs.thy ===== *)
theory Socks5ClientProofs
  imports Socks5Client
begin

text \<open>
  What the SOCKS5 client sends and accepts: the messages of RFC 1928 and RFC 1929 as byte lists,
  the effect of each step of the handshake on a connection that delivers a given reply, however
  the reply is cut into pieces, and the resources of a connection attempt.
\<close>

lemma set_timeout_client [simp]:
  "auth_user (hev_socks5_set_timeout t s) = auth_user s"
  "auth_pass (hev_socks5_set_timeout t s) = auth_pass s"
  "has_auth (hev_socks5_set_timeout t s) = has_auth s"
  by (simp_all add: hev_socks5_set_timeout_def has_auth_def)

lemma set_timeout_tcp [simp]: "ct_addr (hev_socks5_set_timeout t s) = ct_addr s"
  by (simp add: hev_socks5_set_timeout_def)

section \<open>A connection that delivers\<close>

text \<open>
  The script delivers \<^term>\<open>n\<close> bytes: in any number of pieces, with waits in between that end before
  the timeout and without a termination.
\<close>

fun delivers :: "nat \<Rightarrow> rx_ev list \<Rightarrow> wait list \<Rightarrow> bool" where
  "delivers 0 rx ws = True"
| "delivers (Suc n) (RxData bs # rx) ws \<longleftrightarrow> bs \<noteq> [] \<and> delivers (Suc n - length bs) rx ws"
| "delivers (Suc n) (RxAgain # rx) (w # ws) \<longleftrightarrow> 0 < slept w \<and> \<not> terminated w \<and> delivers (Suc n) rx ws"
| "delivers (Suc n) rx ws = False"

definition tx_room :: "int \<Rightarrow> nat \<Rightarrow> os \<Rightarrow> bool" where
  "tx_room fd n a \<longleftrightarrow> n = 0 \<or> (case os_tx a fd of TxRoom k # _ \<Rightarrow> n \<le> k | _ \<Rightarrow> False)"

lemma delivers_mono: "delivers n rx ws \<Longrightarrow> m \<le> n \<Longrightarrow> delivers m rx ws"
proof (induction n rx ws arbitrary: m rule: delivers.induct)
  case (2 n bs rx ws)
  then show ?case by (cases m) auto
next
  case (3 n rx w ws)
  then show ?case by (cases m) auto
qed auto

lemma recv_loop_ok:
  assumes "sys_recv fd (len - length acc) a = (b, SysOk bs)" "bs \<noteq> []"
  shows "recv_loop yld fd len True dw (s, a) acc =
    (if length (acc @ bs) < len then recv_loop yld fd len True dw (s, b) (acc @ bs)
     else Some ((s, b), acc @ bs, int (length (acc @ bs))))"
  using assms by (subst recv_loop.simps) simp

lemma recv_loop_again:
  assumes "sys_recv fd (len - length acc) a = (b, SysAgain)" "yld HEV_TASK_WAITIO (s, b) = Some (st, 0)"
  shows "recv_loop yld fd len wa False (s, a) acc = recv_loop yld fd len wa False st acc"
  using assms by (subst recv_loop.simps) simp

lemma recv_delivers:
  assumes "delivers (len - length acc + n) (os_rx a fd) (os_waits a)" "length acc < len" "s5_timeout s \<noteq> 0"
  shows "\<exists>b. recv_loop hev_socks5_task_io_yielder fd len True False (s, a) acc =
        Some ((s, b), acc @ take (len - length acc) (rx_bytes (os_rx a fd)), int len) \<and>
      rx_bytes (os_rx b fd) = drop (len - length acc) (rx_bytes (os_rx a fd)) \<and>
      delivers n (os_rx b fd) (os_waits b) \<and> io_only a b \<and> os_out b = os_out a \<and> os_tx b = os_tx a"
  using assms
proof (induction "os_rx a fd" arbitrary: a acc)
  case Nil
  then show ?case by (cases "len - length acc + n") auto
next
  case (Cons e rx)
  note rx = Cons.hyps(2) [symmetric]
  obtain m where m: "len - length acc + n = Suc m" using Cons.prems(2) by (cases "len - length acc") auto
  show ?case
  proof (cases e)
    case (RxData bs)
    let ?k = "len - length acc"
    have bs: "bs \<noteq> []" and d: "delivers (?k + n - length bs) rx (os_waits a)"
      using Cons.prems(1) unfolding rx RxData m by auto
    show ?thesis
    proof (cases "length bs < ?k")
      case True
      let ?b = "a\<lparr>os_rx := (os_rx a)(fd := rx)\<rparr>"
      have sr: "sys_recv fd ?k a = (?b, SysOk bs)" using True by (simp add: sys_recv_def rx RxData)
      have "delivers (len - length (acc @ bs) + n) (os_rx ?b fd) (os_waits ?b)"
      proof -
        have "len - length (acc @ bs) + n = ?k + n - length bs" using True by simp
        then show ?thesis using d by simp
      qed
      moreover have lt: "length (acc @ bs) < len" using True by simp
      ultimately obtain c where
        "recv_loop hev_socks5_task_io_yielder fd len True False (s, ?b) (acc @ bs) =
           Some ((s, c), (acc @ bs) @ take (?k - length bs) (rx_bytes rx), int len)"
        "rx_bytes (os_rx c fd) = drop (?k - length bs) (rx_bytes rx)"
        "delivers n (os_rx c fd) (os_waits c)" "io_only ?b c" "os_out c = os_out a" "os_tx c = os_tx a"
        using Cons.hyps(1) [of ?b "acc @ bs"] Cons.prems(3) by auto
      then show ?thesis
        unfolding recv_loop_ok [OF sr bs] using True
        by (auto simp: rx RxData io_only_def intro!: exI [of _ c])
    next
      case False
      let ?r = "if length bs \<le> ?k then rx else RxData (drop ?k bs) # rx"
      let ?b = "a\<lparr>os_rx := (os_rx a)(fd := ?r)\<rparr>"
      have sr: "sys_recv fd ?k a = (?b, SysOk (take ?k bs))" using False by (simp add: sys_recv_def rx RxData)
      have "delivers n ?r (os_waits a)"
        using d False by (cases n) (auto simp: Suc_diff_le add.commute)
      then show ?thesis
        unfolding recv_loop_ok [OF sr, of _ _ s] using False bs Cons.prems(2) recv_loop_ok [OF sr]
        by (auto simp: rx RxData io_only_def intro!: exI [of _ ?b])
    qed
  next
    case RxAgain
    obtain w ws where w: "os_waits a = w # ws" "0 < slept w" "\<not> terminated w"
      and d: "delivers (len - length acc + n) rx ws"
      using Cons.prems(1) unfolding rx RxAgain m by (cases "os_waits a") auto
    let ?b = "a\<lparr>os_rx := (os_rx a)(fd := rx), os_again := True\<rparr>" and ?c = "a\<lparr>os_rx := (os_rx a)(fd := rx), os_again := True, os_waits := ws\<rparr>"
    have sr: "sys_recv fd (len - length acc) a = (?b, SysAgain)" by (simp add: sys_recv_def rx RxAgain)
    have y: "hev_socks5_task_io_yielder HEV_TASK_WAITIO (s, ?b) = Some ((s, ?c), 0)"
      using w Cons.prems(3) by (auto simp: hev_socks5_task_io_yielder_def)
    have "delivers (len - length acc + n) (os_rx ?c fd) (os_waits ?c)" using d by simp
    from Cons.hyps(1) [OF _ this Cons.prems(2,3)] show ?thesis
      unfolding recv_loop_again [of fd len acc a _ hev_socks5_task_io_yielder, OF sr y]
      by (auto simp: rx RxAgain io_only_def)
  qed (use Cons.prems(1) rx m in auto)
qed

text \<open>The connection answers with \<^term>\<open>inp\<close> and takes \<^term>\<open>n\<close> more bytes.\<close>

definition answering :: "int \<Rightarrow> 'a socks5_scheme \<Rightarrow> os \<Rightarrow> byte list \<Rightarrow> nat \<Rightarrow> bool" where
  "answering fd s a inp n \<longleftrightarrow>
     s5_timeout s \<noteq> 0 \<and> delivers (length inp) (os_rx a fd) (os_waits a) \<and>
     take (length inp) (rx_bytes (os_rx a fd)) = inp \<and> tx_room fd n a"

definition sent :: "int \<Rightarrow> byte list \<Rightarrow> os \<Rightarrow> os \<Rightarrow> bool" where
  "sent fd msg a b \<longleftrightarrow> os_out b = (os_out a)(fd := os_out a fd @ msg) \<and> os_open b = os_open a \<and>
     os_calls b = os_calls a \<and> os_conn b = os_conn a \<and> os_peer b = os_peer a"

lemma sent_trans: "sent fd m a b \<Longrightarrow> sent fd m' b c \<Longrightarrow> sent fd (m @ m') a c"
  by (simp add: sent_def)

lemma recv_answer:
  assumes "answering fd s a (msg @ inp) n" "msg \<noteq> []" "len = length msg"
  shows "\<exists>b. hev_task_io_socket_recv hev_socks5_task_io_yielder fd len True False (s, a) =
      Some ((s, b), msg, int (length msg)) \<and> answering fd s b inp n \<and> sent fd [] a b"
proof -
  have d: "delivers (length msg - length ([] :: byte list) + length inp) (os_rx a fd) (os_waits a)"
    and l: "length ([] :: byte list) < length msg" and t: "s5_timeout s \<noteq> 0"
    using assms unfolding answering_def by auto
  obtain rest where "rx_bytes (os_rx a fd) = msg @ inp @ rest"
    using assms(1) unfolding answering_def by (metis append.assoc append_take_drop_id)
  then have m: "take (length msg) (rx_bytes (os_rx a fd)) = msg"
    "take (length inp) (drop (length msg) (rx_bytes (os_rx a fd))) = inp"
    by simp_all
  show ?thesis
    using recv_delivers [OF d l t] m assms(1,3)
    unfolding answering_def sent_def hev_task_io_socket_recv_def tx_room_def
    by (auto simp: io_only_def)
qed

lemma send_answer:
  assumes "answering fd s a inp (length msg + n)" "msg \<noteq> []"
  shows "\<exists>b. hev_task_io_socket_send hev_socks5_task_io_yielder fd msg (s, a) =
      Some ((s, b), int (length msg)) \<and> answering fd s b inp n \<and> sent fd msg a b"
proof -
  obtain k r where k: "os_tx a fd = TxRoom k # r" "length msg + n \<le> k"
    using assms unfolding answering_def tx_room_def by (auto split: list.splits tx_ev.splits)
  then have m: "min k (length msg) = length msg" by simp
  show ?thesis
    unfolding hev_task_io_socket_send_def
    by (subst send_loop.simps)
      (use k m assms in \<open>auto simp: sys_send_def Let_def sent_def answering_def tx_room_def\<close>)
qed

section \<open>The messages\<close>

definition methods_msg :: "'a socks5_client_scheme \<Rightarrow> byte list" where
  "methods_msg self = [5, 1, if has_auth self then 2 else 0]"

definition creds_msg :: "'a socks5_client_scheme \<Rightarrow> byte list" where
  "creds_msg self =
     (case (auth_user self, auth_pass self) of
        (Some u, Some p) \<Rightarrow> [1, of_nat (length u)] @ u @ [of_nat (length p)] @ p
      | _ \<Rightarrow> [])"

definition request_msg :: "byte \<Rightarrow> byte list \<Rightarrow> byte list" where
  "request_msg cmd addr = [5, cmd, 0] @ addr"

lemma length_request_msg [simp]: "length (request_msg cmd addr) = 3 + length addr" "request_msg cmd addr \<noteq> []"
  by (simp_all add: request_msg_def)

text \<open>A reply that grants the request, for the method the server chose.\<close>

definition reply_msg :: "byte \<Rightarrow> byte \<Rightarrow> byte \<Rightarrow> byte list \<Rightarrow> byte list" where
  "reply_msg m rsv atype bnd =
     [5, m] @ (if m = 2 then [1, 0] else []) @ [5, 0, rsv, atype] @ bnd"

definition bnd_ok :: "byte \<Rightarrow> byte list \<Rightarrow> bool" where
  "bnd_ok atype bnd \<longleftrightarrow> atype = 1 \<and> length bnd = 6 \<or> atype = 4 \<and> length bnd = 18"

text \<open>Credentials of at most 255 bytes.\<close>

definition auth_ok :: "'a socks5_client_scheme \<Rightarrow> bool" where
  "auth_ok self \<longleftrightarrow> (case auth_user self of None \<Rightarrow> True | Some u \<Rightarrow> length u < 256) \<and>
     (case auth_pass self of None \<Rightarrow> True | Some p \<Rightarrow> length p < 256)"

section \<open>The steps on a connection that answers\<close>

lemma write_auth_methods_ok:
  assumes "answering (s5_fd s) s a inp (length (methods_msg s) + n)"
  shows "\<exists>b. hev_socks5_client_write_auth_methods (s, a) = Some ((s, b), 0) \<and>
      answering (s5_fd s) s b inp n \<and> sent (s5_fd s) (methods_msg s) a b"
  using send_answer [OF assms]
  by (auto simp: methods_msg_def hev_socks5_client_write_auth_methods_def proto_consts)

lemma write_auth_creds_ok:
  assumes "answering (s5_fd s) s a inp (length (creds_msg s) + n)" "auth_ok s"
  shows "\<exists>b. hev_socks5_client_write_auth_creds (s, a) = Some ((s, b), 0) \<and>
      answering (s5_fd s) s b inp n \<and> sent (s5_fd s) (creds_msg s) a b"
proof (cases "has_auth s")
  case True
  then obtain u p where up: "auth_user s = Some u" "auth_pass s = Some p" by (auto simp: has_auth_def)
  then have l: "length u < 256" "length p < 256" using assms(2) by (auto simp: auth_ok_def)
  show ?thesis
    using send_answer [OF assms(1)] l up
    by (auto simp: creds_msg_def hev_socks5_client_write_auth_creds_def sendmsg_is_send proto_consts
        unat_of_nat_byte)
next
  case False
  then show ?thesis using assms(1)
    by (auto simp: creds_msg_def hev_socks5_client_write_auth_creds_def has_auth_def sent_def
        split: option.splits)
qed

lemma read_auth_method_ok:
  assumes "answering (s5_fd s) s a ([5, m] @ inp) n"
  shows "\<exists>b. hev_socks5_client_read_auth_method (s, a) = Some ((s, b), uint m) \<and>
      answering (s5_fd s) s b inp n \<and> sent (s5_fd s) [] a b"
  using recv_answer [OF assms, of 2]
  by (auto simp: hev_socks5_client_read_auth_method_def proto_consts)

lemma read_auth_creds_ok:
  assumes "answering (s5_fd s) s a ([1, 0] @ inp) n"
  shows "\<exists>b. hev_socks5_client_read_auth_creds (s, a) = Some ((s, b), 0) \<and>
      answering (s5_fd s) s b inp n \<and> sent (s5_fd s) [] a b"
  using recv_answer [OF assms, of 2]
  by (auto simp: hev_socks5_client_read_auth_creds_def proto_consts)

text \<open>From here on the client is a TCP client, which knows the address to ask for.\<close>

lemma write_request_ok:
  assumes "answering (s5_fd s) s a inp (3 + length w + n)" "s5_type s = TYPE_TCP"
    and "ct_addr s = Some w" "hev_socks5_addr_len w = int (length w)"
  shows "\<exists>b. hev_socks5_client_write_request (hev_socks5_client_tcp_class bnd) (s, a) =
        Some ((s\<lparr>ct_addr := None\<rparr>, b), 0) \<and>
      answering (s5_fd s) (s\<lparr>ct_addr := None\<rparr>) b inp n \<and> sent (s5_fd s) (request_msg 1 w) a b"
proof -
  let ?s = "s\<lparr>ct_addr := None\<rparr>"
  have "answering (s5_fd s) ?s a inp (length (request_msg 1 w) + n)"
    using assms(1) by (simp add: answering_def)
  from send_answer [OF this] obtain b where b:
    "hev_task_io_socket_send hev_socks5_task_io_yielder (s5_fd s) (request_msg 1 w) (?s, a) =
       Some ((?s, b), int (length (request_msg 1 w)))"
    "answering (s5_fd s) ?s b inp n" "sent (s5_fd s) (request_msg 1 w) a b"
    by auto
  then have "answering (s5_fd s) ?s (sys_free b) inp n" "sent (s5_fd s) (request_msg 1 w) a (sys_free b)"
    by (simp_all add: answering_def sent_def sys_free_def tx_room_def)
  then show ?thesis using b(1) assms
    by (auto simp: hev_socks5_client_write_request_def req_cmd_def hev_socks5_client_tcp_class_def
        hev_socks5_client_tcp_get_upstream_addr_def sendmsg_is_send request_msg_def proto_consts)
qed

lemma read_response_ok:
  assumes "answering (s5_fd s) s a ([5, 0, rsv, atype] @ bs @ inp) n" "bnd_ok atype bs"
  shows "\<exists>b. hev_socks5_client_read_response (hev_socks5_client_tcp_class bnd) (s, a) = Some ((s, b), 0) \<and>
      answering (s5_fd s) s b inp n \<and> sent (s5_fd s) [] a b"
proof -
  obtain b where b: "hev_task_io_socket_recv hev_socks5_task_io_yielder (s5_fd s) 4 True False (s, a) =
      Some ((s, b), [5, 0, rsv, atype], 4)" "answering (s5_fd s) s b (bs @ inp) n" "sent (s5_fd s) [] a b"
    using recv_answer [OF assms(1), of 4] by auto
  have "bs \<noteq> []" using assms(2) by (auto simp: bnd_ok_def)
  then obtain c where c: "hev_task_io_socket_recv hev_socks5_task_io_yielder (s5_fd s) (length bs) True False (s, b) =
      Some ((s, c), bs, int (length bs))" "answering (s5_fd s) s c inp n" "sent (s5_fd s) [] b c"
    using recv_answer [OF b(2) _ refl] by blast
  show ?thesis using b c assms(2) sent_trans [OF b(3) c(3)]
    by (auto simp: hev_socks5_client_read_response_def bnd_ok_def addr_types proto_consts
        hev_socks5_client_tcp_class_def hev_socks5_client_tcp_set_upstream_addr_def)
qed

section \<open>The handshake\<close>

definition client_out :: "'a client_tcp_scheme \<Rightarrow> byte list \<Rightarrow> byte list" where
  "client_out s w = methods_msg s @ creds_msg s @ request_msg 1 w"

lemma msg_update [simp]:
  "methods_msg (s\<lparr>ct_addr := x\<rparr>) = methods_msg s" "creds_msg (s\<lparr>ct_addr := x\<rparr>) = creds_msg s"
  "has_auth (s\<lparr>ct_addr := x\<rparr>) = has_auth s"
  by (simp_all add: methods_msg_def creds_msg_def has_auth_def)

lemma handshake_pipeline_ok:
  assumes "answering (s5_fd s) s a (reply_msg m rsv atype bs @ inp) (length (client_out s w) + n)"
    and "m = 0 \<or> m = 2" "bnd_ok atype bs" "s5_type s = TYPE_TCP" "auth_ok s"
    and "ct_addr s = Some w" "hev_socks5_addr_len w = int (length w)"
  shows "\<exists>b. hev_socks5_client_handshake_pipeline (hev_socks5_client_tcp_class bnd) (s, a) =
        Some ((s\<lparr>ct_addr := None\<rparr>, b), 0) \<and>
      answering (s5_fd s) (s\<lparr>ct_addr := None\<rparr>) b inp n \<and> sent (s5_fd s) (client_out s w) a b"
proof -
  let ?fd = "s5_fd s" and ?s = "s\<lparr>ct_addr := None\<rparr>" and ?K = "hev_socks5_client_tcp_class bnd"
  note in0 = assms(1) [unfolded client_out_def, simplified add.assoc length_append]
  obtain a1 where 1: "hev_socks5_client_write_auth_methods (s, a) = Some ((s, a1), 0)"
    "sent ?fd (methods_msg s) a a1" and in1: "answering ?fd s a1 (reply_msg m rsv atype bs @ inp)
      (length (creds_msg s) + (3 + length w + n))"
    using write_auth_methods_ok [OF in0] by auto
  obtain a2 where 2: "hev_socks5_client_write_auth_creds (s, a1) = Some ((s, a2), 0)"
    "sent ?fd (creds_msg s) a1 a2" and in2: "answering ?fd s a2 (reply_msg m rsv atype bs @ inp) (3 + length w + n)"
    using write_auth_creds_ok [OF in1 assms(5)] by auto
  obtain a3 where 3: "hev_socks5_client_write_request ?K (s, a2) = Some ((?s, a3), 0)"
    "sent ?fd (request_msg 1 w) a2 a3" and in3: "answering ?fd ?s a3 (reply_msg m rsv atype bs @ inp) n"
    using write_request_ok [OF in2 assms(4,6,7)] by auto
  obtain a4 where 4: "hev_socks5_client_read_auth_method (?s, a3) = Some ((?s, a4), uint m)"
    "sent ?fd [] a3 a4" and in4: "answering ?fd ?s a4 ((if m = 2 then [1, 0] else []) @ [5, 0, rsv, atype] @ bs @ inp) n"
    using read_auth_method_ok [of ?s a3 m "(if m = 2 then [1, 0] else []) @ [5, 0, rsv, atype] @ bs @ inp" n] in3
    by (auto simp: reply_msg_def)
  obtain a5 where 5: "(if m = 2 then hev_socks5_client_read_auth_creds (?s, a4) else Some ((?s, a4), 0)) = Some ((?s, a5), 0)"
    "sent ?fd [] a4 a5" and in5: "answering ?fd ?s a5 ([5, 0, rsv, atype] @ bs @ inp) n"
    using read_auth_creds_ok [of ?s a4 "[5, 0, rsv, atype] @ bs @ inp" n] in4 by (cases "m = 2") (auto simp: sent_def)
  obtain a6 where 6: "hev_socks5_client_read_response ?K (?s, a5) = Some ((?s, a6), 0)"
    "sent ?fd [] a5 a6" and in6: "answering ?fd ?s a6 inp n"
    using read_response_ok [of ?s a5 rsv atype bs inp n bnd] in5 assms(3) by auto
  have "sent ?fd (client_out s w) a a6"
    using 1(2) 2(2) 3(2) 4(2) 5(2) 6(2) by (simp add: sent_def client_out_def)
  then show ?thesis using 1 2 3 4 5 6 in6 assms(2)
    by (auto simp: hev_socks5_client_handshake_pipeline_def proto_consts split: if_splits)
qed

lemma handshake_standard_ok:
  assumes "answering (s5_fd s) s a (reply_msg m rsv atype bs @ inp) (length (client_out s w) + n)"
    and "m = (if has_auth s then 2 else 0)" "bnd_ok atype bs" "s5_type s = TYPE_TCP" "auth_ok s"
    and "ct_addr s = Some w" "hev_socks5_addr_len w = int (length w)"
  shows "\<exists>b. hev_socks5_client_handshake_standard (hev_socks5_client_tcp_class bnd) (s, a) =
        Some ((s\<lparr>ct_addr := None\<rparr>, b), 0) \<and>
      answering (s5_fd s) (s\<lparr>ct_addr := None\<rparr>) b inp n \<and> sent (s5_fd s) (client_out s w) a b"
proof -
  let ?fd = "s5_fd s" and ?s = "s\<lparr>ct_addr := None\<rparr>" and ?K = "hev_socks5_client_tcp_class bnd"
  let ?tl = "(if m = 2 then [1, 0] else []) @ [5, 0, rsv, atype] @ bs @ inp"
  note in0 = assms(1) [unfolded client_out_def, simplified add.assoc length_append]
  have nc: "\<not> has_auth s \<Longrightarrow> creds_msg s = []"
    by (auto simp: has_auth_def creds_msg_def split: option.splits)
  obtain a1 where 1: "hev_socks5_client_write_auth_methods (s, a) = Some ((s, a1), 0)"
    "sent ?fd (methods_msg s) a a1" and in1: "answering ?fd s a1 (reply_msg m rsv atype bs @ inp)
      (length (creds_msg s) + (3 + length w + n))"
    using write_auth_methods_ok [OF in0] by auto
  obtain a2 where 2: "hev_socks5_client_read_auth_method (s, a1) = Some ((s, a2), uint m)"
    "sent ?fd [] a1 a2" and in2: "answering ?fd s a2 ?tl (length (creds_msg s) + (3 + length w + n))"
    using read_auth_method_ok [of s a1 m ?tl] in1 by (auto simp: reply_msg_def)
  obtain a3 where 3: "hev_socks5_client_write_auth_creds (s, a2) = Some ((s, a3), 0)"
    "sent ?fd (creds_msg s) a2 a3" and in3: "answering ?fd s a3 ?tl (3 + length w + n)"
    and same: "\<not> has_auth s \<Longrightarrow> a3 = a2"
    using write_auth_creds_ok [OF in2 assms(5)]
    by (auto simp: hev_socks5_client_write_auth_creds_def has_auth_def split: option.splits)
  obtain a4 where 4: "(if m = 2 then hev_socks5_client_read_auth_creds (s, a3) else Some ((s, a3), 0)) = Some ((s, a4), 0)"
    "sent ?fd [] a3 a4" and in4: "answering ?fd s a4 ([5, 0, rsv, atype] @ bs @ inp) (3 + length w + n)"
    using read_auth_creds_ok [of s a3 "[5, 0, rsv, atype] @ bs @ inp"] in3 by (cases "m = 2") (auto simp: sent_def)
  obtain a5 where 5: "hev_socks5_client_write_request ?K (s, a4) = Some ((?s, a5), 0)"
    "sent ?fd (request_msg 1 w) a4 a5" and in5: "answering ?fd ?s a5 ([5, 0, rsv, atype] @ bs @ inp) n"
    using write_request_ok [OF in4 assms(4,6,7)] by auto
  obtain a6 where 6: "hev_socks5_client_read_response ?K (?s, a5) = Some ((?s, a6), 0)"
    "sent ?fd [] a5 a6" and in6: "answering ?fd ?s a6 inp n"
    using read_response_ok [of ?s a5 rsv atype bs inp n bnd] in5 assms(3) by auto
  have "sent ?fd (client_out s w) a a6"
    using 1(2) 2(2) 3(2) 4(2) 5(2) 6(2) by (simp add: sent_def client_out_def)
  then show ?thesis using 1 2 3 4 5 6 in6 assms(2) same
    by (cases "has_auth s") (auto simp: hev_socks5_client_handshake_standard_def proto_consts)
qed

section \<open>What a handshake that succeeds has read\<close>

definition reads :: "byte list \<Rightarrow> 'a socks5_scheme \<times> os \<Rightarrow> 'a socks5_scheme \<times> os \<Rightarrow> bool" where
  "reads msg st st' \<longleftrightarrow> s5_fd (fst st') = s5_fd (fst st) \<and>
     rx_bytes (os_rx (snd st) (s5_fd (fst st))) = msg @ rx_bytes (os_rx (snd st') (s5_fd (fst st)))"

lemma reads_refl [simp]: "reads [] st st"
  by (simp add: reads_def)

lemma reads_trans: "reads m st st' \<Longrightarrow> reads m' st' st'' \<Longrightarrow> reads (m @ m') st st''"
  by (simp add: reads_def)

lemma reads_nil: "reads [] st st' \<Longrightarrow> reads m st' st'' \<Longrightarrow> reads m st st''"
  by (simp add: reads_def)

lemma reads_then_nil: "reads m st st' \<Longrightarrow> reads [] st' st'' \<Longrightarrow> reads m st st''"
  by (simp add: reads_def)

lemma recv_reads:
  assumes "hev_task_io_socket_recv hev_socks5_task_io_yielder (s5_fd (fst st)) len True False st = Some (st', bs, int len)"
  shows "reads bs st st' \<and> length bs = len"
  using ty.recv_sound [OF assms] ty.recv_same [OF assms]
  by (auto simp: recv_post_def reads_def dest: keptD)

lemma send_reads:
  assumes "hev_task_io_socket_send hev_socks5_task_io_yielder (s5_fd (fst st)) msg st = Some (st', n)"
  shows "reads [] st st'"
  using ty.send_sound [OF assms] ty.send_same [OF assms]
  by (auto simp: send_post_def reads_def dest: keptD)

lemma write_auth_methods_reads:
  "hev_socks5_client_write_auth_methods st = Some (st', r) \<Longrightarrow> reads [] st st'"
  by (auto simp: hev_socks5_client_write_auth_methods_def split: bind_splits prod.splits dest: send_reads)

lemma write_auth_creds_reads:
  "hev_socks5_client_write_auth_creds st = Some (st', r) \<Longrightarrow> reads [] st st'"
  by (auto simp: hev_socks5_client_write_auth_creds_def sendmsg_is_send Let_def
      split: bind_splits prod.splits option.splits dest: send_reads)

lemma write_request_reads:
  assumes "hev_socks5_client_write_request (hev_socks5_client_tcp_class bnd) st = Some (st', r)"
  shows "reads [] st st'"
proof -
  let ?st = "((fst st)\<lparr>ct_addr := None\<rparr>, snd st)"
  have "reads [] st ?st" by (simp add: reads_def)
  moreover have "reads [] st' (fst st', sys_free (snd st'))" by (simp add: reads_def sys_free_def)
  ultimately show ?thesis using assms send_reads [of ?st]
    by (auto simp: hev_socks5_client_write_request_def hev_socks5_client_tcp_class_def Let_def sys_free_def reads_def
        hev_socks5_client_tcp_get_upstream_addr_def sendmsg_is_send
        split: option.splits bind_splits if_splits)
qed

lemma two_bytes: "length bs = 2 \<Longrightarrow> bs = [bs ! 0, bs ! 1]"
  by (auto simp: numeral_2_eq_2 length_Suc_conv)

lemma four_bytes: "length bs = 4 \<Longrightarrow> bs = [bs ! 0, bs ! 1, bs ! 2, bs ! 3]"
  by (auto simp: numeral_eq_Suc length_Suc_conv)

lemma read_auth_method_reads:
  assumes "hev_socks5_client_read_auth_method st = Some (st', m)" "0 \<le> m"
  shows "\<exists>mb. m = uint mb \<and> reads [5, mb] st st'"
  using assms recv_reads [of st 2] two_bytes
  by (fastforce simp: hev_socks5_client_read_auth_method_def proto_consts split: bind_splits if_splits)

lemma read_auth_creds_reads:
  assumes "hev_socks5_client_read_auth_creds st = Some (st', r)" "0 \<le> r"
  shows "reads [1, 0] st st'"
  using assms recv_reads [of st 2] two_bytes
  by (fastforce simp: hev_socks5_client_read_auth_creds_def proto_consts split: bind_splits if_splits)

lemma read_response_reads:
  assumes "hev_socks5_client_read_response (hev_socks5_client_tcp_class bnd) st = Some (st', r)" "0 \<le> r"
  shows "\<exists>rsv atype bs. bnd_ok atype bs \<and> reads ([5, 0, rsv, atype] @ bs) st st'"
proof -
  obtain st1 h bs where h: "hev_task_io_socket_recv hev_socks5_task_io_yielder (s5_fd (fst st)) 4 True False st = Some (st1, h, int 4)"
    and b: "hev_task_io_socket_recv hev_socks5_task_io_yielder (s5_fd (fst st1)) (if h ! 3 = 1 then 6 else 18) True False st1 =
      Some (st', bs, int (if h ! 3 = 1 then 6 else 18))"
    and v: "h ! 0 = 5" "h ! 1 = 0" "h ! 3 = 1 \<or> h ! 3 = 4"
    using assms
    by (auto simp: hev_socks5_client_read_response_def proto_consts addr_types hev_socks5_client_tcp_class_def
        hev_socks5_client_tcp_set_upstream_addr_def split: bind_splits if_splits)
  have "bnd_ok (h ! 3) bs" using recv_reads [OF b] v(3) by (auto simp: bnd_ok_def)
  moreover have "reads (h @ bs) st st'"
    using reads_trans recv_reads [OF h] recv_reads [OF b] by blast
  ultimately show ?thesis using recv_reads [OF h] four_bytes v(1,2) by metis
qed

lemma replyI:
  assumes "reads [5, mb] st st'" "reads (if mb = 2 then [1, 0] else []) st' st''"
    and "reads ([5, 0, rsv, atype] @ bs) st'' st3"
  shows "reads (reply_msg mb rsv atype bs) st st3"
  using reads_trans [OF reads_trans [OF assms(1,2)] assms(3)] by (simp add: reply_msg_def)

lemma uint_byte_eq: "uint (m :: byte) = 2 \<longleftrightarrow> m = 2" "uint (m :: byte) = 0 \<longleftrightarrow> m = 0"
  by (simp_all add: word_uint_eq_iff)

definition granted :: "'a socks5_scheme \<times> os \<Rightarrow> 'a socks5_scheme \<times> os \<Rightarrow> bool" where
  "granted st st' \<longleftrightarrow>
     (\<exists>m rsv atype bs. (m = 0 \<or> m = 2) \<and> bnd_ok atype bs \<and> reads (reply_msg m rsv atype bs) st st')"

lemma grantedI:
  assumes 4: "hev_socks5_client_read_auth_method st3 = Some (st4, m)"
    and 6: "hev_socks5_client_read_response (hev_socks5_client_tcp_class bnd) st5 = Some (st', r6)"
    and pos: "0 \<le> m" "m = 2 \<or> m = 0" "0 \<le> r6"
    and w: "reads [] st st3" and 5: "reads (if m = 2 then [1, 0] else []) st4 st5"
  shows "granted st st'"
proof -
  obtain mb where m: "m = uint mb" "reads [5, mb] st3 st4" using read_auth_method_reads [OF 4 pos(1)] by blast
  have c: "reads (if mb = 2 then [1, 0] else []) st4 st5"
    using 5 m(1) by (simp add: uint_byte_eq)
  obtain rsv atype bs where r: "bnd_ok atype bs" "reads ([5, 0, rsv, atype] @ bs) st5 st'"
    using read_response_reads [OF 6 pos(3)] by blast
  have "reads (reply_msg mb rsv atype bs) st st'"
    using reads_trans [OF w replyI [OF m(2) c r(2)]] by simp
  then show ?thesis using r(1) pos(2) m(1) uint_byte_eq [of mb] unfolding granted_def by metis
qed

lemmas write_reads = write_auth_methods_reads write_auth_creds_reads write_request_reads read_auth_creds_reads

lemma handshake_pipeline_reads:
  assumes "hev_socks5_client_handshake_pipeline (hev_socks5_client_tcp_class bnd) st = Some (st', 0)"
  shows "granted st st'"
  using assms
  apply (clarsimp simp: hev_socks5_client_handshake_pipeline_def proto_consts not_less bind_eq_Some_conv
      split: if_splits)
   apply (rule grantedI, assumption, assumption; auto dest!: write_reads intro: reads_nil reads_then_nil)
  apply (rule grantedI, assumption, assumption; auto dest!: write_reads intro: reads_nil reads_then_nil)
  done

lemma handshake_standard_reads:
  assumes "hev_socks5_client_handshake_standard (hev_socks5_client_tcp_class bnd) st = Some (st', 0)"
  shows "granted st st'"
  using assms
  apply (clarsimp simp: hev_socks5_client_handshake_standard_def proto_consts not_less bind_eq_Some_conv
      split: if_splits)
   apply (rule grantedI, assumption, assumption; auto dest!: write_reads intro: reads_nil reads_then_nil)
  apply (rule grantedI, assumption, assumption; auto dest!: write_reads intro: reads_nil reads_then_nil)
  done

lemma granted_timeout:
  "granted (hev_socks5_set_timeout t s, a) (s', b) \<longleftrightarrow> granted (s, a) (s', b)"
  "granted (s, a) (hev_socks5_set_timeout t s', b) \<longleftrightarrow> granted (s, a) (s', b)"
  by (simp_all add: granted_def reads_def)

section \<open>The handshake returns\<close>

text \<open>The calls return, with an object that still has a deadline and is otherwise the same.\<close>

definition comes_back :: "'a socks5_scheme \<Rightarrow> (('a socks5_scheme \<times> os) \<times> 'r) option \<Rightarrow> bool" where
  "comes_back s m \<longleftrightarrow> (\<exists>s' b r. m = Some ((s', b), r) \<and> 0 \<le> s5_timeout s' \<and> kept s s')"

lemma comes_backI: "m = Some ((s', b), r) \<Longrightarrow> 0 \<le> s5_timeout s' \<Longrightarrow> kept s s' \<Longrightarrow> comes_back s m"
  by (auto simp: comes_back_def)

lemma comes_back_bind:
  assumes "comes_back s m" "\<And>s' b r. 0 \<le> s5_timeout s' \<Longrightarrow> kept s s' \<Longrightarrow> comes_back s' (f ((s', b), r))"
  shows "comes_back s (Option.bind m f)"
  using assms unfolding comes_back_def by (fastforce intro: kept_trans)

lemma recv_comes_back:
  assumes "0 \<le> s5_timeout s"
  shows "comes_back s (hev_task_io_socket_recv hev_socks5_task_io_yielder fd len wa dw (s, a))"
proof -
  obtain s' b bs n where "recv_loop hev_socks5_task_io_yielder fd len wa dw (s, a) [] = Some ((s', b), bs, n)"
    "0 \<le> s5_timeout s'"
    using ty.recv_returns [OF assms, of "[]" len fd wa dw a] by auto
  then show ?thesis
    using ty.recv_same [of fd len wa dw "(s, a)" "((s', b), bs, n)"]
    by (auto simp: hev_task_io_socket_recv_def intro!: comes_backI)
qed

lemma send_comes_back:
  assumes "0 \<le> s5_timeout s"
  shows "comes_back s (hev_task_io_socket_send hev_socks5_task_io_yielder fd buf (s, a))"
proof -
  obtain s' b n where "send_loop hev_socks5_task_io_yielder fd buf (s, a) 0 = Some ((s', b), n)" "0 \<le> s5_timeout s'"
    using ty.send_returns [OF assms, of fd buf a 0] by auto
  then show ?thesis
    using ty.send_same [of fd buf "(s, a)" "((s', b), n)"]
    by (auto simp: hev_task_io_socket_send_def intro!: comes_backI)
qed

lemma comes_back_here: "0 \<le> s5_timeout s \<Longrightarrow> comes_back s (Some ((s, a), r))"
  by (rule comes_backI) auto

lemmas back_intros = comes_back_bind recv_comes_back send_comes_back comes_back_here

lemma client_write_back:
  assumes "0 \<le> s5_timeout s"
  shows "comes_back s (hev_socks5_client_write_auth_methods (s, a))"
    "comes_back s (hev_socks5_client_write_auth_creds (s, a))"
  using assms
  by (auto simp: hev_socks5_client_write_auth_methods_def hev_socks5_client_write_auth_creds_def
      sendmsg_is_send Let_def split: option.splits intro!: back_intros)

lemma client_read_back:
  assumes "0 \<le> s5_timeout s"
  shows "comes_back s (hev_socks5_client_read_auth_method (s, a))"
    "comes_back s (hev_socks5_client_read_auth_creds (s, a))"
  using assms
  by (auto simp: hev_socks5_client_read_auth_method_def hev_socks5_client_read_auth_creds_def
      intro!: back_intros)

lemma client_response_back:
  assumes "0 \<le> s5_timeout s"
  shows "comes_back s (hev_socks5_client_read_response (hev_socks5_client_tcp_class bnd) (s, a))"
  using assms
  by (auto simp: hev_socks5_client_read_response_def hev_socks5_client_tcp_class_def
      hev_socks5_client_tcp_set_upstream_addr_def Let_def intro!: back_intros)

text \<open>The same without a claim on the object, for the steps after the request.\<close>

definition ends :: "(('a socks5_scheme \<times> os) \<times> 'r) option \<Rightarrow> bool" where
  "ends m \<longleftrightarrow> (\<exists>s' b r. m = Some ((s', b), r) \<and> 0 \<le> s5_timeout s')"

lemma ends_back: "comes_back s m \<Longrightarrow> ends m"
  by (auto simp: comes_back_def ends_def)

lemma ends_here: "0 \<le> s5_timeout s \<Longrightarrow> ends (Some ((s, a), r))"
  by (simp add: ends_def)

lemma ends_back_bind:
  assumes "comes_back s m" "\<And>s' b r. 0 \<le> s5_timeout s' \<Longrightarrow> kept s s' \<Longrightarrow> ends (f ((s', b), r))"
  shows "ends (Option.bind m f)"
  using assms unfolding comes_back_def by fastforce

lemma ends_bind:
  assumes "ends m" "\<And>s' b r. 0 \<le> s5_timeout s' \<Longrightarrow> ends (f ((s', b), r))"
  shows "ends (Option.bind m f)"
  using assms unfolding ends_def by fastforce

lemma client_request_ends:
  assumes "0 \<le> s5_timeout s" "ct_addr s \<noteq> None"
  shows "ends (hev_socks5_client_write_request (hev_socks5_client_tcp_class bnd) (s, a))"
proof -
  have "ends (hev_task_io_socket_send hev_socks5_task_io_yielder fd buf (s\<lparr>ct_addr := None\<rparr>, a))" for fd buf
    using assms by (intro ends_back [OF send_comes_back]) simp
  then show ?thesis using assms
    by (auto simp: hev_socks5_client_write_request_def hev_socks5_client_tcp_class_def Let_def
        hev_socks5_client_tcp_get_upstream_addr_def sendmsg_is_send ends_here
        split: option.splits intro!: ends_bind)
qed

lemma kept_addr: "kept s s' \<Longrightarrow> ct_addr s' = ct_addr s"
  by (auto simp: kept_def)

lemmas ends_steps = ends_here
  ends_back_bind [OF client_write_back(1)] ends_back_bind [OF client_write_back(2)]
  ends_back_bind [OF client_read_back(1)] ends_back_bind [OF client_read_back(2)]
  ends_bind [OF client_request_ends] ends_bind [OF ends_back [OF client_response_back]]

lemma pipeline_ends:
  assumes "0 \<le> s5_timeout s" "ct_addr s \<noteq> None"
  shows "ends (hev_socks5_client_handshake_pipeline (hev_socks5_client_tcp_class bnd) (s, a))"
  using assms unfolding hev_socks5_client_handshake_pipeline_def
  by (auto intro!: ends_steps dest!: kept_addr)

lemma standard_ends:
  assumes "0 \<le> s5_timeout s" "ct_addr s \<noteq> None"
  shows "ends (hev_socks5_client_handshake_standard (hev_socks5_client_tcp_class bnd) (s, a))"
proof -
  have auth: "comes_back s2 (do {
        (st3, res) \<leftarrow> hev_socks5_client_write_auth_creds (s2, b);
        if res < 0 then Some (st3, - 1) else hev_socks5_client_read_auth_creds st3})"
    if "0 \<le> s5_timeout s2" for s2 :: "'a client_tcp_scheme" and b
    using that by (auto intro!: comes_back_bind [OF client_write_back(2)] comes_back_here client_read_back)
  show ?thesis using assms unfolding hev_socks5_client_handshake_standard_def
    by (auto intro!: ends_steps ends_back_bind [OF auth] dest!: kept_addr)
qed

section \<open>The descriptors of a connection attempt\<close>

lemma sys_call_open: "sys_call a = (b, r) \<Longrightarrow> os_open b = os_open a"
  by (auto simp: sys_call_def split: list.splits)

lemma setsockopt_open: "os_open (fst (sys_setsockopt fd opt v a)) = os_open a"
  by (auto simp: sys_setsockopt_def Let_def sys_call_def split: list.splits)

lemma socket_open:
  assumes "hev_socks5_socket conf ty a = (b, fd)"
  shows "if fd < 0 then os_open b = os_open a else os_open b = fd # os_open a"
proof -
  obtain b1 f where s: "sys_socket a = (b1, f)" by fastforce
  obtain b2 r where o: "sys_setsockopt f IPV6_V6ONLY 0 b1 = (b2, r)" by fastforce
  have 1: "os_open b1 = (if f < 0 then os_open a else f # os_open a)"
    using s by (auto simp: sys_socket_def Let_def split: prod.splits dest: sys_call_open)
  have 2: "os_open b2 = os_open b1" using setsockopt_open [of f IPV6_V6ONLY 0 b1] o by simp
  show ?thesis using assms s o 1 2 setsockopt_open
    by (auto simp: hev_socks5_socket_def sys_close_def split: if_splits)
qed

text \<open>The contract of a class's binder: it opens and closes nothing.\<close>

locale socket_binder =
  fixes bnd :: "int \<Rightarrow> sockaddr6 \<Rightarrow> os \<Rightarrow> os \<times> int"
  assumes keeps_open: "os_open (fst (bnd fd sa a)) = os_open a"
begin

lemma bound_connect_open:
  assumes "(let (os2, res) = bnd fd sa a in
      if res < 0 then Some ((s, sys_close fd os2), - 1)
      else do {
        (st3, res) \<leftarrow> hev_task_io_socket_connect hev_socks5_task_io_yielder fd sa (s, os2);
        if res < 0 then Some ((fst st3, sys_close fd (snd st3)), - 1) else Some ((f (fst st3), snd st3), 0)
      }) = Some ((s', b), r :: int)"
    and "os_open a = fd # rest"
  shows "if r = 0 then os_open b = fd # rest \<and> os_peer b fd = Some sa \<and> (\<exists>s2. kept s s2 \<and> s' = f s2)
    else r = - 1 \<and> os_open b = rest \<and> kept s s'"
proof -
  obtain c q where c: "bnd fd sa a = (c, q)" by fastforce
  then have o: "os_open c = fd # rest" using keeps_open [of fd sa a] assms(2) by simp
  show ?thesis
    using assms(1) c o ty.connect_sound [of hev_socks5_task_io_yielder fd sa "(s, c)"]
    by (auto simp: Let_def bind_eq_Some_conv sys_close_def split: if_splits)
qed

lemma connect_open:
  assumes "hev_socks5_client_connect conf rsv klass addr port (s, a) = Some ((s', b), r)"
    and "klass_binder klass = bnd" "s5_fd s < 0"
  shows "if r = 0
    then 0 \<le> s5_fd s' \<and> os_open b = s5_fd s' # os_open a \<and>
      (\<exists>sa f. hev_socks5_name_into_sockaddr6 rsv addr (of_int port) (s5_family s) = Some (sa, f) \<and>
         os_peer b (s5_fd s') = Some sa \<and> s5_family s' = f)
    else r = - 1 \<and> os_open b = os_open a \<and> s5_fd s' = s5_fd s"
proof (cases "hev_socks5_name_into_sockaddr6 rsv addr (of_int port) (s5_family s)")
  case None
  then show ?thesis using assms(1) by (auto simp: hev_socks5_client_connect_def)
next
  case (Some q)
  obtain sa f where q: "q = (sa, f)" by fastforce
  let ?s = "hev_socks5_set_timeout (connect_timeout conf) s"
  obtain c fd where c: "hev_socks5_socket conf SOCK_STREAM a = (c, fd)" by fastforce
  note so = socket_open [OF c]
  show ?thesis
  proof (cases "fd < 0")
    case True
    then show ?thesis using assms(1) Some q c so by (auto simp: hev_socks5_client_connect_def)
  next
    case False
    have "(let (os2, res) = bnd fd sa c in
      if res < 0 then Some ((?s, sys_close fd os2), - 1)
      else do {
        (st3, res) \<leftarrow> hev_task_io_socket_connect hev_socks5_task_io_yielder fd sa (?s, os2);
        if res < 0 then Some ((fst st3, sys_close fd (snd st3)), - 1)
        else Some ((hev_socks5_set_addr_family f ((fst st3)\<lparr>s5_fd := fd\<rparr>), snd st3), 0)
      }) = Some ((s', b), r)"
      using assms Some q c False by (simp add: hev_socks5_client_connect_def Let_def)
    from bound_connect_open [where f = "\<lambda>s. hev_socks5_set_addr_family f (s\<lparr>s5_fd := fd\<rparr>)", OF this, of "os_open a"]
    show ?thesis using so False Some q
      by (auto simp: hev_socks5_set_addr_family_def dest: keptD split: if_splits)
  qed
qed

end

interpretation base_bind: socket_binder hev_socks5_bind
  by unfold_locales (simp add: hev_socks5_bind_def)

section \<open>The whole handshake\<close>

lemma client_handshake_ok:
  assumes "answering (s5_fd s) (hev_socks5_set_timeout (tcp_timeout conf) s) a
      (reply_msg m rsv atype bs) (length (client_out s (addr_wire e)))"
    and "m = (if has_auth s then 2 else 0)" "bnd_ok atype bs"
    and "s5_type s = TYPE_TCP" "auth_ok s" "ct_addr s = Some (addr_wire e)" "ep_ok e"
  shows "\<exists>b. hev_socks5_client_handshake conf (hev_socks5_client_tcp_class bnd) pipeline (s, a) =
        Some (((hev_socks5_set_timeout (tcp_timeout conf) s)\<lparr>ct_addr := None\<rparr>, b), 0) \<and>
      os_out b = (os_out a)(s5_fd s := os_out a (s5_fd s) @ client_out s (addr_wire e)) \<and> os_open b = os_open a"
proof -
  let ?s = "hev_socks5_set_timeout (tcp_timeout conf) s" and ?K = "hev_socks5_client_tcp_class bnd"
    and ?w = "addr_wire e"
  have more: "auth_ok ?s = auth_ok s" "client_out ?s ?w = client_out s ?w"
    by (simp_all add: auth_ok_def client_out_def methods_msg_def creds_msg_def)
  have len: "hev_socks5_addr_len ?w = int (length ?w)"
    using assms(7) by (cases e) (auto simp: hev_socks5_addr_len_def addr_types uint_of_nat_byte)
  have "answering (s5_fd ?s) ?s a (reply_msg m rsv atype bs @ []) (length (client_out ?s ?w) + 0)"
    using assms(1) more by simp
  note hs = handshake_pipeline_ok [OF this _ assms(3), of bnd] handshake_standard_ok [OF this _ assms(3), of bnd]
  then obtain b where "(if pipeline then hev_socks5_client_handshake_pipeline ?K (?s, a)
      else hev_socks5_client_handshake_standard ?K (?s, a)) = Some ((?s\<lparr>ct_addr := None\<rparr>, b), 0)"
    "sent (s5_fd s) (client_out s ?w) a b"
    using assms more len by (cases pipeline) (auto split: if_splits)
  then show ?thesis using assms(4)
    by (auto simp: hev_socks5_client_handshake_def sent_def)
qed

section \<open>Properties\<close>

text \<open>
  C22: The SOCKS5 client's handshake, pipelined or not, succeeds against every server that grants
  the request, however its reply is cut into pieces and delayed below the timeout, and sends
  exactly the greeting, the credentials (if there are any) and the request.
\<close>

theorem hev_socks5_client_handshake_succeeds:
  assumes "answering (s5_fd s) (hev_socks5_set_timeout (tcp_timeout conf) s) a
      (reply_msg m rsv atype bs) (length (client_out s (addr_wire e)))"
    and "m = (if has_auth s then 2 else 0)" "bnd_ok atype bs"
    and "s5_type s = TYPE_TCP" "auth_ok s" "ct_addr s = Some (addr_wire e)" "ep_ok e"
  shows "\<exists>b. hev_socks5_client_handshake conf (hev_socks5_client_tcp_class bnd) pipeline (s, a) =
        Some (((hev_socks5_set_timeout (tcp_timeout conf) s)\<lparr>ct_addr := None\<rparr>, b), 0) \<and>
      os_out b = (os_out a)(s5_fd s := os_out a (s5_fd s) @ client_out s (addr_wire e)) \<and> os_open b = os_open a"
  using assms by (rule client_handshake_ok)

definition client_demo :: client_tcp where
  "client_demo = client_tcp_zero\<lparr>s5_fd := 7, s5_timeout := 10000, s5_type := TYPE_TCP,
     auth_user := Some [117], auth_pass := Some [112, 119], ct_addr := Some [1, 10, 0, 0, 1, 0, 80]\<rparr>"

definition os_demo :: os where
  "os_demo = os_idle\<lparr>os_rx := (\<lambda>_. [])(7 := [RxData [5], RxAgain, RxData [2, 1, 0, 5], RxData [0, 0, 1, 0, 0, 0, 0, 0, 0]]),
     os_tx := (\<lambda>_. [TxRoom 100]), os_waits := [Wait 20 False]\<rparr>"

lemma client_demo_answering:
  "answering (s5_fd client_demo) (hev_socks5_set_timeout (tcp_timeout socks5_conf_init) client_demo) os_demo
     (reply_msg 2 0 1 [0, 0, 0, 0, 0, 0]) (length (client_out client_demo (addr_wire (EpV4 [10, 0, 0, 1] 80))))"
  by code_simp

lemma client_demo_ok:
  "(2 :: byte) = (if has_auth client_demo then 2 else 0)" "bnd_ok 1 [0, 0, 0, 0, 0, 0]"
  "s5_type client_demo = TYPE_TCP" "auth_ok client_demo"
  "ct_addr client_demo = Some (addr_wire (EpV4 [10, 0, 0, 1] 80))" "ep_ok (EpV4 [10, 0, 0, 1] 80)"
  by code_simp+

theorem hev_socks5_client_handshake_succeeds_witness:
  "\<exists>b. hev_socks5_client_handshake socks5_conf_init (hev_socks5_client_tcp_class hev_socks5_bind) True (client_demo, os_demo) =
      Some (((hev_socks5_set_timeout (tcp_timeout socks5_conf_init) client_demo)\<lparr>ct_addr := None\<rparr>, b), 0) \<and>
    os_out b = (os_out os_demo)(s5_fd client_demo := os_out os_demo (s5_fd client_demo) @
      client_out client_demo (addr_wire (EpV4 [10, 0, 0, 1] 80))) \<and> os_open b = os_open os_demo"
  by (rule hev_socks5_client_handshake_succeeds [OF client_demo_answering client_demo_ok])

text \<open>
  C23: A handshake of the SOCKS5 client that succeeds has read exactly a granting reply: version 5
  with one of the two supported methods, an accepted authentication where the method asks for one,
  and a success response with an IPv4 or IPv6 address; the rest of the stream is untouched.
\<close>

theorem hev_socks5_client_handshake_sound:
  assumes "hev_socks5_client_handshake conf (hev_socks5_client_tcp_class bnd) pipeline (s, a) = Some ((s', b), 0)"
  shows "\<exists>m rsv atype bs. (m = 0 \<or> m = 2) \<and> bnd_ok atype bs \<and>
      rx_bytes (os_rx a (s5_fd s)) = reply_msg m rsv atype bs @ rx_bytes (os_rx b (s5_fd s))"
proof -
  obtain s2 where "(if pipeline then hev_socks5_client_handshake_pipeline (hev_socks5_client_tcp_class bnd)
      else hev_socks5_client_handshake_standard (hev_socks5_client_tcp_class bnd))
        (hev_socks5_set_timeout (tcp_timeout conf) s, a) = Some ((s2, b), 0)"
    using assms by (auto simp: hev_socks5_client_handshake_def Let_def bind_eq_Some_conv split: if_splits)
  then have "granted (hev_socks5_set_timeout (tcp_timeout conf) s, a) (s2, b)"
    by (cases pipeline) (auto intro: handshake_pipeline_reads handshake_standard_reads)
  then have "granted (s, a) (s2, b)" by (simp add: granted_timeout)
  then show ?thesis by (auto simp: granted_def reads_def)
qed

theorem hev_socks5_client_handshake_sound_witness:
  "\<exists>s' b. hev_socks5_client_handshake socks5_conf_init (hev_socks5_client_tcp_class hev_socks5_bind) False (client_demo, os_demo) =
      Some ((s', b), 0) \<and>
    (\<exists>m rsv atype bs. (m = 0 \<or> m = 2) \<and> bnd_ok atype bs \<and>
      rx_bytes (os_rx os_demo (s5_fd client_demo)) = reply_msg m rsv atype bs @ rx_bytes (os_rx b (s5_fd client_demo)))"
proof -
  have "map_option snd (hev_socks5_client_handshake socks5_conf_init
      (hev_socks5_client_tcp_class hev_socks5_bind) False (client_demo, os_demo)) = Some 0"
    by code_simp
  then show ?thesis using hev_socks5_client_handshake_sound by fastforce
qed

text \<open>
  C24: The handshake of a TCP client whose timeout is not negative always comes back, whatever the
  server does and however long it stays silent.
\<close>

theorem hev_socks5_client_handshake_returns:
  assumes "0 \<le> tcp_timeout conf" "ct_addr s \<noteq> None" "s5_type s = TYPE_TCP"
  shows "\<exists>s' b r. hev_socks5_client_handshake conf (hev_socks5_client_tcp_class bnd) pipeline (s, a) = Some ((s', b), r)"
proof -
  let ?s = "hev_socks5_set_timeout (tcp_timeout conf) s"
  have "0 \<le> s5_timeout ?s" using assms(1) by (simp add: hev_socks5_set_timeout_def)
  moreover have "ct_addr ?s \<noteq> None" using assms(2) by simp
  ultimately show ?thesis
    using pipeline_ends [of ?s bnd a] standard_ends [of ?s bnd a]
    by (auto simp: hev_socks5_client_handshake_def ends_def Let_def)
qed

theorem hev_socks5_client_handshake_returns_witness:
  "\<exists>s' b r. hev_socks5_client_handshake socks5_conf_init (hev_socks5_client_tcp_class hev_socks5_bind) True
     (client_demo, os_idle) = Some ((s', b), r)"
  by (rule hev_socks5_client_handshake_returns) (simp_all add: socks5_conf_init_def client_demo_def)

text \<open>
  The greeting counts as sent as soon as one byte of it is: when the connection breaks after the
  first byte, \<^verbatim>\<open>hev_socks5_client_write_auth_methods\<close> still reports success.
\<close>

theorem write_auth_methods_short:
  assumes "os_tx a (s5_fd s) = TxRoom 1 # TxErr # r"
  shows "\<exists>b. hev_socks5_client_write_auth_methods (s, a) = Some ((s, b), 0) \<and>
      os_out b (s5_fd s) = os_out a (s5_fd s) @ [5]"
  using assms
  by (simp add: hev_socks5_client_write_auth_methods_def hev_task_io_socket_send_def proto_consts
      send_loop.simps [of _ _ _ _ 0] send_loop.simps [of _ _ _ _ "Suc 0"] sys_send_def Let_def)

theorem write_auth_methods_short_witness:
  "\<exists>b. hev_socks5_client_write_auth_methods (client_demo, os_idle\<lparr>os_tx := (\<lambda>_. [TxRoom 1, TxErr])\<rparr>) =
      Some ((client_demo, b), 0) \<and>
    os_out b (s5_fd client_demo) = os_out (os_idle\<lparr>os_tx := (\<lambda>_. [TxRoom 1, TxErr])\<rparr>) (s5_fd client_demo) @ [5]"
  by (rule write_auth_methods_short) simp

end
