(* ===== verification/Authenticator.thy ===== *)
theory Authenticator
  imports RBSearch
begin

text \<open>
  The credential store of the SOCKS5 server: users (\<^verbatim>\<open>src/core/src/hev-socks5-user.c\<close>), the
  authenticator that indexes them by name (\<^verbatim>\<open>src/core/src/hev-socks5-authenticator.c\<close>) and the
  reference counts of both (\<^verbatim>\<open>third-part/hev-task-system/src/lib/object/hev-object-atomic.c\<close>).

  A user is a cell of the heap (a \<^typ>\<open>nat\<close>); the store holds the tree over the cells, their names,
  passwords and reference counts, and the cells that were destructed, in order.
\<close>

section \<open>Users\<close>

record auth_store =
  au_tree :: "nat rbtree"
  au_ref :: nat
  us_name :: "nat \<Rightarrow> byte list"
  us_pass :: "nat \<Rightarrow> byte list"
  us_ref :: "nat \<Rightarrow> nat"
  us_freed :: "nat list"

definition hev_object_ref :: "nat \<Rightarrow> auth_store \<Rightarrow> auth_store" where
  "hev_object_ref n self = self\<lparr>us_ref := (us_ref self)(n := us_ref self n + 1)\<rparr>"

definition hev_object_unref :: "nat \<Rightarrow> auth_store \<Rightarrow> auth_store" where
  "hev_object_unref n self =
     (let rc = us_ref self n; self1 = self\<lparr>us_ref := (us_ref self)(n := rc - 1)\<rparr>
      in if rc > 1 then self1 else self1\<lparr>us_freed := us_freed self1 @ [n]\<rparr>)"

text \<open>
  \<^verbatim>\<open>hev_socks5_user_construct\<close>; whether the two allocations succeed is an input.
\<close>

definition hev_socks5_user_construct ::
    "bool \<Rightarrow> bool \<Rightarrow> byte list \<Rightarrow> byte list \<Rightarrow> nat \<Rightarrow> auth_store \<Rightarrow> auth_store \<times> int" where
  "hev_socks5_user_construct name_ok pass_ok name pass n self =
     (let self1 = self\<lparr>us_ref := (us_ref self)(n := 1)\<rparr> in
      if \<not> name_ok then (self1, - 1)
      else
        let self2 = self1\<lparr>us_name := (us_name self1)(n := name)\<rparr> in
        if \<not> pass_ok then (self2, - 1)
        else (self2\<lparr>us_pass := (us_pass self2)(n := pass)\<rparr>, 0))"

definition hev_socks5_user_new ::
    "nat option \<Rightarrow> bool \<Rightarrow> bool \<Rightarrow> byte list \<Rightarrow> byte list \<Rightarrow> auth_store \<Rightarrow> auth_store \<times> nat option" where
  "hev_socks5_user_new mem name_ok pass_ok name pass self =
     (case mem of
        None \<Rightarrow> (self, None)
      | Some n \<Rightarrow>
          let (self1, res) = hev_socks5_user_construct name_ok pass_ok name pass n self
          in (self1, if res < 0 then None else Some n))"

definition hev_socks5_user_checker :: "auth_store \<Rightarrow> nat \<Rightarrow> byte list \<Rightarrow> int" where
  "hev_socks5_user_checker self n pass =
     (if length (us_pass self n) \<noteq> length pass then - 1
      else if memcmp (us_pass self n) pass \<noteq> 0 then - 1
      else 0)"

definition hev_socks5_user_check :: "auth_store \<Rightarrow> nat \<Rightarrow> byte list \<Rightarrow> int" where
  "hev_socks5_user_check self n pass = hev_socks5_user_checker self n pass"

section \<open>The authenticator\<close>

text \<open>The comparison the three search loops write out: by length, then by content.\<close>

definition user_cmp :: "byte list \<Rightarrow> byte list \<Rightarrow> int" where
  "user_cmp a b = (if length a < length b then - 1 else if length a > length b then 1 else memcmp a b)"

definition hev_socks5_authenticator_new :: "bool \<Rightarrow> auth_store \<Rightarrow> auth_store option" where
  "hev_socks5_authenticator_new ok self = (if ok then Some (self\<lparr>au_tree := hev_rbtree_empty, au_ref := 1\<rparr>) else None)"

definition hev_socks5_authenticator_add :: "auth_store \<Rightarrow> nat \<Rightarrow> (auth_store \<times> int) option" where
  "hev_socks5_authenticator_add self user =
     do {
       found \<leftarrow> rb_descend (au_tree self) (\<lambda>n. user_cmp (us_name self n) (us_name self user)) LinkRoot None;
       (case found of
          Inr _ \<Rightarrow> Some (self, - 1)
        | Inl (parent, new) \<Rightarrow> do {
            tree \<leftarrow> hev_rbtree_insert_color (hev_rbtree_node_link (au_tree self) user parent new) user;
            Some (self\<lparr>au_tree := tree\<rparr>, 0)
          })
     }"

definition hev_socks5_authenticator_del :: "auth_store \<Rightarrow> byte list \<Rightarrow> (auth_store \<times> int) option" where
  "hev_socks5_authenticator_del self name =
     do {
       found \<leftarrow> rb_search (au_tree self) (\<lambda>n. user_cmp (us_name self n) name) (rb_root (au_tree self));
       (case found of
          None \<Rightarrow> Some (self, - 1)
        | Some n \<Rightarrow> do {
            tree \<leftarrow> hev_rbtree_erase (au_tree self) n;
            Some (hev_object_unref n (self\<lparr>au_tree := tree\<rparr>), 0)
          })
     }"

definition hev_socks5_authenticator_get :: "auth_store \<Rightarrow> byte list \<Rightarrow> nat option option" where
  "hev_socks5_authenticator_get self name =
     rb_search (au_tree self) (\<lambda>n. user_cmp (us_name self n) name) (rb_root (au_tree self))"

partial_function (option) hev_socks5_authenticator_clear :: "auth_store \<Rightarrow> auth_store option" where
  "hev_socks5_authenticator_clear self =
     Option.bind (hev_rbtree_first (au_tree self)) (\<lambda>n.
       case n of
         None \<Rightarrow> Some self
       | Some t \<Rightarrow>
           Option.bind (hev_rbtree_erase (au_tree self) t) (\<lambda>tree.
             hev_socks5_authenticator_clear (hev_object_unref t (self\<lparr>au_tree := tree\<rparr>))))"

text \<open>The destructor, and the reference count that runs it.\<close>

definition hev_socks5_authenticator_destruct :: "auth_store \<Rightarrow> auth_store option" where
  "hev_socks5_authenticator_destruct self = hev_socks5_authenticator_clear self"

definition authenticator_ref :: "auth_store \<Rightarrow> auth_store" where
  "authenticator_ref self = self\<lparr>au_ref := au_ref self + 1\<rparr>"

definition authenticator_unref :: "auth_store \<Rightarrow> auth_store option" where
  "authenticator_unref self =
     (let self1 = self\<lparr>au_ref := au_ref self - 1\<rparr>
      in if au_ref self > 1 then Some self1 else hev_socks5_authenticator_destruct self1)"

declare rb_descend.simps [code] rb_search.simps [code] hev_socks5_authenticator_clear.simps [code]

section \<open>A store of credentials is a finite map\<close>

interpretation ucmp: key_order "\<lambda>_. True" user_cmp
proof
  fix a b c :: "byte list"
  show "user_cmp a b = 0 \<longleftrightarrow> a = b" by (auto simp: user_cmp_def memcmp_eq_0)
  show "user_cmp a b < 0 \<longleftrightarrow> 0 < user_cmp b a"
    using memcmp_swap [of a b] by (auto simp: user_cmp_def)
  show "user_cmp a b < 0 \<Longrightarrow> user_cmp b c < 0 \<Longrightarrow> user_cmp a c < 0"
    using memcmp_trans [of a b c] by (auto simp: user_cmp_def split: if_splits)
qed

text \<open>The store represents the map from names to users.\<close>

definition auth_rep :: "auth_store \<Rightarrow> (byte list \<rightharpoonup> nat) \<Rightarrow> bool" where
  "auth_rep self m \<longleftrightarrow>
     rb_index (\<lambda>_. True) user_cmp (au_tree self) (us_name self) (ran m) \<and>
     (\<forall>k n. m k = Some n \<longrightarrow> us_name self n = k)"

lemma auth_repD:
  assumes "auth_rep self m"
  shows "rb_index (\<lambda>_. True) user_cmp (au_tree self) (us_name self) (ran m)"
    "m k = Some n \<Longrightarrow> us_name self n = k"
    "n \<in> ran m \<Longrightarrow> m (us_name self n) = Some n"
  using assms by (auto simp: auth_rep_def ran_def)

lemma auth_dom: "auth_rep self m \<Longrightarrow> k \<notin> dom m \<Longrightarrow> k \<notin> us_name self ` ran m"
  using auth_repD(3) by fastforce

lemma get_rep:
  assumes "auth_rep self m"
  shows "hev_socks5_authenticator_get self k = Some (m k)"
proof (cases "m k")
  case None
  then have "k \<notin> us_name self ` ran m" using auth_dom [OF assms] by blast
  then show ?thesis
    using None ucmp.search_index(2) [OF auth_repD(1) [OF assms]] by (simp add: hev_socks5_authenticator_get_def)
next
  case (Some n)
  then have "n \<in> ran m" "us_name self n = k" using assms by (auto simp: auth_rep_def intro: ranI)
  then show ?thesis
    using Some ucmp.search_index(1) [OF auth_repD(1) [OF assms]] by (simp add: hev_socks5_authenticator_get_def)
qed

lemma ran_upd: "k \<notin> dom m \<Longrightarrow> ran (m(k \<mapsto> n)) = insert n (ran m)"
  by (auto simp: ran_def)

lemma add_rep:
  assumes "auth_rep self m"
  shows "if us_name self u \<in> dom m then hev_socks5_authenticator_add self u = Some (self, - 1)
    else \<exists>tree. hev_socks5_authenticator_add self u = Some (self\<lparr>au_tree := tree\<rparr>, 0) \<and>
      auth_rep (self\<lparr>au_tree := tree\<rparr>) (m(us_name self u \<mapsto> u))"
proof (cases "us_name self u \<in> dom m")
  case True
  then obtain n where n: "m (us_name self u) = Some n" by blast
  then have "us_name self n = us_name self u" "n \<in> ran m" using assms by (auto simp: auth_rep_def intro: ranI)
  then show ?thesis
    using True ucmp.descend_found [OF auth_repD(1) [OF assms], of n] by (simp add: hev_socks5_authenticator_add_def)
next
  case False
  let ?k = "us_name self u"
  have u: "u \<notin> ran m" using False auth_repD(3) [OF assms] by blast
  obtain parent link tree where
    "rb_descend (au_tree self) (\<lambda>n. user_cmp (us_name self n) ?k) LinkRoot None = Some (Inl (parent, link))"
    "hev_rbtree_insert_color (hev_rbtree_node_link (au_tree self) u parent link) u = Some tree"
    "rb_index (\<lambda>_. True) user_cmp tree ((us_name self)(u := ?k)) (insert u (ran m))"
    using ucmp.descend_missing [OF auth_repD(1) [OF assms] _ auth_dom [OF assms False] u] by blast
  moreover have "(us_name self)(u := ?k) = us_name self" by simp
  ultimately show ?thesis
    using False assms ran_upd [OF False]
    by (auto simp: hev_socks5_authenticator_add_def auth_rep_def)
qed

lemma ran_del:
  assumes "m k = Some n" "\<And>k' n'. m k' = Some n' \<Longrightarrow> f n' = k'"
  shows "ran (m(k := None)) = ran m - {n}"
proof -
  have u: "k' = k" if "m k' = Some n" for k' using assms(2) [OF that] assms(2) [OF assms(1)] by simp
  show ?thesis
  proof (rule set_eqI)
    fix x
    show "x \<in> ran (m(k := None)) \<longleftrightarrow> x \<in> ran m - {n}"
    proof
      assume "x \<in> ran (m(k := None))"
      then obtain k' where "k' \<noteq> k" "m k' = Some x" by (auto simp: ran_def split: if_splits)
      then show "x \<in> ran m - {n}" using u by (auto intro: ranI)
    next
      assume "x \<in> ran m - {n}"
      then obtain k' where "m k' = Some x" "x \<noteq> n" by (auto simp: ran_def)
      then show "x \<in> ran (m(k := None))" using assms(1) by (auto intro!: ranI [of _ k'])
    qed
  qed
qed

lemma unref_sel [simp]:
  "au_tree (hev_object_unref n s) = au_tree s" "us_name (hev_object_unref n s) = us_name s"
  "us_pass (hev_object_unref n s) = us_pass s"
  by (simp_all add: hev_object_unref_def Let_def)

lemma del_rep:
  assumes "auth_rep self m"
  shows "case m k of
      None \<Rightarrow> hev_socks5_authenticator_del self k = Some (self, - 1)
    | Some n \<Rightarrow> \<exists>tree. hev_socks5_authenticator_del self k = Some (hev_object_unref n (self\<lparr>au_tree := tree\<rparr>), 0) \<and>
        auth_rep (hev_object_unref n (self\<lparr>au_tree := tree\<rparr>)) (m(k := None))"
proof (cases "m k")
  case None
  then show ?thesis
    using get_rep [OF assms, of k] by (simp add: hev_socks5_authenticator_del_def hev_socks5_authenticator_get_def)
next
  case (Some n)
  have n: "n \<in> ran m" using Some by (rule ranI)
  have nm: "\<And>k' n'. m k' = Some n' \<Longrightarrow> us_name self n' = k'" using assms by (auto simp: auth_rep_def)
  obtain tree where "hev_rbtree_erase (au_tree self) n = Some tree"
    "rb_index (\<lambda>_. True) user_cmp tree (us_name self) (ran m - {n})"
    using ucmp.erase_index [OF auth_repD(1) [OF assms] n] by blast
  then show ?thesis
    using Some get_rep [OF assms, of k] ran_del [where m = m and f = "us_name self", OF Some nm] nm
    by (auto simp: hev_socks5_authenticator_del_def hev_socks5_authenticator_get_def auth_rep_def)
qed

section \<open>Clearing\<close>

lemma unref_refs [simp]:
  "us_ref (hev_object_unref n s) = (us_ref s)(n := us_ref s n - 1)"
  "us_freed (hev_object_unref n s) = us_freed s @ (if us_ref s n \<le> 1 then [n] else [])"
  by (auto simp: hev_object_unref_def Let_def)

lemma clear_tree:
  assumes "rb_repr (au_tree self) t" "rbt_ok t"
  shows "\<exists>self'. hev_socks5_authenticator_clear self = Some self' \<and> rb_root (au_tree self') = None \<and>
      us_freed self' = us_freed self @ filter (\<lambda>n. us_ref self n \<le> 1) (inord t) \<and>
      us_ref self' = (\<lambda>n. if n \<in> nds t then us_ref self n - 1 else us_ref self n)"
  using assms
proof (induction "inord t" arbitrary: self t)
  case Nil
  then have "t = Lf" by (cases t) auto
  then show ?case using Nil.prems rb_first_last(1) [OF Nil.prems(1)]
    by (subst hev_socks5_authenticator_clear.simps) (simp add: rb_repr_def)
next
  case (Cons n ns)
  note ns = Cons.hyps(2) [symmetric]
  have "t \<noteq> Lf" using ns by auto
  then have f: "hev_rbtree_first (au_tree self) = Some (Some n)"
    using rb_first_last(1) [OF Cons.prems(1)] ns by simp
  have d: "distinct (n # ns)" using Cons.prems(1) ns by (simp add: rb_repr_def wft_distinct)
  have N: "nds t = set (n # ns)" using arg_cong [OF ns, of set] by simp
  obtain s' t' where e: "hev_rbtree_erase (au_tree self) n = Some s'" "rb_repr s' t'" "rbt_ok t'"
      "inord t' = ns"
    using erase_correct [OF Cons.prems, of n] N ns by auto
  let ?s = "hev_object_unref n (self\<lparr>au_tree := s'\<rparr>)"
  have N': "nds t' = set ns" using arg_cong [OF e(4), of set] by simp
  have same: "filter (\<lambda>m. us_ref ?s m \<le> 1) ns = filter (\<lambda>m. us_ref self m \<le> 1) ns"
    using d by (intro filter_cong) auto
  have "hev_socks5_authenticator_clear self = hev_socks5_authenticator_clear ?s"
    using f e(1) by (subst hev_socks5_authenticator_clear.simps) simp
  moreover obtain self' where "hev_socks5_authenticator_clear ?s = Some self'" "rb_root (au_tree self') = None"
    and fr: "us_freed self' = us_freed ?s @ filter (\<lambda>m. us_ref ?s m \<le> 1) ns"
    and rf: "us_ref self' = (\<lambda>m. if m \<in> set ns then us_ref ?s m - 1 else us_ref ?s m)"
    using Cons.hyps(1) [of t' ?s] e(2-4) N' by auto
  moreover have "us_freed self' = us_freed self @ filter (\<lambda>m. us_ref self m \<le> 1) (inord t)"
    unfolding fr same ns by simp
  moreover have "us_ref self' = (\<lambda>m. if m \<in> nds t then us_ref self m - 1 else us_ref self m)"
    unfolding rf N using d by (auto simp: fun_eq_iff)
  ultimately show ?case by metis
qed

section \<open>Sequences of operations\<close>

datatype auth_cmd = AddUser nat | DelUser "byte list" | GetUser "byte list"

fun auth_step :: "auth_store \<Rightarrow> auth_cmd \<Rightarrow> (auth_store \<times> (int + nat option)) option" where
  "auth_step self (AddUser u) = map_option (\<lambda>(s, r). (s, Inl r)) (hev_socks5_authenticator_add self u)"
| "auth_step self (DelUser k) = map_option (\<lambda>(s, r). (s, Inl r)) (hev_socks5_authenticator_del self k)"
| "auth_step self (GetUser k) = map_option (\<lambda>r. (self, Inr r)) (hev_socks5_authenticator_get self k)"

fun auth_run :: "auth_store \<Rightarrow> auth_cmd list \<Rightarrow> (auth_store \<times> (int + nat option) list) option" where
  "auth_run self [] = Some (self, [])"
| "auth_run self (c # cs) =
     do { (s1, r) \<leftarrow> auth_step self c; (s2, rs) \<leftarrow> auth_run s1 cs; Some (s2, r # rs) }"

text \<open>The same commands on a finite map, given the names of the users.\<close>

fun map_step :: "(nat \<Rightarrow> byte list) \<Rightarrow> (byte list \<rightharpoonup> nat) \<Rightarrow> auth_cmd \<Rightarrow> (byte list \<rightharpoonup> nat) \<times> (int + nat option)" where
  "map_step name m (AddUser u) = (if m (name u) = None then (m(name u \<mapsto> u), Inl 0) else (m, Inl (- 1)))"
| "map_step name m (DelUser k) = (if m k = None then (m, Inl (- 1)) else (m(k := None), Inl 0))"
| "map_step name m (GetUser k) = (m, Inr (m k))"

fun map_run :: "(nat \<Rightarrow> byte list) \<Rightarrow> (byte list \<rightharpoonup> nat) \<Rightarrow> auth_cmd list \<Rightarrow> (byte list \<rightharpoonup> nat) \<times> (int + nat option) list" where
  "map_run name m [] = (m, [])"
| "map_run name m (c # cs) =
     (let (m1, r) = map_step name m c; (m2, rs) = map_run name m1 cs in (m2, r # rs))"

lemma auth_step_rep:
  assumes "auth_rep self m" "map_step (us_name self) m c = (m', r)"
  shows "\<exists>self'. auth_step self c = Some (self', r) \<and> auth_rep self' m' \<and> us_name self' = us_name self"
proof (cases c)
  case (AddUser u)
  then show ?thesis using add_rep [OF assms(1), of u] assms by (auto split: if_splits)
next
  case (DelUser k)
  then show ?thesis using del_rep [OF assms(1), of k] assms by (auto split: if_splits option.splits)
next
  case (GetUser k)
  then show ?thesis using get_rep [OF assms(1), of k] assms by auto
qed

section \<open>Properties\<close>

text \<open>
  C13: Every sequence of additions, deletions and lookups on the authenticator's red-black tree of
  users gives the results of the same sequence on a finite map from names to users: a second user
  of a name is refused, a lookup finds exactly the user added last under that name.
\<close>

theorem authenticator_refines:
  assumes "auth_rep self m"
  shows "\<exists>self'. auth_run self cs = Some (self', snd (map_run (us_name self) m cs)) \<and>
      auth_rep self' (fst (map_run (us_name self) m cs))"
  using assms
proof (induction cs arbitrary: self m)
  case (Cons c cs)
  obtain m1 r where m1: "map_step (us_name self) m c = (m1, r)" by fastforce
  obtain s1 where s1: "auth_step self c = Some (s1, r)" "auth_rep s1 m1" "us_name s1 = us_name self"
    using auth_step_rep [OF Cons.prems m1] by blast
  show ?case using Cons.IH [OF s1(2)] s1 m1 by (auto split: prod.splits)
qed simp

definition auth_demo :: auth_store where
  "auth_demo = \<lparr>au_tree = hev_rbtree_empty, au_ref = 1, us_name = (\<lambda>n. [of_nat n mod 2]), us_pass = (\<lambda>_. []),
     us_ref = (\<lambda>_. 1), us_freed = []\<rparr>"

lemma auth_demo_rep: "auth_rep auth_demo Map.empty"
  unfolding auth_rep_def rb_index_def
  by (auto simp: auth_demo_def hev_rbtree_empty_def rb_repr_def rbt_ok_def key_desc_def intro!: exI [of _ Lf])

theorem authenticator_refines_witness:
  "\<exists>self'. auth_run auth_demo [AddUser 1, AddUser 2, AddUser 3, DelUser [1], GetUser [1], GetUser [0]] =
      Some (self', [Inl 0, Inl 0, Inl (- 1), Inl 0, Inr None, Inr (Some 2)])"
  using authenticator_refines [OF auth_demo_rep,
    of "[AddUser 1, AddUser 2, AddUser 3, DelUser [1], GetUser [1], GetUser [0]]"]
  by (auto simp: auth_demo_def)

text \<open>
  C25: Clearing the authenticator comes to an end, empties the tree and drops exactly one reference
  of every user in it; exactly the users with no other reference are destructed, each of them once.
\<close>

theorem authenticator_clear_releases:
  assumes "auth_rep self m" "distinct (us_freed self)" "set (us_freed self) \<inter> ran m = {}"
  shows "\<exists>self'. hev_socks5_authenticator_clear self = Some self' \<and> rb_root (au_tree self') = None \<and>
      us_ref self' = (\<lambda>n. if n \<in> ran m then us_ref self n - 1 else us_ref self n) \<and>
      set (us_freed self') = set (us_freed self) \<union> {n \<in> ran m. us_ref self n \<le> 1} \<and>
      distinct (us_freed self')"
proof -
  obtain t where t: "rb_repr (au_tree self) t" "rbt_ok t" "nds t = ran m"
    using auth_repD(1) [OF assms(1)] by (auto simp: rb_index_def)
  have "distinct (inord t)" "set (inord t) = ran m" using t by (simp_all add: rb_repr_def wft_distinct)
  then show ?thesis using clear_tree [OF t(1,2)] t(3) assms(2,3) by auto
qed

theorem authenticator_clear_releases_witness:
  "\<exists>self self'. hev_socks5_authenticator_add auth_demo 1 = Some (self, 0) \<and>
    hev_socks5_authenticator_clear self = Some self' \<and> rb_root (au_tree self') = None \<and>
    set (us_freed self') = {1} \<and> us_ref self' 1 = 0 \<and> us_ref self' 2 = 1"
proof -
  obtain tree where a: "hev_socks5_authenticator_add auth_demo 1 = Some (auth_demo\<lparr>au_tree := tree\<rparr>, 0)"
    "auth_rep (auth_demo\<lparr>au_tree := tree\<rparr>) [us_name auth_demo 1 \<mapsto> 1]"
    using add_rep [OF auth_demo_rep, of 1] by auto
  have f: "distinct (us_freed (auth_demo\<lparr>au_tree := tree\<rparr>))"
    "set (us_freed (auth_demo\<lparr>au_tree := tree\<rparr>)) \<inter> ran [us_name auth_demo 1 \<mapsto> 1] = {}"
    by (simp_all add: auth_demo_def)
  show ?thesis using a(1) authenticator_clear_releases [OF a(2) f] by (auto simp: auth_demo_def)
qed

end
