(* ===== verification/Socks5Server.thy ===== *)
theory Socks5Server
  imports Socks5ClientProofs Authenticator
begin

text \<open>
  The SOCKS5 server of the core library, \<^verbatim>\<open>src/core/src/hev-socks5-server.c\<close>, up to the end of the
  handshake.  The union of \<^verbatim>\<open>HevSocks5Server\<close> holds nothing, the authenticator or, after a client
  has authenticated, its user; the authenticator's store is a field of the object.
\<close>

section \<open>The object\<close>

datatype server_obj = ObjNull | ObjAuth | ObjUser nat

record socks5_server = socks5 +
  sv_fd0 :: int
  sv_fd1 :: int
  sv_obj :: server_obj
  sv_store :: auth_store

definition hev_socks5_server_construct :: "int \<Rightarrow> 'a socks5_server_scheme \<Rightarrow> 'a socks5_server_scheme" where
  "hev_socks5_server_construct fd self =
     (hev_socks5_construct TYPE_NONE self)\<lparr>s5_fd := fd, sv_fd0 := - 1, sv_fd1 := - 1\<rparr>"

definition hev_socks5_server_new :: "int \<Rightarrow> auth_store \<Rightarrow> os \<Rightarrow> os \<times> socks5_server option" where
  "hev_socks5_server_new fd store os =
     (let (os1, ok) = sys_malloc os;
          zero = \<lparr>s5_fd = 0, s5_timeout = 0, s5_type = TYPE_NONE, s5_udp_associated = False,
                  s5_family = FAMILY_UNSPEC, sv_fd0 = 0, sv_fd1 = 0, sv_obj = ObjNull, sv_store = store\<rparr>
      in (os1, if ok then Some (hev_socks5_server_construct fd zero) else None))"

definition server_obj_unref :: "'a socks5_server_scheme \<Rightarrow> auth_store option" where
  "server_obj_unref self =
     (case sv_obj self of
        ObjNull \<Rightarrow> Some (sv_store self)
      | ObjAuth \<Rightarrow> authenticator_unref (sv_store self)
      | ObjUser n \<Rightarrow> Some (hev_object_unref n (sv_store self)))"

definition hev_socks5_server_set_auth ::
    "auth_store \<Rightarrow> 'a socks5_server_scheme \<Rightarrow> ('a socks5_server_scheme \<times> auth_store) option" where
  "hev_socks5_server_set_auth auth self =
     do {
       old \<leftarrow> server_obj_unref self;
       Some (self\<lparr>sv_store := authenticator_ref auth, sv_obj := ObjAuth\<rparr>, old)
     }"

section \<open>Authentication\<close>

definition hev_socks5_server_read_auth_method ::
    "'a socks5_server_scheme \<times> os \<Rightarrow> (('a socks5_server_scheme \<times> os) \<times> int) option" where
  "hev_socks5_server_read_auth_method st =
     do {
       (st1, auth, res) \<leftarrow> hev_task_io_socket_recv task_io_yielder (s5_fd (fst st)) 2 True False st;
       if res \<noteq> 2 then Some (st1, - 1)
       else if auth ! 0 \<noteq> HEV_SOCKS5_VERSION_5 then Some (st1, - 1)
       else do {
         let method_len = unat (auth ! 1);
         (st2, methods, res) \<leftarrow> hev_task_io_socket_recv task_io_yielder (s5_fd (fst st1)) method_len True False st1;
         if res \<noteq> int method_len then Some (st2, - 1)
         else
           let method = (if sv_obj (fst st2) \<noteq> ObjNull then HEV_SOCKS5_AUTH_METHOD_USER
                         else HEV_SOCKS5_AUTH_METHOD_NONE)
           in Some (st2, if method \<in> set methods then uint method else - 1)
       }
     }"

definition hev_socks5_server_write_auth_method ::
    "int \<Rightarrow> 'a socks5_server_scheme \<times> os \<Rightarrow> (('a socks5_server_scheme \<times> os) \<times> int) option" where
  "hev_socks5_server_write_auth_method auth_method st =
     do {
       (st1, res) \<leftarrow> hev_task_io_socket_send task_io_yielder (s5_fd (fst st))
         [HEV_SOCKS5_VERSION_5, of_int auth_method] st;
       Some (st1, if res \<le> 0 then - 1 else 0)
     }"

definition hev_socks5_server_read_auth_user ::
    "'a socks5_server_scheme \<times> os \<Rightarrow> (('a socks5_server_scheme \<times> os) \<times> int) option" where
  "hev_socks5_server_read_auth_user st =
     do {
       (st1, hdr, res) \<leftarrow> hev_task_io_socket_recv task_io_yielder (s5_fd (fst st)) 2 True False st;
       if res \<noteq> 2 then Some (st1, - 1)
       else if hdr ! 0 \<noteq> 1 then Some (st1, - 1)
       else if hdr ! 1 = 0 then Some (st1, - 1)
       else do {
         let nlen = unat (hdr ! 1);
         (st2, name, res) \<leftarrow> hev_task_io_socket_recv task_io_yielder (s5_fd (fst st1)) (nlen + 1) True False st1;
         if res \<noteq> int (nlen + 1) then Some (st2, - 1)
         else if name ! nlen = 0 then Some (st2, - 1)
         else do {
           let plen = unat (name ! nlen);
           (st3, pass, res) \<leftarrow> hev_task_io_socket_recv task_io_yielder (s5_fd (fst st2)) plen True False st2;
           if res \<noteq> int plen then Some (st3, - 1)
           else do {
             let self = fst st3;
             found \<leftarrow> hev_socks5_authenticator_get (sv_store self) (take nlen name);
             (case found of
                None \<Rightarrow> Some (st3, - 1)
              | Some user \<Rightarrow>
                  if hev_socks5_user_check (sv_store self) user pass < 0 then Some (st3, - 1)
                  else do {
                    store \<leftarrow> authenticator_unref (hev_object_ref user (sv_store self));
                    Some ((self\<lparr>sv_store := store, sv_obj := ObjUser user\<rparr>, snd st3), 0)
                  })
           }
         }
       }
     }"

definition hev_socks5_server_write_auth_user ::
    "int \<Rightarrow> 'a socks5_server_scheme \<times> os \<Rightarrow> (('a socks5_server_scheme \<times> os) \<times> int) option" where
  "hev_socks5_server_write_auth_user auth_res st =
     do {
       (st1, res) \<leftarrow> hev_task_io_socket_send task_io_yielder (s5_fd (fst st)) [1, of_int auth_res] st;
       Some (st1, if res \<le> 0 then - 1 else 0)
     }"

definition hev_socks5_server_auth ::
    "'a socks5_server_scheme \<times> os \<Rightarrow> (('a socks5_server_scheme \<times> os) \<times> int) option" where
  "hev_socks5_server_auth st =
     do {
       (st1, method) \<leftarrow> hev_socks5_server_read_auth_method st;
       (st2, res) \<leftarrow> hev_socks5_server_write_auth_method method st1;
       if res < 0 then Some (st2, - 1)
       else if method = uint HEV_SOCKS5_AUTH_METHOD_NONE then Some (st2, 0)
       else if method = uint HEV_SOCKS5_AUTH_METHOD_USER then do {
         (st3, res) \<leftarrow> hev_socks5_server_read_auth_user st2;
         (st4, res2) \<leftarrow> hev_socks5_server_write_auth_user res st3;
         Some (st4, if res < 0 \<or> res2 < 0 then - 1 else 0)
       }
       else Some (st2, - 1)
     }"

section \<open>The request\<close>

text \<open>
  \<^verbatim>\<open>hev_socks5_server_read_request\<close> with its out-parameters: the result, the command (meaningful
  only when the reply is still success), the reply and the address.
\<close>

definition req_addrlen :: "byte \<Rightarrow> byte \<Rightarrow> nat option" where
  "req_addrlen atype b =
     (if atype = HEV_SOCKS5_ADDR_TYPE_IPV4 then Some 5
      else if atype = HEV_SOCKS5_ADDR_TYPE_IPV6 then Some 17
      else if atype = HEV_SOCKS5_ADDR_TYPE_NAME then Some (2 + unat b)
      else None)"

text \<open>
  What a name that does not resolve leaves in the address: \<^verbatim>\<open>hev_socks5_name_into_sockaddr6\<close> has
  already stored the port and cleared the first ten bytes.
\<close>

definition unresolved :: "socks5_addr \<Rightarrow> sockaddr6 \<Rightarrow> sockaddr6" where
  "unresolved a sa = \<lparr>sin6_port = mem_u16 (mem_get a (2 + unat (a ! 1)) 2),
     sin6_addr = replicate 10 0 @ drop 10 (sin6_addr sa)\<rparr>"

definition hev_socks5_server_read_request ::
    "resolver \<Rightarrow> byte \<Rightarrow> sockaddr6 \<Rightarrow> 'a socks5_server_scheme \<times> os \<Rightarrow>
     (('a socks5_server_scheme \<times> os) \<times> int \<times> byte \<times> byte \<times> sockaddr6) option" where
  "hev_socks5_server_read_request rsv rep addr st =
     do {
       (st1, req, res) \<leftarrow> hev_task_io_socket_recv task_io_yielder (s5_fd (fst st)) 5 True False st;
       if res \<noteq> 5 then Some (st1, - 1, 0, rep, addr)
       else if req ! 0 \<noteq> HEV_SOCKS5_VERSION_5 then Some (st1, 0, 0, HEV_SOCKS5_RES_REP_FAIL, addr)
       else case req_addrlen (req ! 3) (req ! 4) of
         None \<Rightarrow> Some (st1, 0, 0, HEV_SOCKS5_RES_REP_ADDR, addr)
       | Some addrlen \<Rightarrow> do {
           (st2, bs, res) \<leftarrow> hev_task_io_socket_recv task_io_yielder (s5_fd (fst st1)) addrlen True False st1;
           if res \<noteq> int addrlen then Some (st2, 0, 0, HEV_SOCKS5_RES_REP_ADDR, addr)
           else
             let a = req ! 3 # req ! 4 # bs in
             case hev_socks5_addr_into_sockaddr6 rsv a (s5_family (fst st2)) of
               None \<Rightarrow> Some (st2, 0, 0, HEV_SOCKS5_RES_REP_ADDR, unresolved a addr)
             | Some (sa, family) \<Rightarrow>
                 Some ((hev_socks5_set_addr_family family (fst st2), snd st2), 0, req ! 1, rep, sa)
         }
     }"

definition hev_socks5_server_write_response ::
    "byte \<Rightarrow> sockaddr6 \<Rightarrow> 'a socks5_server_scheme \<times> os \<Rightarrow> (('a socks5_server_scheme \<times> os) \<times> int) option" where
  "hev_socks5_server_write_response rep addr st =
     do {
       let (a, len) = hev_socks5_addr_from_sockaddr6 (replicate ADDR_SIZE 0) addr;
       (st1, ret) \<leftarrow> hev_task_io_socket_send task_io_yielder (s5_fd (fst st))
         ([HEV_SOCKS5_VERSION_5, rep, 0] @ take (nat len) a) st;
       Some (st1, if ret \<le> 0 then - 1 else 0)
     }"

definition hev_socks5_server_connect ::
    "socks5_conf \<Rightarrow> (int \<Rightarrow> sockaddr6 \<Rightarrow> os \<Rightarrow> os \<times> int) \<Rightarrow> sockaddr6 \<Rightarrow>
     'a socks5_server_scheme \<times> os \<Rightarrow> (('a socks5_server_scheme \<times> os) \<times> int) option" where
  "hev_socks5_server_connect conf bnd addr st =
     (let (os1, fd) = hev_socks5_socket conf SOCK_STREAM (snd st) in
      if fd < 0 then Some ((fst st, os1), - 1)
      else
        let (os2, res) = bnd fd addr os1 in
        if res < 0 then Some ((fst st, sys_close fd os2), - 1)
        else do {
          (st3, res) \<leftarrow> hev_task_io_socket_connect task_io_yielder fd addr
            (hev_socks5_set_timeout (connect_timeout conf) (fst st), os2);
          if res < 0 then Some ((fst st3, sys_close fd (snd st3)), - 1)
          else Some (((hev_socks5_set_timeout (tcp_timeout conf) (fst st3))\<lparr>sv_fd0 := fd\<rparr>, snd st3), 0)
        })"

text \<open>\<^verbatim>\<open>hev_socks5_server_udp_bind\<close>, the class's own binder; it overwrites the address.\<close>

definition hev_socks5_server_udp_bind ::
    "int \<Rightarrow> sockaddr6 \<Rightarrow> 'a socks5_server_scheme \<times> os \<Rightarrow> os \<times> sockaddr6 \<times> int" where
  "hev_socks5_server_udp_bind sock src st =
     (let (os1, res) = sys_call (snd st) in
      if res < 0 then (os1, src, - 1)
      else
        let src1 = (os_sockname os1 (s5_fd (fst st)))\<lparr>sin6_port := 0\<rparr>;
            (os2, res) = sys_call os1 in
        if res < 0 then (os2, src1, - 1)
        else
          let (os3, res) = sys_call os2 in
          if res < 0 then (os3, src1, - 1) else (os3, os_sockname os3 sock, 0))"

definition hev_socks5_server_bind ::
    "socks5_conf \<Rightarrow> sockaddr6 option \<Rightarrow> 'a socks5_server_scheme \<times> os \<Rightarrow>
     ('a socks5_server_scheme \<times> os) \<times> sockaddr6 option \<times> int" where
  "hev_socks5_server_bind conf addr st =
     (let (os1, fd) = hev_socks5_socket conf SOCK_DGRAM (snd st) in
      if fd < 0 then ((fst st, os1), addr, - 1)
      else
        let self = (fst st)\<lparr>sv_fd0 := fd\<rparr> in
        case addr of
          None \<Rightarrow> ((self, os1), None, 0)
        | Some src \<Rightarrow>
            let (os2, fd2) = hev_socks5_socket conf SOCK_DGRAM os1 in
            if fd2 < 0 then ((self, os2), addr, - 1)
            else
              let (os3, res) = sys_setsockopt fd2 SO_REUSEADDR 1 os2 in
              if res < 0 then ((self, sys_close fd2 os3), addr, - 1)
              else
                let (os4, src1, res) = hev_socks5_server_udp_bind fd2 src (self, os3) in
                if res < 0 then ((self, sys_close fd2 os4), Some src1, - 1)
                else ((self\<lparr>sv_fd1 := fd2\<rparr>, os4), Some src1, 0))"

section \<open>The handshake\<close>

text \<open>The switch over the command: the object, the reply and the address of the response.\<close>

definition server_command ::
    "socks5_conf \<Rightarrow> (int \<Rightarrow> sockaddr6 \<Rightarrow> os \<Rightarrow> os \<times> int) \<Rightarrow> byte \<Rightarrow> sockaddr6 \<Rightarrow>
     'a socks5_server_scheme \<times> os \<Rightarrow> (('a socks5_server_scheme \<times> os) \<times> byte \<times> sockaddr6) option" where
  "server_command conf bnd cmd addr st =
     (let typed = \<lambda>ty st. ((fst st)\<lparr>s5_type := ty\<rparr>, snd st) in
      if cmd = HEV_SOCKS5_REQ_CMD_CONNECT then do {
        (st1, res) \<leftarrow> hev_socks5_server_connect conf bnd addr st;
        Some (typed TYPE_TCP st1, if res < 0 then HEV_SOCKS5_RES_REP_HOST else HEV_SOCKS5_RES_REP_SUCC, addr)
      }
      else if cmd = HEV_SOCKS5_REQ_CMD_UDP_ASC then
        let (st1, addr1, res) = hev_socks5_server_bind conf (Some addr) st
        in Some (typed TYPE_UDP_IN_UDP st1, if res < 0 then HEV_SOCKS5_RES_REP_FAIL else HEV_SOCKS5_RES_REP_SUCC,
                 case addr1 of Some a \<Rightarrow> a | None \<Rightarrow> addr)
      else if cmd = HEV_SOCKS5_REQ_CMD_FWD_UDP then
        let (st1, _, res) = hev_socks5_server_bind conf None st
        in Some (typed TYPE_UDP_IN_TCP st1, if res < 0 then HEV_SOCKS5_RES_REP_FAIL else HEV_SOCKS5_RES_REP_SUCC, addr)
      else Some (st, HEV_SOCKS5_RES_REP_IMPL, addr))"

definition hev_socks5_server_handshake ::
    "socks5_conf \<Rightarrow> resolver \<Rightarrow> (int \<Rightarrow> sockaddr6 \<Rightarrow> os \<Rightarrow> os \<times> int) \<Rightarrow>
     'a socks5_server_scheme \<times> os \<Rightarrow> (('a socks5_server_scheme \<times> os) \<times> int) option" where
  "hev_socks5_server_handshake conf rsv bnd st =
     do {
       (st1, res) \<leftarrow> hev_socks5_server_auth (hev_socks5_set_timeout (tcp_timeout conf) (fst st), snd st);
       if res < 0 then Some (st1, - 1)
       else do {
         (st2, res, cmd, rep, addr) \<leftarrow> hev_socks5_server_read_request rsv HEV_SOCKS5_RES_REP_SUCC
           \<lparr>sin6_port = 0, sin6_addr = replicate 16 0\<rparr> st1;
         if res < 0 then Some (st2, - 1)
         else do {
           (st3, rep, addr) \<leftarrow>
             (if rep = HEV_SOCKS5_RES_REP_SUCC then server_command conf bnd cmd addr st2
              else Some (st2, rep, addr));
           (st4, res) \<leftarrow> hev_socks5_server_write_response rep addr st3;
           Some (st4, if res < 0 \<or> rep \<noteq> HEV_SOCKS5_RES_REP_SUCC then - 1 else 0)
         }
       }
     }"

definition hev_socks5_server_get_fd :: "'a socks5_server_scheme \<Rightarrow> int" where
  "hev_socks5_server_get_fd self =
     (case s5_type self of
        TYPE_UDP_IN_TCP \<Rightarrow> s5_fd self
      | TYPE_UDP_IN_UDP \<Rightarrow> sv_fd1 self
      | _ \<Rightarrow> - 1)"

definition hev_socks5_server_destruct :: "'a socks5_server_scheme \<Rightarrow> os \<Rightarrow> (os \<times> auth_store) option" where
  "hev_socks5_server_destruct self os =
     do {
       let os1 = (if sv_fd0 self \<ge> 0 then sys_close (sv_fd0 self) os else os);
       let os2 = (if sv_fd1 self \<ge> 0 then sys_close (sv_fd1 self) os1 else os1);
       store \<leftarrow> server_obj_unref self;
       Some (hev_socks5_destruct self os2, store)
     }"

end
