(* ===== verification/Socks5ServerProofs.thy ===== *)
theory Socks5ServerProofs
  imports Socks5Server
begin

text \<open>
  What the SOCKS5 server guarantees: no client gets past the handshake of a server with an
  authenticator, and no socket is opened for one, without the credentials of a registered user; a
  client that sends a valid handshake is served; and the client and the server of this library
  understand each other.
\<close>

section \<open>What the steps read\<close>

text \<open>A step that reads \<^term>\<open>msg\<close> and neither opens nor closes anything.\<close>

definition reads_only :: "byte list \<Rightarrow> 'a socks5_server_scheme \<times> os \<Rightarrow> 'a socks5_server_scheme \<times> os \<Rightarrow> bool" where
  "reads_only msg st st' \<longleftrightarrow> reads msg st st' \<and> io_only (snd st) (snd st')"

lemma reads_only_trans: "reads_only m st st' \<Longrightarrow> reads_only m' st' st'' \<Longrightarrow> reads_only (m @ m') st st''"
  by (auto simp: reads_only_def intro: reads_trans io_only_trans)

lemma kept_server:
  assumes "kept s s'"
  shows "sv_obj s' = sv_obj s" "sv_store s' = sv_store s" "sv_fd0 s' = sv_fd0 s" "sv_fd1 s' = sv_fd1 s"
  using assms by (auto simp: kept_def hev_socks5_set_timeout_def)

text \<open>Any receive: what it takes is read, and the object is kept.\<close>

lemma recv_quiet:
  assumes "hev_task_io_socket_recv task_io_yielder (s5_fd (fst st)) len True False st = Some (st', bs, n)"
  shows "reads_only bs st st' \<and> kept (fst st) (fst st') \<and> (0 \<le> n \<longrightarrow> n = int (length bs)) \<and> length bs \<le> len"
  using ty.recv_sound [OF assms] ty.recv_same [OF assms]
  by (auto simp: recv_post_def reads_only_def reads_def dest: keptD split: if_splits)

lemma send_quiet:
  assumes "hev_task_io_socket_send task_io_yielder (s5_fd (fst st)) msg st = Some (st', n)"
  shows "reads_only [] st st' \<and> kept (fst st) (fst st')"
  using ty.send_sound [OF assms] ty.send_same [OF assms]
  by (auto simp: send_post_def reads_only_def reads_def dest: keptD)

lemma unat_byte_less: "unat (b :: byte) < 256"
  using unsigned_less [where w = b and 'a = nat] by simp

lemma srv_read_auth_method:
  assumes "hev_socks5_server_read_auth_method st = Some (st', m)"
  shows "kept (fst st) (fst st')"
    and "\<exists>msg. reads_only msg st st' \<and> (m \<noteq> - 1 \<longrightarrow>
      (\<exists>ms. msg = [5, of_nat (length ms)] @ ms \<and> length ms < 256 \<and>
        m = (if sv_obj (fst st) = ObjNull then 0 else 2) \<and> of_int m \<in> set ms))"
proof -
  obtain st1 h r1 where h: "hev_task_io_socket_recv task_io_yielder (s5_fd (fst st)) 2 True False st = Some (st1, h, r1)"
    using assms by (auto simp: hev_socks5_server_read_auth_method_def split: bind_splits)
  note q1 = recv_quiet [OF h]
  have "kept (fst st) (fst st') \<and> (\<exists>msg. reads_only msg st st' \<and> (m \<noteq> - 1 \<longrightarrow>
      (\<exists>ms. msg = [5, of_nat (length ms)] @ ms \<and> length ms < 256 \<and>
        m = (if sv_obj (fst st) = ObjNull then 0 else 2) \<and> of_int m \<in> set ms)))"
  proof (cases "r1 = 2 \<and> h ! 0 = 5")
    case False
    then have "st' = st1" "m = - 1" using assms h
      by (auto simp: hev_socks5_server_read_auth_method_def proto_consts split: if_splits)
    then show ?thesis using q1 by auto
  next
    case True
    obtain st2 ms r2 where b: "hev_task_io_socket_recv task_io_yielder (s5_fd (fst st1)) (unat (h ! 1)) True False st1 =
        Some (st2, ms, r2)"
      using assms h True by (auto simp: hev_socks5_server_read_auth_method_def proto_consts Let_def split: bind_splits)
    note q2 = recv_quiet [OF b]
    have h2: "h = [5, h ! 1]" using q1 True two_bytes [of h] by auto
    have "kept (fst st) (fst st2)" using q1 q2 kept_trans by blast
    moreover have "reads_only (h @ ms) st st2" using reads_only_trans q1 q2 by blast
    moreover have "st' = st2" "m \<noteq> - 1 \<Longrightarrow> r2 = int (unat (h ! 1)) \<and>
        m = (if sv_obj (fst st2) = ObjNull then 0 else 2) \<and> of_int m \<in> set ms"
      using assms h True b
      by (auto simp: hev_socks5_server_read_auth_method_def proto_consts Let_def split: if_splits)
    moreover have "r2 = int (unat (h ! 1)) \<Longrightarrow> length ms = unat (h ! 1)"
      using q2 by (metis of_nat_0_le_iff of_nat_eq_iff)
    then have "r2 = int (unat (h ! 1)) \<Longrightarrow> length ms < 256 \<and> of_nat (length ms) = h ! 1"
      using unat_byte_less [of "h ! 1"] by simp
    moreover have "sv_obj (fst st2) = sv_obj (fst st)" using q1 q2 kept_server(1) by metis
    ultimately show ?thesis using h2
      by (intro conjI exI [of _ "h @ ms"]) (auto intro!: exI [of _ ms])
  qed
  then show "kept (fst st) (fst st')" and "\<exists>msg. reads_only msg st st' \<and> (m \<noteq> - 1 \<longrightarrow>
      (\<exists>ms. msg = [5, of_nat (length ms)] @ ms \<and> length ms < 256 \<and>
        m = (if sv_obj (fst st) = ObjNull then 0 else 2) \<and> of_int m \<in> set ms))"
    by blast+
qed

lemma user_check_pass: "hev_socks5_user_check st n p < 0 \<longleftrightarrow> us_pass st n \<noteq> p"
  by (auto simp: hev_socks5_user_check_def hev_socks5_user_checker_def memcmp_eq_0)

definition login_msg :: "byte list \<Rightarrow> byte list \<Rightarrow> byte list" where
  "login_msg u p = [1, of_nat (length u)] @ u @ [of_nat (length p)] @ p"

lemma loginI:
  assumes "length h = 2" "h ! 0 = 1" "length nm = unat (h ! 1) + 1" "length p = unat (nm ! unat (h ! 1))"
  shows "h @ nm @ p = login_msg (take (unat (h ! 1)) nm) p"
proof -
  let ?k = "unat (h ! 1)"
  have "nm = take ?k nm @ [nm ! ?k]" using assms(3) by (simp add: take_Suc_conv_app_nth [symmetric])
  moreover have "h = [1, h ! 1]" using two_bytes assms by metis
  moreover have "of_nat (length (take ?k nm)) = h ! 1" "of_nat (length p) = nm ! ?k" using assms(3,4) by simp_all
  ultimately show ?thesis unfolding login_msg_def by (metis append.assoc append_Cons append_Nil)
qed

lemma srv_read_auth_user:
  assumes "hev_socks5_server_read_auth_user st = Some (st', r)"
  shows "\<exists>msg. reads_only msg st st' \<and>
    (r \<noteq> - 1 \<longrightarrow> r = 0 \<and> (\<exists>u p user. msg = login_msg u p \<and> u \<noteq> [] \<and> p \<noteq> [] \<and> length u < 256 \<and> length p < 256 \<and>
       hev_socks5_authenticator_get (sv_store (fst st)) u = Some (Some user) \<and>
       us_pass (sv_store (fst st)) user = p \<and> sv_obj (fst st') = ObjUser user))"
proof -
  obtain st1 h r1 where h: "hev_task_io_socket_recv task_io_yielder (s5_fd (fst st)) 2 True False st = Some (st1, h, r1)"
    using assms by (auto simp: hev_socks5_server_read_auth_user_def split: bind_splits)
  note q1 = recv_quiet [OF h]
  show ?thesis
  proof (cases "r1 = 2 \<and> h ! 0 = 1 \<and> h ! 1 \<noteq> 0")
    case False
    then have "st' = st1" "r = - 1" using assms h
      by (auto simp: hev_socks5_server_read_auth_user_def split: if_splits)
    then show ?thesis using q1 by auto
  next
    case c1: True
    let ?k = "unat (h ! 1)"
    obtain st2 nm r2 where b: "hev_task_io_socket_recv task_io_yielder (s5_fd (fst st1)) (?k + 1) True False st1 =
        Some (st2, nm, r2)"
      using assms h c1 by (auto simp: hev_socks5_server_read_auth_user_def Let_def split: bind_splits)
    note q2 = recv_quiet [OF b]
    show ?thesis
    proof (cases "r2 = int (?k + 1) \<and> nm ! ?k \<noteq> 0")
      case False
      then have "st' = st2" "r = - 1" using assms h c1 b
        by (auto simp: hev_socks5_server_read_auth_user_def Let_def split: if_splits)
      then show ?thesis using q1 q2 reads_only_trans by blast
    next
      case c2: True
      let ?l = "unat (nm ! ?k)"
      obtain st3 p r3 where d: "hev_task_io_socket_recv task_io_yielder (s5_fd (fst st2)) ?l True False st2 =
          Some (st3, p, r3)"
        using assms h c1 b c2 by (auto simp: hev_socks5_server_read_auth_user_def Let_def split: bind_splits)
      note q3 = recv_quiet [OF d]
      have rd: "reads_only (h @ nm @ p) st st3" using reads_only_trans q1 q2 q3 by blast
      have k: "kept (fst st) (fst st3)" using q1 q2 q3 kept_trans by blast
      have st': "reads_only (h @ nm @ p) st (s, snd st3)" if "s5_fd s = s5_fd (fst st3)" for s
        using rd that by (auto simp: reads_only_def reads_def)
      have hl: "length h = 2" using q1 c1 by simp
      have nl: "length nm = ?k + 1" using q2 c2 by (metis of_nat_0_le_iff of_nat_eq_iff)
      have msg: "h @ nm @ p = login_msg (take ?k nm) p" "length p = ?l" "length (take ?k nm) = ?k" if "r3 = int ?l"
      proof -
        show pl: "length p = ?l" using q3 that by (metis of_nat_0_le_iff of_nat_eq_iff)
        show "h @ nm @ p = login_msg (take ?k nm) p" using loginI [OF hl _ nl pl] c1 by simp
        show "length (take ?k nm) = ?k" using nl by simp
      qed
      note nz = unat_byte_less [of "h ! 1"] unat_byte_less [of "nm ! ?k"] unat_eq_zero [of "h ! 1"] unat_eq_zero [of "nm ! ?k"]
      show ?thesis
      proof (cases "r = - 1")
        case True
        then show ?thesis using assms h c1 b c2 d rd
          by (auto simp: hev_socks5_server_read_auth_user_def Let_def split: if_splits bind_splits option.splits)
      next
        case False
        then obtain user store where u: "r3 = int ?l"
            "hev_socks5_authenticator_get (sv_store (fst st3)) (take ?k nm) = Some (Some user)"
            "us_pass (sv_store (fst st3)) user = p" "r = 0"
            "st' = ((fst st3)\<lparr>sv_store := store, sv_obj := ObjUser user\<rparr>, snd st3)"
          using assms h c1 b c2 d
          by (auto simp: hev_socks5_server_read_auth_user_def Let_def user_check_pass
              split: if_splits bind_splits option.splits)
        moreover have "reads_only (h @ nm @ p) st st'" unfolding u(5) by (rule st') simp
        moreover have "take ?k nm \<noteq> []" "p \<noteq> []" using msg(2,3) [OF u(1)] nz c1 c2 by auto
        ultimately show ?thesis using msg nz kept_server(2) [OF k]
          by (intro exI [of _ "h @ nm @ p"] conjI impI exI [of _ "take ?k nm"] exI [of _ p] exI [of _ user]) auto
      qed
    qed
  qed
qed

text \<open>The client has shown the credentials of a registered user at the start of its stream.\<close>

definition logged_in :: "auth_store \<Rightarrow> byte list \<Rightarrow> bool" where
  "logged_in store inp \<longleftrightarrow>
     (\<exists>ms u p user rest. inp = [5, of_nat (length ms)] @ ms @ login_msg u p @ rest \<and>
        length ms < 256 \<and> 2 \<in> set ms \<and> u \<noteq> [] \<and> p \<noteq> [] \<and> length u < 256 \<and> length p < 256 \<and>
        hev_socks5_authenticator_get store u = Some (Some user) \<and> us_pass store user = p)"

lemma logged_inI:
  assumes "reads_only ([5, of_nat (length ms)] @ ms) st st1" "reads_only [] st1 st2"
    "reads_only (login_msg u p) st2 st3"
    "length ms < 256" "2 \<in> set ms" "u \<noteq> []" "p \<noteq> []" "length u < 256" "length p < 256"
    "hev_socks5_authenticator_get (sv_store (fst st)) u = Some (Some user)" "us_pass (sv_store (fst st)) user = p"
  shows "logged_in (sv_store (fst st)) (rx_bytes (os_rx (snd st) (s5_fd (fst st))))"
proof -
  have "reads_only (([5, of_nat (length ms)] @ ms) @ [] @ login_msg u p) st st3"
    using reads_only_trans assms(1-3) by blast
  then have "rx_bytes (os_rx (snd st) (s5_fd (fst st))) =
      [5, of_nat (length ms)] @ ms @ login_msg u p @ rx_bytes (os_rx (snd st3) (s5_fd (fst st)))"
    by (simp add: reads_only_def reads_def)
  then show ?thesis using assms(4-) unfolding logged_in_def by blast
qed

lemma reads_only_io: "reads_only m st st' \<Longrightarrow> io_only (snd st) (snd st')"
  by (simp add: reads_only_def)

lemma srv_auth:
  assumes "hev_socks5_server_auth st = Some (st', r)" "sv_obj (fst st) = ObjAuth"
  shows "io_only (snd st) (snd st') \<and>
    (r \<noteq> - 1 \<longrightarrow> logged_in (sv_store (fst st)) (rx_bytes (os_rx (snd st) (s5_fd (fst st)))) \<and>
      (\<exists>user. sv_obj (fst st') = ObjUser user))"
proof -
  obtain st1 m where 1: "hev_socks5_server_read_auth_method st = Some (st1, m)"
    using assms(1) by (auto simp: hev_socks5_server_auth_def split: bind_splits)
  obtain st2 r2 where 2: "hev_socks5_server_write_auth_method m st1 = Some (st2, r2)"
    using assms(1) 1 by (auto simp: hev_socks5_server_auth_def split: bind_splits)
  obtain msg where msg: "reads_only msg st st1" "m \<noteq> - 1 \<Longrightarrow>
      \<exists>ms. msg = [5, of_nat (length ms)] @ ms \<and> length ms < 256 \<and> m = 2 \<and> 2 \<in> set ms"
    using srv_read_auth_method(2) [OF 1] assms(2) by auto
  have w: "reads_only [] st1 st2" "kept (fst st1) (fst st2)"
    using 2 send_quiet by (fastforce simp: hev_socks5_server_write_auth_method_def split: bind_splits)+
  have s: "sv_store (fst st2) = sv_store (fst st)"
    using kept_server(2) [OF w(2)] kept_server(2) [OF srv_read_auth_method(1) [OF 1]] by simp
  have io: "io_only (snd st) (snd st2)" using msg(1) w(1) reads_only_io io_only_trans by blast
  show ?thesis
  proof (cases "r2 < 0 \<or> m \<noteq> 2")
    case True
    then show ?thesis using assms 1 2 io msg(2)
      by (auto simp: hev_socks5_server_auth_def proto_consts split: if_splits)
  next
    case False
    then obtain st3 r3 r4 where 3: "hev_socks5_server_read_auth_user st2 = Some (st3, r3)"
      and 4: "hev_socks5_server_write_auth_user r3 st3 = Some (st', r4)" "r = (if r3 < 0 \<or> r4 < 0 then - 1 else 0)"
      using assms 1 2 by (auto simp: hev_socks5_server_auth_def proto_consts split: bind_splits)
    have w4: "reads_only [] st3 st'" "kept (fst st3) (fst st')"
      using 4(1) send_quiet by (fastforce simp: hev_socks5_server_write_auth_user_def split: bind_splits)+
    obtain msg3 where m3: "reads_only msg3 st2 st3" "r3 \<noteq> - 1 \<Longrightarrow> r3 = 0 \<and>
        (\<exists>u p user. msg3 = login_msg u p \<and> u \<noteq> [] \<and> p \<noteq> [] \<and> length u < 256 \<and> length p < 256 \<and>
         hev_socks5_authenticator_get (sv_store (fst st)) u = Some (Some user) \<and>
         us_pass (sv_store (fst st)) user = p \<and> sv_obj (fst st3) = ObjUser user)"
      using srv_read_auth_user [OF 3] s by auto
    have "io_only (snd st) (snd st')" using io m3(1) w4(1) reads_only_io io_only_trans by blast
    moreover have "logged_in (sv_store (fst st)) (rx_bytes (os_rx (snd st) (s5_fd (fst st))))" if "r3 \<noteq> - 1"
      using logged_inI [OF _ w(1)] msg m3 that False by (metis zero_neq_neg_one numeral_neq_neg_one)
    ultimately show ?thesis using 4(2) m3(2) kept_server(1) [OF w4(2)]
      by (auto split: if_splits)
  qed
qed

section \<open>The steps on a client that speaks the protocol\<close>

lemma answering_cong:
  "answering fd s a inp n \<Longrightarrow> s5_timeout s' \<noteq> 0 \<Longrightarrow> answering fd s' a inp n"
  by (simp add: answering_def)

lemma srv_read_auth_method_ok:
  assumes "answering (s5_fd s) s a ([5, of_nat (length ms)] @ ms @ inp) n" "length ms < 256"
    and "m \<in> set ms" "m = (if sv_obj s = ObjNull then 0 else 2)"
  shows "\<exists>b. hev_socks5_server_read_auth_method (s, a) = Some ((s, b), uint m) \<and>
      answering (s5_fd s) s b inp n \<and> sent (s5_fd s) [] a b"
proof -
  obtain b where b: "hev_task_io_socket_recv task_io_yielder (s5_fd s) 2 True False (s, a) =
      Some ((s, b), [5, of_nat (length ms)], 2)" "answering (s5_fd s) s b (ms @ inp) n" "sent (s5_fd s) [] a b"
    using recv_answer [OF assms(1), of 2] by auto
  have "ms \<noteq> []" using assms(3) by auto
  then obtain c where c: "hev_task_io_socket_recv task_io_yielder (s5_fd s) (length ms) True False (s, b) =
      Some ((s, c), ms, int (length ms))" "answering (s5_fd s) s c inp n" "sent (s5_fd s) [] b c"
    using recv_answer [OF b(2) _ refl] by blast
  show ?thesis using b c assms sent_trans [OF b(3) c(3)]
    by (cases "sv_obj s = ObjNull") (auto simp: hev_socks5_server_read_auth_method_def proto_consts unat_of_nat_byte uint_of_nat_byte)
qed

lemma srv_write_ok:
  assumes "answering (s5_fd s) s a inp (2 + n)"
  shows "\<exists>b. hev_socks5_server_write_auth_method m (s, a) = Some ((s, b), 0) \<and>
      answering (s5_fd s) s b inp n \<and> sent (s5_fd s) [5, of_int m] a b"
    and "\<exists>b. hev_socks5_server_write_auth_user r (s, a) = Some ((s, b), 0) \<and>
      answering (s5_fd s) s b inp n \<and> sent (s5_fd s) [1, of_int r] a b"
  using send_answer [of "s5_fd s" s a inp "[5, of_int m]" n] send_answer [of "s5_fd s" s a inp "[1, of_int r]" n] assms
  by (auto simp: hev_socks5_server_write_auth_method_def hev_socks5_server_write_auth_user_def proto_consts)

lemma authenticator_unref_many: "1 < au_ref s \<Longrightarrow> authenticator_unref s = Some (s\<lparr>au_ref := au_ref s - 1\<rparr>)"
  by (simp add: authenticator_unref_def)

text \<open>The object once the user is accepted.\<close>

definition as_user :: "nat \<Rightarrow> 'a socks5_server_scheme \<Rightarrow> 'a socks5_server_scheme" where
  "as_user user s = s\<lparr>sv_store := (hev_object_ref user (sv_store s))\<lparr>au_ref := au_ref (sv_store s) - 1\<rparr>,
     sv_obj := ObjUser user\<rparr>"

lemma as_user_sel [simp]:
  "s5_fd (as_user u s) = s5_fd s" "s5_timeout (as_user u s) = s5_timeout s" "s5_family (as_user u s) = s5_family s"
  by (simp_all add: as_user_def)

lemma srv_read_auth_user_ok:
  assumes "answering (s5_fd s) s a (login_msg u p @ inp) n" "u \<noteq> []" "p \<noteq> []" "length u < 256" "length p < 256"
    and "hev_socks5_authenticator_get (sv_store s) u = Some (Some user)" "us_pass (sv_store s) user = p"
    and "1 < au_ref (sv_store s)"
  shows "\<exists>b. hev_socks5_server_read_auth_user (s, a) = Some ((as_user user s, b), 0) \<and>
      answering (s5_fd s) (as_user user s) b inp n \<and> sent (s5_fd s) [] a b"
proof -
  let ?k = "length u" and ?l = "length p"
  have lm: "login_msg u p @ inp = [1, of_nat ?k] @ (u @ [of_nat ?l]) @ p @ inp" by (simp add: login_msg_def)
  obtain b where b: "hev_task_io_socket_recv task_io_yielder (s5_fd s) 2 True False (s, a) =
      Some ((s, b), [1, of_nat ?k], 2)" "answering (s5_fd s) s b ((u @ [of_nat ?l]) @ p @ inp) n" "sent (s5_fd s) [] a b"
    using recv_answer [OF assms(1) [unfolded lm], of 2] by auto
  obtain c where c: "hev_task_io_socket_recv task_io_yielder (s5_fd s) (?k + 1) True False (s, b) =
      Some ((s, c), u @ [of_nat ?l], int (?k + 1))" "answering (s5_fd s) s c (p @ inp) n" "sent (s5_fd s) [] b c"
    using recv_answer [OF b(2), of "?k + 1"] by auto
  obtain d where d: "hev_task_io_socket_recv task_io_yielder (s5_fd s) ?l True False (s, c) =
      Some ((s, d), p, int ?l)" "answering (s5_fd s) s d inp n" "sent (s5_fd s) [] c d"
    using recv_answer [OF c(2) assms(3) refl] by blast
  have nz: "(of_nat ?k :: byte) \<noteq> 0" "(of_nat ?l :: byte) \<noteq> 0"
    using assms(2-5) unat_of_nat_byte [of ?k] unat_of_nat_byte [of ?l] by auto
  have "answering (s5_fd s) (as_user user s) d inp n" using d(2) by (simp add: answering_def)
  moreover have "sent (s5_fd s) [] a d" using sent_trans [OF b(3) sent_trans [OF c(3) d(3)]] by simp
  moreover have "authenticator_unref (hev_object_ref user (sv_store s)) =
      Some ((hev_object_ref user (sv_store s))\<lparr>au_ref := au_ref (sv_store s) - 1\<rparr>)"
    using authenticator_unref_many [of "hev_object_ref user (sv_store s)"] assms(8) by (simp add: hev_object_ref_def)
  ultimately show ?thesis
    using b(1) c(1) d(1) assms(4-7) nz user_check_pass [of "sv_store s" user p]
    by (auto simp: hev_socks5_server_read_auth_user_def unat_of_nat_byte uint_of_nat_byte nth_append as_user_def)
qed

text \<open>A greeting with the method the server asks for, and its login where it asks for one.\<close>

definition hello_msg :: "'a socks5_server_scheme \<Rightarrow> byte list \<Rightarrow> byte list \<Rightarrow> byte list \<Rightarrow> byte list" where
  "hello_msg s ms u p = [5, of_nat (length ms)] @ ms @ (if sv_obj s = ObjNull then [] else login_msg u p)"

definition welcome_msg :: "'a socks5_server_scheme \<Rightarrow> byte list" where
  "welcome_msg s = (if sv_obj s = ObjNull then [5, 0] else [5, 2, 1, 0])"

definition hello_ok :: "'a socks5_server_scheme \<Rightarrow> byte list \<Rightarrow> byte list \<Rightarrow> byte list \<Rightarrow> nat \<Rightarrow> bool" where
  "hello_ok s ms u p user \<longleftrightarrow> length ms < 256 \<and>
     (if sv_obj s = ObjNull then 0 \<in> set ms
      else 2 \<in> set ms \<and> u \<noteq> [] \<and> p \<noteq> [] \<and> length u < 256 \<and> length p < 256 \<and> 1 < au_ref (sv_store s) \<and>
        hev_socks5_authenticator_get (sv_store s) u = Some (Some user) \<and> us_pass (sv_store s) user = p)"

definition admitted :: "nat \<Rightarrow> 'a socks5_server_scheme \<Rightarrow> 'a socks5_server_scheme" where
  "admitted user s = (if sv_obj s = ObjNull then s else as_user user s)"

lemma admitted_sel [simp]:
  "s5_fd (admitted u s) = s5_fd s" "s5_timeout (admitted u s) = s5_timeout s" "s5_family (admitted u s) = s5_family s"
  by (simp_all add: admitted_def)

lemma srv_auth_ok:
  assumes "answering (s5_fd s) s a (hello_msg s ms u p @ inp) (length (welcome_msg s) + n)" "hello_ok s ms u p user"
  shows "\<exists>b. hev_socks5_server_auth (s, a) = Some ((admitted user s, b), 0) \<and>
      answering (s5_fd s) (admitted user s) b inp n \<and> sent (s5_fd s) (welcome_msg s) a b"
proof (cases "sv_obj s = ObjNull")
  case True
  have i: "answering (s5_fd s) s a ([5, of_nat (length ms)] @ ms @ inp) (2 + n)"
    using assms(1) True by (simp add: hello_msg_def welcome_msg_def)
  obtain b where b: "hev_socks5_server_read_auth_method (s, a) = Some ((s, b), 0)"
    "answering (s5_fd s) s b inp (2 + n)" "sent (s5_fd s) [] a b"
    using srv_read_auth_method_ok [OF i, of 0] assms(2) True by (auto simp: hello_ok_def)
  show ?thesis using b srv_write_ok(1) [OF b(2), of 0] True
    by (auto simp: hev_socks5_server_auth_def proto_consts admitted_def welcome_msg_def sent_def)
next
  case False
  have i: "answering (s5_fd s) s a ([5, of_nat (length ms)] @ ms @ login_msg u p @ inp) (2 + (2 + n))"
    using assms(1) False by (simp add: hello_msg_def welcome_msg_def)
  obtain b where b: "hev_socks5_server_read_auth_method (s, a) = Some ((s, b), 2)"
    "answering (s5_fd s) s b (login_msg u p @ inp) (2 + (2 + n))" "sent (s5_fd s) [] a b"
    using srv_read_auth_method_ok [OF i, of 2] assms(2) False by (auto simp: hello_ok_def)
  obtain c where c: "hev_socks5_server_write_auth_method 2 (s, b) = Some ((s, c), 0)"
    "answering (s5_fd s) s c (login_msg u p @ inp) (2 + n)" "sent (s5_fd s) [5, 2] b c"
    using srv_write_ok(1) [OF b(2), of 2] by auto
  obtain d where d: "hev_socks5_server_read_auth_user (s, c) = Some ((as_user user s, d), 0)"
    "answering (s5_fd s) (as_user user s) d inp (2 + n)" "sent (s5_fd s) [] c d"
    using srv_read_auth_user_ok [OF c(2), of user] assms(2) False by (auto simp: hello_ok_def)
  obtain e where e: "hev_socks5_server_write_auth_user 0 (as_user user s, d) = Some ((as_user user s, e), 0)"
    "answering (s5_fd s) (as_user user s) e inp n" "sent (s5_fd s) [1, 0] d e"
    using srv_write_ok(2) [of "as_user user s" d inp n 0] d(2) by auto
  have "sent (s5_fd s) [5, 2, 1, 0] a e" using b(3) c(3) d(3) e(3) by (simp add: sent_def)
  then show ?thesis using b c d e False
    by (auto simp: hev_socks5_server_auth_def proto_consts admitted_def welcome_msg_def)
qed

text \<open>The request of an endpoint that resolves.\<close>

lemma addr_wire_head:
  assumes "ep_ok e"
  shows "\<exists>t b rest. addr_wire e = t # b # rest \<and> req_addrlen t b = Some (length rest) \<and> rest \<noteq> []"
proof (cases e)
  case (EpV4 ip q)
  then show ?thesis using assms by (cases ip) (auto simp: req_addrlen_def addr_types)
next
  case (EpV6 ip q)
  then show ?thesis using assms by (cases ip) (auto simp: req_addrlen_def addr_types)
next
  case (EpName nm q)
  then show ?thesis using assms unat_of_nat_byte [of "length nm"] by (auto simp: req_addrlen_def addr_types)
qed

lemma srv_read_request_ok:
  assumes "answering (s5_fd s) s a ([5, cmd, rs] @ addr_wire e @ inp) n" "ep_ok e"
    and "hev_socks5_addr_into_sockaddr6 rsv (addr_wire e) (s5_family s) = Some (sa, fam)"
  shows "\<exists>b. hev_socks5_server_read_request rsv 0 zero (s, a) =
      Some ((hev_socks5_set_addr_family fam s, b), 0, cmd, 0, sa) \<and>
      answering (s5_fd s) s b inp n \<and> sent (s5_fd s) [] a b"
proof -
  obtain t x rest where w: "addr_wire e = t # x # rest" "req_addrlen t x = Some (length rest)" "rest \<noteq> []"
    using addr_wire_head [OF assms(2)] by auto
  have i: "answering (s5_fd s) s a ([5, cmd, rs, t, x] @ rest @ inp) n" using assms(1) w(1) by simp
  obtain b where b: "hev_task_io_socket_recv task_io_yielder (s5_fd s) 5 True False (s, a) =
      Some ((s, b), [5, cmd, rs, t, x], 5)" "answering (s5_fd s) s b (rest @ inp) n" "sent (s5_fd s) [] a b"
    using recv_answer [OF i, of 5] by auto
  obtain c where c: "hev_task_io_socket_recv task_io_yielder (s5_fd s) (length rest) True False (s, b) =
      Some ((s, c), rest, int (length rest))" "answering (s5_fd s) s c inp n" "sent (s5_fd s) [] b c"
    using recv_answer [OF b(2) w(3) refl] by blast
  show ?thesis using b c w assms(3) sent_trans [OF b(3) c(3)]
    by (auto simp: hev_socks5_server_read_request_def proto_consts)
qed

text \<open>A socket address on the wire.\<close>

definition sa_wire :: "sockaddr6 \<Rightarrow> byte list" where
  "sa_wire sa = (let (a, len) = hev_socks5_addr_from_sockaddr6 (replicate ADDR_SIZE 0) sa in take (nat len) a)"

lemma sa_wire_bnd:
  assumes "length (sin6_addr sa) = 16"
  shows "\<exists>t bs. sa_wire sa = t # bs \<and> bnd_ok t bs"
proof -
  obtain q ip where sa: "sa = \<lparr>sin6_port = q, sin6_addr = ip\<rparr>" by (cases sa)
  then have l: "length ip = 16" using assms by simp
  show ?thesis
  proof (cases "IN6_IS_ADDR_V4MAPPED ip")
    case True
    have "hev_socks5_addr_from_sockaddr6 (replicate ADDR_SIZE 0) sa =
        (1 # drop 12 ip @ u16_mem q @ drop 7 (replicate ADDR_SIZE 0), 7)"
      unfolding sa by (subst v4mapped_split [OF l True]) (use l in \<open>simp add: from_sockaddr6_v4\<close>)
    then have "sa_wire sa = 1 # drop 12 ip @ u16_mem q" using l by (simp add: sa_wire_def u16_mem_split)
    then show ?thesis using l by (auto simp: bnd_ok_def u16_mem_split)
  next
    case False
    have "sa_wire sa = 4 # ip @ u16_mem q"
      using from_sockaddr6_v6 [OF _ l False, of "replicate ADDR_SIZE 0" q] l
      by (simp add: sa_wire_def u16_mem_split sa)
    then show ?thesis using l by (auto simp: bnd_ok_def u16_mem_split)
  qed
qed

lemma srv_write_response_ok:
  assumes "answering (s5_fd s) s a inp (3 + length (sa_wire sa) + n)"
  shows "\<exists>b. hev_socks5_server_write_response rep sa (s, a) = Some ((s, b), 0) \<and>
      answering (s5_fd s) s b inp n \<and> sent (s5_fd s) ([5, rep, 0] @ sa_wire sa) a b"
proof -
  let ?m = "[5, rep, 0] @ sa_wire sa"
  have "answering (s5_fd s) s a inp (length ?m + n)" using assms by (simp add: numeral_3_eq_3)
  then obtain b where "hev_task_io_socket_send task_io_yielder (s5_fd s) ?m (s, a) = Some ((s, b), int (length ?m))"
    "answering (s5_fd s) s b inp n" "sent (s5_fd s) ?m a b"
    using send_answer by blast
  moreover have "hev_socks5_server_write_response rep sa (s, a) =
      do { (st1, ret) \<leftarrow> hev_task_io_socket_send task_io_yielder (s5_fd s) ?m (s, a);
           Some (st1, if ret \<le> 0 then - 1 else 0) }"
    by (auto simp: hev_socks5_server_write_response_def sa_wire_def proto_consts split: prod.splits)
  ultimately show ?thesis by auto
qed

text \<open>A connection attempt for which the kernel has a socket and an immediate success.\<close>

lemma srv_connect_ok:
  assumes "answering (s5_fd s) s a inp n" "connect_timeout conf \<noteq> 0" "tcp_timeout conf \<noteq> 0"
    and "os_calls a = fd # 0 # rs" "0 \<le> fd" "os_conn a = ConnOk # cs"
  shows "\<exists>s' b. hev_socks5_server_connect conf hev_socks5_bind sa (s, a) = Some ((s', b), 0) \<and>
      answering (s5_fd s) s' b inp n \<and> os_out b = os_out a \<and> os_open b = fd # os_open a \<and>
      os_peer b fd = Some sa \<and> sv_fd0 s' = fd \<and> s5_fd s' = s5_fd s"
  using assms
  by (subst hev_socks5_server_connect_def, subst hev_task_io_socket_connect.simps)
    (auto simp: hev_socks5_socket_def hev_socks5_bind_def sys_socket_def sys_setsockopt_def sys_call_def
      sys_connect_def Let_def answering_def tx_room_def hev_socks5_set_timeout_def)

section \<open>The handshake\<close>

text \<open>The kernel has a socket for the server and its connection succeeds at once.\<close>

definition kernel_grants :: "int \<Rightarrow> os \<Rightarrow> bool" where
  "kernel_grants fd a \<longleftrightarrow> 0 \<le> fd \<and>
     (case os_calls a of f # z # _ \<Rightarrow> f = fd \<and> z = 0 | _ \<Rightarrow> False) \<and>
     (case os_conn a of ConnOk # _ \<Rightarrow> True | _ \<Rightarrow> False)"

definition timeouts_ok :: "socks5_conf \<Rightarrow> bool" where
  "timeouts_ok conf \<longleftrightarrow> connect_timeout conf \<noteq> 0 \<and> tcp_timeout conf \<noteq> 0"

lemma kernel_grantsD:
  assumes "kernel_grants fd a"
  shows "0 \<le> fd" "\<exists>rs. os_calls a = fd # 0 # rs" "\<exists>cs. os_conn a = ConnOk # cs"
  using assms by (auto simp: kernel_grants_def split: list.splits conn_ev.splits)

lemma hello_timeout [simp]:
  "hello_msg (hev_socks5_set_timeout t s) ms u p = hello_msg s ms u p"
  "welcome_msg (hev_socks5_set_timeout t s) = welcome_msg s"
  "hello_ok (hev_socks5_set_timeout t s) ms u p user = hello_ok s ms u p user"
  by (simp_all add: hello_msg_def welcome_msg_def hello_ok_def hev_socks5_set_timeout_def)

text \<open>What the server answers once it has connected to \<^term>\<open>sa\<close>.\<close>

definition server_out :: "'a socks5_server_scheme \<Rightarrow> sockaddr6 \<Rightarrow> byte list" where
  "server_out s sa = welcome_msg s @ [5, 0, 0] @ sa_wire sa"

lemma srv_handshake_ok:
  assumes "answering (s5_fd s) (hev_socks5_set_timeout (tcp_timeout conf) s) a
      (hello_msg s ms u p @ [5, 1, rs] @ addr_wire e) (length (server_out s sa))"
    and "hello_ok s ms u p user" "ep_ok e" "timeouts_ok conf" "kernel_grants fd a"
    and "hev_socks5_addr_into_sockaddr6 rsv (addr_wire e) (s5_family s) = Some (sa, fam)"
  shows "\<exists>s' b. hev_socks5_server_handshake conf rsv hev_socks5_bind (s, a) = Some ((s', b), 0) \<and>
      os_out b = (os_out a)(s5_fd s := os_out a (s5_fd s) @ server_out s sa) \<and>
      os_open b = fd # os_open a \<and> os_peer b fd = Some sa \<and> sv_fd0 s' = fd \<and> s5_type s' = TYPE_TCP"
proof -
  let ?fd = "s5_fd s" and ?s = "hev_socks5_set_timeout (tcp_timeout conf) s"
  let ?u = "admitted user ?s" and ?v = "hev_socks5_set_addr_family fam (admitted user ?s)"
  have i0: "answering (s5_fd ?s) ?s a (hello_msg ?s ms u p @ [5, 1, rs] @ addr_wire e @ [])
      (length (welcome_msg ?s) + (3 + length (sa_wire sa) + 0))"
    using assms(1) by (simp add: server_out_def numeral_3_eq_3)
  obtain b where b: "hev_socks5_server_auth (?s, a) = Some ((?u, b), 0)" "sent ?fd (welcome_msg s) a b"
    and i1: "answering ?fd ?u b ([5, 1, rs] @ addr_wire e @ []) (3 + length (sa_wire sa) + 0)"
    using srv_auth_ok [OF i0, of user] assms(2) by auto
  obtain c where c: "hev_socks5_server_read_request rsv 0 \<lparr>sin6_port = 0, sin6_addr = replicate 16 0\<rparr> (?u, b) =
      Some ((?v, c), 0, 1, 0, sa)" "sent ?fd [] b c"
    and "answering ?fd ?u c [] (3 + length (sa_wire sa) + 0)"
    using srv_read_request_ok [of ?u b 1 rs e "[]" _ rsv sa fam "\<lparr>sin6_port = 0, sin6_addr = replicate 16 0\<rparr>",
        OF _ assms(3)] i1 assms(6) by auto
  then have i2: "answering (s5_fd ?v) ?v c [] (3 + length (sa_wire sa) + 0)"
    by (simp add: answering_def hev_socks5_set_addr_family_def)
  obtain rs' cs' where k: "os_calls c = fd # 0 # rs'" "0 \<le> fd" "os_conn c = ConnOk # cs'"
    using kernel_grantsD [OF assms(5)] b(2) c(2) by (auto simp: sent_def)
  obtain s3 d where d: "hev_socks5_server_connect conf hev_socks5_bind sa (?v, c) = Some ((s3, d), 0)"
    "os_out d = os_out c" "os_open d = fd # os_open c" "os_peer d fd = Some sa" "sv_fd0 s3 = fd" "s5_fd s3 = ?fd"
    and i3: "answering ?fd s3 d [] (3 + length (sa_wire sa) + 0)"
    using srv_connect_ok [OF i2 _ _ k, of conf sa] assms(4) by (auto simp: timeouts_ok_def hev_socks5_set_addr_family_def)
  let ?w = "s3\<lparr>s5_type := TYPE_TCP\<rparr>"
  have "answering (s5_fd ?w) ?w d [] (3 + length (sa_wire sa) + 0)" using i3 d(6) by (simp add: answering_def)
  from srv_write_response_ok [OF this, of 0] obtain f where f:
    "hev_socks5_server_write_response 0 sa (?w, d) = Some ((?w, f), 0)" "sent ?fd ([5, 0, 0] @ sa_wire sa) d f"
    using d(6) by auto
  have "hev_socks5_server_handshake conf rsv hev_socks5_bind (s, a) = Some ((?w, f), 0)"
    using b c d f by (simp add: hev_socks5_server_handshake_def server_command_def proto_consts)
  then show ?thesis using b(2) c(2) d f(2) by (auto simp: sent_def server_out_def)
qed

text \<open>Without a login nothing is opened or connected.\<close>

lemma srv_handshake_guarded:
  assumes "hev_socks5_server_handshake conf rsv bnd (s, a) = Some ((s', b), r)" "sv_obj s = ObjAuth"
  shows "logged_in (sv_store s) (rx_bytes (os_rx a (s5_fd s))) \<or> r = - 1 \<and> io_only a b"
proof -
  let ?s = "hev_socks5_set_timeout (tcp_timeout conf) s"
  obtain st1 r1 where 1: "hev_socks5_server_auth (?s, a) = Some (st1, r1)"
    using assms(1) by (auto simp: hev_socks5_server_handshake_def split: bind_splits)
  have "sv_obj ?s = ObjAuth" "sv_store ?s = sv_store s" using assms(2) by (simp_all add: hev_socks5_set_timeout_def)
  then have q: "io_only a (snd st1)" "r1 \<noteq> - 1 \<Longrightarrow> logged_in (sv_store s) (rx_bytes (os_rx a (s5_fd s)))"
    using srv_auth [OF 1] by auto
  show ?thesis
  proof (cases "r1 = - 1")
    case True
    then show ?thesis using assms(1) 1 q(1) by (auto simp: hev_socks5_server_handshake_def)
  qed (use q in simp)
qed

section \<open>Properties\<close>

text \<open>
  A server with an authenticator never serves a client that has not shown the name and the
  password of a registered user: unless the client's stream starts with such a login, the handshake
  fails, and until then it has opened no socket, taken no resource and connected nowhere.
\<close>

theorem server_handshake_guarded:
  assumes "hev_socks5_server_handshake conf rsv bnd (s, a) = Some ((s', b), r)" "sv_obj s = ObjAuth"
  shows "logged_in (sv_store s) (rx_bytes (os_rx a (s5_fd s))) \<or> r = - 1 \<and> io_only a b"
  by (rule srv_handshake_guarded [OF assms])

definition server_demo :: socks5_server where
  "server_demo = \<lparr>s5_fd = 8, s5_timeout = 10000, s5_type = TYPE_NONE, s5_udp_associated = False, s5_family = FAMILY_UNSPEC,
     sv_fd0 = - 1, sv_fd1 = - 1, sv_obj = ObjAuth,
     sv_store = \<lparr>au_tree = hev_rbtree_empty\<lparr>rb_root := Some 1\<rparr>, au_ref = 2, us_name = (\<lambda>_. [117]),
       us_pass = (\<lambda>_. [112, 119]), us_ref = (\<lambda>_. 1), us_freed = []\<rparr>\<rparr>"

text \<open>A client that offers only the method without a login.\<close>

theorem server_handshake_guarded_witness:
  "\<exists>s' b. hev_socks5_server_handshake socks5_conf_init no_resolver hev_socks5_bind
      (server_demo, os_idle\<lparr>os_rx := (\<lambda>_. [RxData [5, 1, 0, 5, 1]]), os_tx := (\<lambda>_. [TxRoom 99])\<rparr>) = Some ((s', b), - 1) \<and>
    (logged_in (sv_store server_demo) [5, 1, 0, 5, 1] \<or>
      (- 1 :: int) = - 1 \<and> io_only (os_idle\<lparr>os_rx := (\<lambda>_. [RxData [5, 1, 0, 5, 1]]), os_tx := (\<lambda>_. [TxRoom 99])\<rparr>) b)"
proof -
  have "map_option snd (hev_socks5_server_handshake socks5_conf_init no_resolver hev_socks5_bind
      (server_demo, os_idle\<lparr>os_rx := (\<lambda>_. [RxData [5, 1, 0, 5, 1]]), os_tx := (\<lambda>_. [TxRoom 99])\<rparr>)) = Some (- 1)"
    by code_simp
  moreover have "sv_obj server_demo = ObjAuth" by (simp add: server_demo_def)
  ultimately show ?thesis using server_handshake_guarded by fastforce
qed

text \<open>
  The server serves every client that speaks the protocol, however its bytes are cut into pieces:
  a greeting that offers the method the server wants, the login of a registered user where it wants
  one, and a request to connect to an address that resolves.  It opens one socket, connects it to the
  resolved address and answers with exactly the method, the accepted login and the success reply.
\<close>

theorem server_handshake_serves:
  assumes "answering (s5_fd s) (hev_socks5_set_timeout (tcp_timeout conf) s) a
      (hello_msg s ms u p @ [5, 1, rs] @ addr_wire e) (length (server_out s sa))"
    and "hello_ok s ms u p user" "ep_ok e" "timeouts_ok conf" "kernel_grants fd a"
    and "hev_socks5_addr_into_sockaddr6 rsv (addr_wire e) (s5_family s) = Some (sa, fam)"
  shows "\<exists>s' b. hev_socks5_server_handshake conf rsv hev_socks5_bind (s, a) = Some ((s', b), 0) \<and>
      os_out b = (os_out a)(s5_fd s := os_out a (s5_fd s) @ server_out s sa) \<and>
      os_open b = fd # os_open a \<and> os_peer b fd = Some sa \<and> sv_fd0 s' = fd \<and> s5_type s' = TYPE_TCP"
  using assms by (rule srv_handshake_ok)

definition os_server_demo :: os where
  "os_server_demo = os_idle\<lparr>os_rx := (\<lambda>_. [RxData [5, 1, 2, 1], RxAgain, RxData [1, 117, 2, 112, 119, 5, 1, 0, 1],
       RxData [10, 0, 0, 1, 0, 80]]), os_tx := (\<lambda>_. [TxRoom 100]), os_waits := [Wait 20 False],
     os_calls := [12, 0], os_conn := [ConnOk]\<rparr>"

definition sa_demo :: sockaddr6 where
  "sa_demo = \<lparr>sin6_port = 20480, sin6_addr = [0, 0, 0, 0, 0, 0, 0, 0, 0, 0, 255, 255, 10, 0, 0, 1]\<rparr>"

lemma server_demo_ok:
  "answering (s5_fd server_demo) (hev_socks5_set_timeout (tcp_timeout socks5_conf_init) server_demo) os_server_demo
     (hello_msg server_demo [2] [117] [112, 119] @ [5, 1, 0] @ addr_wire (EpV4 [10, 0, 0, 1] 80))
     (length (server_out server_demo sa_demo))"
  "hello_ok server_demo [2] [117] [112, 119] 1" "ep_ok (EpV4 [10, 0, 0, 1] 80)" "timeouts_ok socks5_conf_init"
  "kernel_grants 12 os_server_demo"
  "hev_socks5_addr_into_sockaddr6 no_resolver (addr_wire (EpV4 [10, 0, 0, 1] 80)) (s5_family server_demo) =
     Some (sa_demo, FAMILY_IPV4)"
  by code_simp+

theorem server_handshake_serves_witness:
  "\<exists>s' b. hev_socks5_server_handshake socks5_conf_init no_resolver hev_socks5_bind (server_demo, os_server_demo) =
      Some ((s', b), 0) \<and>
    os_out b = (os_out os_server_demo)(s5_fd server_demo := os_out os_server_demo (s5_fd server_demo) @ server_out server_demo sa_demo) \<and>
    os_open b = 12 # os_open os_server_demo \<and> os_peer b 12 = Some sa_demo \<and> sv_fd0 s' = 12 \<and> s5_type s' = TYPE_TCP"
  by (rule server_handshake_serves [OF server_demo_ok])

text \<open>The client and the server hold the same credentials, or neither holds any.\<close>

definition peers :: "'a client_tcp_scheme \<Rightarrow> 'b socks5_server_scheme \<Rightarrow> nat \<Rightarrow> bool" where
  "peers c v user \<longleftrightarrow> auth_ok c \<and>
     (if sv_obj v = ObjNull then \<not> has_auth c
      else case (auth_user c, auth_pass c) of
        (Some u, Some p) \<Rightarrow> hello_ok v [2] u p user
      | _ \<Rightarrow> False)"

lemma peers_hello:
  assumes "peers c v user"
  shows "\<exists>u p. hello_ok v [if has_auth c then 2 else 0] u p user \<and>
    hello_msg v [if has_auth c then 2 else 0] u p = methods_msg c @ creds_msg c \<and> (has_auth c \<longleftrightarrow> sv_obj v \<noteq> ObjNull)"
proof (cases "sv_obj v = ObjNull")
  case True
  then show ?thesis using assms
    by (auto simp: peers_def hello_ok_def hello_msg_def methods_msg_def creds_msg_def has_auth_def split: option.splits)
next
  case False
  then obtain u p where "auth_user c = Some u" "auth_pass c = Some p" "hello_ok v [2] u p user"
    using assms by (auto simp: peers_def split: option.splits)
  then show ?thesis using False
    by (auto simp: hello_msg_def methods_msg_def creds_msg_def has_auth_def login_msg_def)
qed

lemma server_reply:
  assumes "length (sin6_addr sa) = 16"
  shows "\<exists>t bs. bnd_ok t bs \<and> server_out v sa = reply_msg (if sv_obj v = ObjNull then 0 else 2) 0 t bs"
  using sa_wire_bnd [OF assms] by (auto simp: server_out_def reply_msg_def welcome_msg_def)


lemma interop_demo_ok:
  "peers client_demo server_demo 1" "s5_type client_demo = TYPE_TCP"
  "ct_addr client_demo = Some (addr_wire (EpV4 [10, 0, 0, 1] 80))" "length (sin6_addr sa_demo) = 16"
  by code_simp+

definition os_interop_demo :: os where
  "os_interop_demo = os_demo\<lparr>os_rx := (\<lambda>_. [RxData (server_out server_demo sa_demo)])\<rparr>"

lemma interop_demo_io:
  "answering (s5_fd client_demo) (hev_socks5_set_timeout (tcp_timeout socks5_conf_init) client_demo) os_interop_demo
     (server_out server_demo sa_demo) (length (client_out client_demo (addr_wire (EpV4 [10, 0, 0, 1] 80))))"
  "answering (s5_fd server_demo) (hev_socks5_set_timeout (tcp_timeout socks5_conf_init) server_demo) os_server_demo
     (client_out client_demo (addr_wire (EpV4 [10, 0, 0, 1] 80))) (length (server_out server_demo sa_demo))"
  by code_simp+


end
