(* ===== verification/Socks5UDP.thy ===== *)
theory Socks5UDP
  imports Socks5Client
begin

text \<open>
  The UDP relay of the core library, \<^verbatim>\<open>src/core/src/hev-socks5-udp.c\<close>: datagrams framed on a TCP
  connection (\<^verbatim>\<open>UDP_IN_TCP\<close>) or carried with a SOCKS5 header in datagrams (\<^verbatim>\<open>UDP_IN_UDP\<close>), and the
  splicer that relays between such a connection and a datagram socket.  The virtual methods
  \<^verbatim>\<open>get_fd\<close> and \<^verbatim>\<open>binder\<close> are parameters.  A buffer is the list of the bytes in it, whatever is left
  there from before; reading an entry that no message has filled is \<^term>\<open>None\<close>.
\<close>

section \<open>Yielding\<close>

text \<open>The yielder looks at the control connection first: once that is closed, the relay ends.\<close>

definition udp_task_io_yielder :: "'a socks5_scheme yielder" where
  "udp_task_io_yielder ty st =
     (if s5_type (fst st) = TYPE_UDP_IN_UDP then
        let (os1, r) = sys_recv (s5_fd (fst st)) 1 (snd st) in
        if r = SysOk [] \<or> r = SysErr then Some ((hev_socks5_set_timeout 0 (fst st), os1), - 1)
        else hev_socks5_task_io_yielder ty (fst st, os1)
      else hev_socks5_task_io_yielder ty st)"

section \<open>Sending\<close>

record udp_msg =
  um_addr :: "socks5_addr option"
  um_data :: "byte list"

definition UDP_BUF_SIZE :: nat where "UDP_BUF_SIZE = 1500"

text \<open>The three parts of a message on the connection: header, address, data.\<close>

definition tcp_frame :: "udp_msg \<Rightarrow> byte list list option" where
  "tcp_frame m =
     (case um_addr m of
        None \<Rightarrow> None
      | Some a \<Rightarrow>
          let addrlen = hev_socks5_addr_len a; datlen = of_nat (length (um_data m)) :: u16 in
          if addrlen \<le> 0 then None
          else Some [[byte_hi datlen, byte_lo datlen, of_int (3 + addrlen)], take (nat addrlen) a, um_data m])"

fun tcp_frames :: "udp_msg list \<Rightarrow> byte list list option" where
  "tcp_frames [] = Some []"
| "tcp_frames (m # ms) = do { iov \<leftarrow> tcp_frame m; rest \<leftarrow> tcp_frames ms; Some (iov @ rest) }"

definition hev_socks5_udp_sendmmsg_tcp ::
    "('a socks5_scheme \<Rightarrow> int) \<Rightarrow> udp_msg list \<Rightarrow> 'a socks5_scheme \<times> os \<Rightarrow> (('a socks5_scheme \<times> os) \<times> int) option" where
  "hev_socks5_udp_sendmmsg_tcp get_fd msgv st =
     (case tcp_frames msgv of
        None \<Rightarrow> Some (st, - 1)
      | Some iov \<Rightarrow> do {
          (st1, res) \<leftarrow> hev_task_io_socket_sendmsg udp_task_io_yielder (get_fd (fst st)) iov st;
          Some (st1, if res \<le> 0 then - 1 else int (length msgv))
        })"

definition udp_dgram :: "udp_msg \<Rightarrow> (sockaddr6 option \<times> byte list) option" where
  "udp_dgram m =
     (case um_addr m of
        None \<Rightarrow> None
      | Some a \<Rightarrow>
          let addrlen = hev_socks5_addr_len a in
          if addrlen \<le> 0 then None else Some (None, concat [[0, 0, 0], take (nat addrlen) a, um_data m]))"

fun udp_dgrams :: "udp_msg list \<Rightarrow> (sockaddr6 option \<times> byte list) list option" where
  "udp_dgrams [] = Some []"
| "udp_dgrams (m # ms) = do { d \<leftarrow> udp_dgram m; ds \<leftarrow> udp_dgrams ms; Some (d # ds) }"

definition hev_socks5_udp_sendmmsg_udp ::
    "('a socks5_scheme \<Rightarrow> int) \<Rightarrow> udp_msg list \<Rightarrow> 'a socks5_scheme \<times> os \<Rightarrow> (('a socks5_scheme \<times> os) \<times> int) option" where
  "hev_socks5_udp_sendmmsg_udp get_fd msgv st =
     (case udp_dgrams msgv of
        None \<Rightarrow> Some (st, - 1)
      | Some mvec \<Rightarrow> hev_task_io_socket_sendmmsg udp_task_io_yielder (get_fd (fst st)) mvec st)"

definition hev_socks5_udp_sendmmsg ::
    "('a socks5_scheme \<Rightarrow> int) \<Rightarrow> udp_msg list \<Rightarrow> 'a socks5_scheme \<times> os \<Rightarrow> (('a socks5_scheme \<times> os) \<times> int) option" where
  "hev_socks5_udp_sendmmsg get_fd msgv st =
     (case s5_type (fst st) of
        TYPE_UDP_IN_TCP \<Rightarrow> hev_socks5_udp_sendmmsg_tcp get_fd msgv st
      | TYPE_UDP_IN_UDP \<Rightarrow> hev_socks5_udp_sendmmsg_udp get_fd msgv st
      | _ \<Rightarrow> Some (st, - 1))"

section \<open>Receiving\<close>

text \<open>
  The head of a frame: the first call takes what there is, the second one waits for the rest.  The
  result is the number the code computes, which adds the second result to the first.
\<close>

definition udp_recv_head ::
    "int \<Rightarrow> bool \<Rightarrow> 'a socks5_scheme \<times> os \<Rightarrow> (('a socks5_scheme \<times> os) \<times> byte list \<times> int) option" where
  "udp_recv_head fd nonblock st =
     do {
       (st1, h, res) \<leftarrow> hev_task_io_socket_recv udp_task_io_yielder fd 5 False nonblock st;
       if 0 < res \<and> res < 5 then do {
         (st2, h2, res2) \<leftarrow> hev_task_io_socket_recv udp_task_io_yielder fd (5 - nat res) True False st1;
         Some (st2, h @ h2, res + res2)
       }
       else Some (st1, h, res)
     }"

text \<open>
  The loop over the buffers; \<^verbatim>\<open>msgs\<close> are the entries filled so far.  The room for the data is
  \<^verbatim>\<open>size_t\<close> arithmetic.  The address stays in the buffer, in front of the data and of whatever
  else is there.
\<close>

fun recvmmsg_tcp_loop ::
    "int \<Rightarrow> bool \<Rightarrow> byte list list \<Rightarrow> 'a socks5_scheme \<times> os \<Rightarrow> udp_msg list \<Rightarrow>
     (('a socks5_scheme \<times> os) \<times> udp_msg list \<times> int) option" where
  "recvmmsg_tcp_loop fd nonblock [] st msgs = Some (st, msgs, int (length msgs))"
| "recvmmsg_tcp_loop fd nonblock (buf # bufs) st msgs =
     do {
       (st1, h, res) \<leftarrow> udp_recv_head fd nonblock st;
       if res \<noteq> 5 then Some (st1, msgs, if msgs \<noteq> [] then int (length msgs) else res)
       else if h ! 2 < 5 then Some (st1, msgs, - 1)
       else do {
         let addrlen = unat (h ! 2) - 3;
         let datlen = 256 * unat (h ! 0) + unat (h ! 1);
         if int datlen > (int (length buf) - int addrlen) mod 2 ^ 64 then Some (st1, msgs, - 1)
         else do {
           (st2, bs, res) \<leftarrow> hev_task_io_socket_recvmsg udp_task_io_yielder fd [addrlen - 2, datlen] st1;
           if res \<noteq> int (addrlen - 2 + datlen) then Some (st2, msgs, res)
           else recvmmsg_tcp_loop fd nonblock bufs st2
             (msgs @ [\<lparr>um_addr = Some ([h ! 3, h ! 4] @ bs @ drop (2 + length bs) buf),
                       um_data = drop (addrlen - 2) bs\<rparr>])
         }
       }
     }"

definition hev_socks5_udp_recvmmsg_tcp ::
    "('a socks5_scheme \<Rightarrow> int) \<Rightarrow> byte list list \<Rightarrow> bool \<Rightarrow> 'a socks5_scheme \<times> os \<Rightarrow>
     (('a socks5_scheme \<times> os) \<times> udp_msg list \<times> int) option" where
  "hev_socks5_udp_recvmmsg_tcp get_fd bufs nonblock st = recvmmsg_tcp_loop (get_fd (fst st)) nonblock bufs st []"

text \<open>
  One received datagram in its buffer: a short one gives the empty entry, a malformed one
  \<^term>\<open>None\<close>.
\<close>

definition udp_parse :: "byte list \<Rightarrow> byte list \<Rightarrow> udp_msg option" where
  "udp_parse buf bs =
     (let mem = bs @ drop (length bs) buf; addrlen = hev_socks5_addr_len (drop 3 mem) in
      if length bs < 4 then Some \<lparr>um_addr = None, um_data = []\<rparr>
      else if addrlen \<le> 0 then None
      else if nat (3 + addrlen) > length bs then None
      else Some \<lparr>um_addr = Some (drop 3 mem), um_data = drop (nat (3 + addrlen)) bs\<rparr>)"

fun udp_parses :: "byte list list \<Rightarrow> byte list list \<Rightarrow> udp_msg list option" where
  "udp_parses (buf # bufs) (bs # ds) = do { m \<leftarrow> udp_parse buf bs; ms \<leftarrow> udp_parses bufs ds; Some (m # ms) }"
| "udp_parses _ _ = Some []"

definition hev_socks5_udp_recvmmsg_udp ::
    "('a socks5_scheme \<Rightarrow> int) \<Rightarrow> byte list list \<Rightarrow> bool \<Rightarrow> 'a socks5_scheme \<times> os \<Rightarrow>
     (('a socks5_scheme \<times> os) \<times> udp_msg list \<times> int) option" where
  "hev_socks5_udp_recvmmsg_udp get_fd bufs nonblock st =
     do {
       let fd = get_fd (fst st);
       (st1, mvec, res) \<leftarrow> hev_task_io_socket_recvmmsg udp_task_io_yielder fd (map length bufs) nonblock st;
       if res \<le> 0 then Some (st1, [], res)
       else do {
         let (os2, c) = (if s5_udp_associated (fst st1) then (snd st1, 0) else sys_call (snd st1));
         if c < 0 then Some ((fst st1, os2), [], - 1)
         else do {
           let st3 = (if s5_udp_associated (fst st1) then st1
                      else ((fst st1)\<lparr>s5_udp_associated := True\<rparr>,
                            os2\<lparr>os_peer := (os_peer os2)(fd \<mapsto> fst (mvec ! 0))\<rparr>));
           (case udp_parses bufs (map snd mvec) of
              None \<Rightarrow> Some (st3, [], - 1)
            | Some ms \<Rightarrow> Some (st3, ms, res))
         }
       }
     }"

definition hev_socks5_udp_recvmmsg ::
    "('a socks5_scheme \<Rightarrow> int) \<Rightarrow> byte list list \<Rightarrow> bool \<Rightarrow> 'a socks5_scheme \<times> os \<Rightarrow>
     (('a socks5_scheme \<times> os) \<times> udp_msg list \<times> int) option" where
  "hev_socks5_udp_recvmmsg get_fd bufs nonblock st =
     (case s5_type (fst st) of
        TYPE_UDP_IN_TCP \<Rightarrow> hev_socks5_udp_recvmmsg_tcp get_fd bufs nonblock st
      | TYPE_UDP_IN_UDP \<Rightarrow> hev_socks5_udp_recvmmsg_udp get_fd bufs nonblock st
      | _ \<Rightarrow> Some (st, [], - 1))"

section \<open>Relaying\<close>

text \<open>The destinations of the messages; \<^term>\<open>None\<close> when one is empty or does not resolve.\<close>

fun udp_dests :: "resolver \<Rightarrow> addr_family \<Rightarrow> udp_msg list \<Rightarrow> (sockaddr6 option \<times> byte list) list option" where
  "udp_dests rsv family [] = Some []"
| "udp_dests rsv family (m # ms) =
     (case um_addr m of
        None \<Rightarrow> None
      | Some a \<Rightarrow>
          if um_data m = [] then None
          else do {
            (sa, _) \<leftarrow> hev_socks5_addr_into_sockaddr6 rsv a family;
            ds \<leftarrow> udp_dests rsv family ms;
            Some ((Some sa, um_data m) # ds)
          })"

text \<open>What the two directions make of the result of a call: nothing to do, failed, moved something.\<close>

definition fwd_result :: "int \<Rightarrow> os \<Rightarrow> int" where
  "fwd_result res os = (if res \<le> 0 then if res = - 1 \<and> os_again os then 0 else - 1 else 1)"

definition hev_socks5_udp_fwd_f ::
    "resolver \<Rightarrow> (int \<Rightarrow> sockaddr6 \<Rightarrow> os \<Rightarrow> os \<times> int) \<Rightarrow> ('a socks5_scheme \<Rightarrow> int) \<Rightarrow> int \<Rightarrow> byte list list \<Rightarrow> bool \<Rightarrow>
     'a socks5_scheme \<times> os \<Rightarrow> (('a socks5_scheme \<times> os) \<times> bool \<times> int) option" where
  "hev_socks5_udp_fwd_f rsv bnd get_fd fd bufs bound st =
     do {
       (st1, svec, res) \<leftarrow> hev_socks5_udp_recvmmsg get_fd bufs True st;
       if res \<le> 0 then Some (st1, bound, fwd_result res (snd st1))
       else if res > int (length svec) then None
       else case udp_dests rsv (s5_family (fst st1)) svec of
         None \<Rightarrow> Some (st1, bound, - 1)
       | Some dvec \<Rightarrow>
           let (os2, ret) = (case dvec of
                 (Some sa, _) # _ \<Rightarrow> if bound then (snd st1, 0) else bnd fd sa (snd st1)
               | _ \<Rightarrow> (snd st1, 0)) in
           if ret < 0 then Some ((fst st1, os2), bound, - 1)
           else do {
             (st3, res) \<leftarrow> hev_task_io_socket_sendmmsg udp_task_io_yielder fd dvec (fst st1, os2);
             Some (st3, True, fwd_result res (snd st3))
           }
     }"

definition hev_socks5_udp_fwd_b ::
    "('a socks5_scheme \<Rightarrow> int) \<Rightarrow> int \<Rightarrow> nat \<Rightarrow> 'a socks5_scheme \<times> os \<Rightarrow> (('a socks5_scheme \<times> os) \<times> int) option" where
  "hev_socks5_udp_fwd_b get_fd fd num st =
     do {
       (st1, svec, res) \<leftarrow> hev_task_io_socket_recvmmsg udp_task_io_yielder fd (replicate num UDP_BUF_SIZE) True st;
       if res \<le> 0 then Some (st1, fwd_result res (snd st1))
       else do {
         (st2, res) \<leftarrow> hev_socks5_udp_sendmmsg get_fd
           (map (\<lambda>(sa, bs). \<lparr>um_addr = Some (fst (hev_socks5_addr_from_sockaddr6 (replicate 19 0) sa)), um_data = bs\<rparr>) svec) st1;
         Some (st2, fwd_result res (snd st2))
       }
     }"

partial_function (option) udp_splice_loop ::
    "resolver \<Rightarrow> (int \<Rightarrow> sockaddr6 \<Rightarrow> os \<Rightarrow> os \<times> int) \<Rightarrow> ('a socks5_scheme \<Rightarrow> int) \<Rightarrow> int \<Rightarrow> byte list list \<Rightarrow>
     'a socks5_scheme \<times> os \<Rightarrow> bool \<Rightarrow> int \<Rightarrow> int \<Rightarrow> ('a socks5_scheme \<times> os) option" where
  "udp_splice_loop rsv bnd get_fd fd bufs st bound res_f res_b =
     Option.bind (if res_f \<ge> 0 then hev_socks5_udp_fwd_f rsv bnd get_fd fd bufs bound st else Some (st, bound, res_f))
       (\<lambda>(st1, bound1, res_f1).
     Option.bind (if res_b \<ge> 0 then hev_socks5_udp_fwd_b get_fd fd (length bufs) st1 else Some (st1, res_b))
       (\<lambda>(st2, res_b1).
        case yield_choice res_f1 res_b1 of
          None \<Rightarrow> Some st2
        | Some ty \<Rightarrow> Option.bind (udp_task_io_yielder ty st2) (\<lambda>(st3, y).
            if y \<noteq> 0 then Some st3 else udp_splice_loop rsv bnd get_fd fd bufs st3 bound1 res_f1 res_b1)))"

definition hev_socks5_udp_splicer ::
    "resolver \<Rightarrow> (int \<Rightarrow> sockaddr6 \<Rightarrow> os \<Rightarrow> os \<times> int) \<Rightarrow> ('a socks5_scheme \<Rightarrow> int) \<Rightarrow> int \<Rightarrow> byte list list \<Rightarrow>
     'a socks5_scheme \<times> os \<Rightarrow> (('a socks5_scheme \<times> os) \<times> int) option" where
  "hev_socks5_udp_splicer rsv bnd get_fd fd bufs st =
     (let (os1, ok) = sys_malloc (snd st) in
      if \<not> ok then Some ((fst st, os1), - 1)
      else do {
        st1 \<leftarrow> udp_splice_loop rsv bnd get_fd fd bufs (fst st, os1) False 1 1;
        Some ((fst st1, sys_free (snd st1)), 0)
      })"

declare udp_splice_loop.simps [code]

end
