(* ===== verification/Socks5UDPProofs.thy ===== *)
theory Socks5UDPProofs
  imports Socks5UDP Socks5ClientProofs
begin

text \<open>
  What the UDP relay guarantees: the calls with several buffers are the calls with one buffer, a
  message framed by one side is the message the other side receives, however the stream is cut into
  pieces, and a datagram is relayed to the address in its header.  Three inputs on which the code
  does not do what it means to are at the end.
\<close>

section \<open>Several buffers are one\<close>

lemma sum_lens_advance [simp]: "sum_list (lens_advance s lens) = sum_list lens - s"
  by (induction s lens rule: lens_advance.induct) auto

lemma recvmsg_loop_recv:
  "recvmsg_loop yld fd len lens st acc = Some res \<Longrightarrow>
   sum_list lens = len - length acc \<longrightarrow> recv_loop yld fd len True False st acc = Some res"
  apply (erule recvmsg_loop.raw_induct [where P = "\<lambda>yld fd len lens st acc res.
      sum_list lens = len - length acc \<longrightarrow> recv_loop yld fd len True False st acc = Some res", rotated])
  apply (intro impI)
  apply (subst recv_loop.simps)
  apply (auto simp: Let_def split: sysres.splits if_splits prod.splits bind_splits)
  done

lemma recv_loop_recvmsg:
  "recv_loop yld fd len wa dw st acc = Some res \<Longrightarrow> wa \<longrightarrow> \<not> dw \<longrightarrow>
   (\<forall>lens. sum_list lens = len - length acc \<longrightarrow> recvmsg_loop yld fd len lens st acc = Some res)"
  apply (erule recv_loop.raw_induct [where P = "\<lambda>yld fd len wa dw st acc res. wa \<longrightarrow> \<not> dw \<longrightarrow>
   (\<forall>lens. sum_list lens = len - length acc \<longrightarrow> recvmsg_loop yld fd len lens st acc = Some res)", rotated])
  apply (intro impI allI)
  apply (subst recvmsg_loop.simps)
  apply (auto simp: Let_def split: sysres.splits if_splits prod.splits bind_splits)
  done

lemma option_eqI: "(\<And>r. x = Some r \<Longrightarrow> y = Some r) \<Longrightarrow> (\<And>r. y = Some r \<Longrightarrow> x = Some r) \<Longrightarrow> x = y"
  by (cases x; cases y) auto

lemma recvmsg_is_recv:
  "hev_task_io_socket_recvmsg yld fd lens st = hev_task_io_socket_recv yld fd (sum_list lens) True False st"
  unfolding hev_task_io_socket_recvmsg_def hev_task_io_socket_recv_def
proof (rule option_eqI)
  fix r assume "recvmsg_loop yld fd (sum_list lens) lens st [] = Some r"
  from recvmsg_loop_recv [OF this] show "recv_loop yld fd (sum_list lens) True False st [] = Some r" by simp
next
  fix r assume "recv_loop yld fd (sum_list lens) True False st [] = Some r"
  from recv_loop_recvmsg [OF this] show "recvmsg_loop yld fd (sum_list lens) lens st [] = Some r" by simp
qed

section \<open>The yielder of a relay over TCP\<close>

text \<open>Two yielders that agree on the objects of a kind give the same results.\<close>

lemma recv_loop_yield:
  assumes eq: "\<And>ty s a. P s \<Longrightarrow> yl ty (s, a) = yl' ty (s, a)"
    and keep: "\<And>ty s a s' b y. P s \<Longrightarrow> yl' ty (s, a) = Some ((s', b), y) \<Longrightarrow> P s'"
  shows "recv_loop y fd len wa dw st acc = Some res \<Longrightarrow> y = yl \<longrightarrow> P (fst st) \<longrightarrow> recv_loop yl' fd len wa dw st acc = Some res"
  apply (erule recv_loop.raw_induct [where P = "\<lambda>y fd len wa dw st acc res.
      y = yl \<longrightarrow> P (fst st) \<longrightarrow> recv_loop yl' fd len wa dw st acc = Some res", rotated])
  apply (intro impI)
  apply (subst recv_loop.simps)
  apply (auto simp: Let_def eq split: sysres.splits if_splits prod.splits bind_splits dest: keep)
  done

lemma send_loop_yield:
  assumes eq: "\<And>ty s a. P s \<Longrightarrow> yl ty (s, a) = yl' ty (s, a)"
    and keep: "\<And>ty s a s' b y. P s \<Longrightarrow> yl' ty (s, a) = Some ((s', b), y) \<Longrightarrow> P s'"
  shows "send_loop y fd buf st sz = Some res \<Longrightarrow> y = yl \<longrightarrow> P (fst st) \<longrightarrow> send_loop yl' fd buf st sz = Some res"
  apply (erule send_loop.raw_induct [where P = "\<lambda>y fd buf st sz res.
      y = yl \<longrightarrow> P (fst st) \<longrightarrow> send_loop yl' fd buf st sz = Some res", rotated])
  apply (intro impI)
  apply (subst send_loop.simps)
  apply (auto simp: Let_def eq split: sysres.splits if_splits prod.splits bind_splits dest: keep)
  done

definition in_tcp :: "'a socks5_scheme \<Rightarrow> bool" where
  "in_tcp s \<longleftrightarrow> s5_type s = TYPE_UDP_IN_TCP"

lemma udp_yielder_in_tcp:
  "in_tcp s \<Longrightarrow> udp_task_io_yielder ty (s, a) = hev_socks5_task_io_yielder ty (s, a)"
  by (simp add: udp_task_io_yielder_def in_tcp_def)

lemma yielder_keeps_in_tcp:
  "in_tcp s \<Longrightarrow> hev_socks5_task_io_yielder ty (s, a) = Some ((s', b), y) \<Longrightarrow> in_tcp s'"
  using yielder_frame(2) [of ty s a s' b y] by (auto simp: in_tcp_def hev_socks5_set_timeout_def)

lemma recv_in_tcp:
  assumes "in_tcp s"
  shows "hev_task_io_socket_recv udp_task_io_yielder fd len wa dw (s, a) =
    hev_task_io_socket_recv hev_socks5_task_io_yielder fd len wa dw (s, a)"
  unfolding hev_task_io_socket_recv_def
proof (rule option_eqI)
  fix r assume h: "recv_loop udp_task_io_yielder fd len wa dw (s, a) [] = Some r"
  show "recv_loop hev_socks5_task_io_yielder fd len wa dw (s, a) [] = Some r"
    using recv_loop_yield [where P = in_tcp and yl = udp_task_io_yielder and yl' = hev_socks5_task_io_yielder,
        OF udp_yielder_in_tcp yielder_keeps_in_tcp h] assms by simp
next
  fix r assume h: "recv_loop hev_socks5_task_io_yielder fd len wa dw (s, a) [] = Some r"
  show "recv_loop udp_task_io_yielder fd len wa dw (s, a) [] = Some r"
    using recv_loop_yield [where P = in_tcp and yl = hev_socks5_task_io_yielder and yl' = udp_task_io_yielder,
        OF udp_yielder_in_tcp [symmetric] _ h] assms
      yielder_keeps_in_tcp udp_yielder_in_tcp by fastforce
qed

lemma send_in_tcp:
  assumes "in_tcp s"
  shows "hev_task_io_socket_send udp_task_io_yielder fd buf (s, a) =
    hev_task_io_socket_send hev_socks5_task_io_yielder fd buf (s, a)"
  unfolding hev_task_io_socket_send_def
proof (rule option_eqI)
  fix r assume h: "send_loop udp_task_io_yielder fd buf (s, a) 0 = Some r"
  show "send_loop hev_socks5_task_io_yielder fd buf (s, a) 0 = Some r"
    using send_loop_yield [where P = in_tcp and yl = udp_task_io_yielder and yl' = hev_socks5_task_io_yielder,
        OF udp_yielder_in_tcp yielder_keeps_in_tcp h] assms by simp
next
  fix r assume h: "send_loop hev_socks5_task_io_yielder fd buf (s, a) 0 = Some r"
  show "send_loop udp_task_io_yielder fd buf (s, a) 0 = Some r"
    using send_loop_yield [where P = in_tcp and yl = hev_socks5_task_io_yielder and yl' = udp_task_io_yielder,
        OF udp_yielder_in_tcp [symmetric] _ h] assms
      yielder_keeps_in_tcp udp_yielder_in_tcp by fastforce
qed

section \<open>Receiving what there is\<close>

lemma delivers_wait: "delivers n rx ws \<Longrightarrow> 0 < slept w \<Longrightarrow> \<not> terminated w \<Longrightarrow> delivers n rx (w # ws)"
  by (induction n rx ws arbitrary: w rule: delivers.induct) auto

lemma recv_some:
  assumes "delivers (len + n) (os_rx a fd) (os_waits a)" "0 < len" "s5_timeout s \<noteq> 0"
  shows "\<exists>b. (\<exists>k. 0 < k \<and> k \<le> len \<and>
        recv_loop hev_socks5_task_io_yielder fd len False dw (s, a) [] =
          Some ((s, b), take k (rx_bytes (os_rx a fd)), int k) \<and>
        rx_bytes (os_rx b fd) = drop k (rx_bytes (os_rx a fd)) \<and> k \<le> length (rx_bytes (os_rx a fd)) \<and>
        delivers (len + n - k) (os_rx b fd) (os_waits b)) \<or>
      dw \<and> recv_loop hev_socks5_task_io_yielder fd len False dw (s, a) [] = Some ((s, b), [], - 1) \<and>
        os_again b \<and> rx_bytes (os_rx b fd) = rx_bytes (os_rx a fd) \<and>
        delivers (len + n) (os_rx b fd) (os_waits b)"
  using assms
proof (induction "os_rx a fd" arbitrary: a)
  case Nil
  then show ?case by (cases "len + n") auto
next
  case (Cons e rx)
  note rx = Cons.hyps(2) [symmetric]
  obtain m where m: "len + n = Suc m" using Cons.prems(2) by (cases len) auto
  show ?case
  proof (cases e)
    case (RxData bs)
    let ?k = "min (length bs) len" and ?r = "if length bs \<le> len then rx else RxData (drop len bs) # rx"
    let ?b = "a\<lparr>os_rx := (os_rx a)(fd := ?r)\<rparr>"
    have bs: "bs \<noteq> []" and d: "delivers (len + n - length bs) rx (os_waits a)"
      using Cons.prems(1) unfolding rx RxData m by auto
    have sr: "sys_recv fd len a = (?b, SysOk (take len bs))" by (simp add: sys_recv_def rx RxData)
    have "recv_loop hev_socks5_task_io_yielder fd len False dw (s, a) [] =
        Some ((s, ?b), take ?k (rx_bytes (os_rx a fd)), int ?k)"
      by (subst recv_loop.simps) (simp add: sr rx RxData min_def)
    moreover have "delivers (len + n - ?k) ?r (os_waits a)"
    proof (cases "length bs \<le> len")
      case False
      then have "n - length (drop len bs) = len + n - length bs" by simp
      then show ?thesis using d False by (cases n) auto
    qed (use d in simp)
    moreover have "0 < ?k" using bs Cons.prems(2) by simp
    ultimately show ?thesis by (intro exI [of _ ?b] disjI1 exI [of _ ?k]) (auto simp: rx RxData)
  next
    case RxAgain
    obtain w ws where w: "os_waits a = w # ws" "0 < slept w" "\<not> terminated w"
      and d: "delivers (len + n) rx ws"
      using Cons.prems(1) unfolding rx RxAgain m by (cases "os_waits a") auto
    let ?b = "a\<lparr>os_rx := (os_rx a)(fd := rx), os_again := True\<rparr>" and ?c = "a\<lparr>os_rx := (os_rx a)(fd := rx), os_again := True, os_waits := ws\<rparr>"
    have sr: "sys_recv fd (len - length ([] :: byte list)) a = (?b, SysAgain)" by (simp add: sys_recv_def rx RxAgain)
    show ?thesis
    proof (cases dw)
      case True
      have "recv_loop hev_socks5_task_io_yielder fd len False dw (s, a) [] = Some ((s, ?b), [], - 1)"
        using True sr by (subst recv_loop.simps) simp
      then show ?thesis using True delivers_wait [OF d w(2,3)] w(1)
        by (intro exI [of _ ?b] disjI2) (simp add: rx RxAgain)
    next
      case False
      have y: "hev_socks5_task_io_yielder HEV_TASK_WAITIO (s, ?b) = Some ((s, ?c), 0)"
        using w Cons.prems(3) by (auto simp: hev_socks5_task_io_yielder_def)
      have "delivers (len + n) (os_rx ?c fd) (os_waits ?c)" using d by simp
      from Cons.hyps(1) [OF _ this Cons.prems(2,3)] show ?thesis
        unfolding recv_loop_again [of fd len "[]" a _ hev_socks5_task_io_yielder, OF sr y]
        using False recv_loop_again [of fd len "[]" a _ hev_socks5_task_io_yielder, OF sr y]
        by (auto simp: rx RxAgain)
    qed
  qed (use Cons.prems(1) rx m in auto)
qed

text \<open>The head of a frame arrives whole, or the call would block and leaves the stream alone.\<close>

lemma recv_head_ok:
  assumes "answering fd s a (h @ inp) 0" "length h = 5" "in_tcp s"
  shows "\<exists>b. udp_recv_head fd nb (s, a) = Some ((s, b), h, 5) \<and> answering fd s b inp 0 \<or>
    nb \<and> udp_recv_head fd nb (s, a) = Some ((s, b), [], - 1) \<and> os_again b \<and> answering fd s b (h @ inp) 0"
proof -
  let ?R = "rx_bytes (os_rx a fd)"
  have d: "delivers (5 + length inp) (os_rx a fd) (os_waits a)" and t: "s5_timeout s \<noteq> 0"
    and tk: "take (length (h @ inp)) ?R = h @ inp"
    using assms(1,2) by (simp_all add: answering_def)
  have hk: "take k ?R = take k h" "take (length (h @ inp) - k) (drop k ?R) = drop k h @ inp" if "k \<le> 5" for k
  proof -
    obtain rest where "?R = h @ inp @ rest" using tk by (metis append.assoc append_take_drop_id)
    then show "take k ?R = take k h" "take (length (h @ inp) - k) (drop k ?R) = drop k h @ inp"
      using that assms(2) by (simp_all add: drop_append)
  qed
  have len: "length (h @ inp) = 5 + length inp" using assms(2) by simp
  from recv_some [OF d _ t, of nb] consider
    (some) b k where "0 < k" "k \<le> 5" "recv_loop hev_socks5_task_io_yielder fd 5 False nb (s, a) [] = Some ((s, b), take k ?R, int k)"
      "rx_bytes (os_rx b fd) = drop k ?R" "delivers (5 + length inp - k) (os_rx b fd) (os_waits b)"
  | (again) b where "nb" "recv_loop hev_socks5_task_io_yielder fd 5 False nb (s, a) [] = Some ((s, b), [], - 1)" "os_again b"
      "rx_bytes (os_rx b fd) = ?R" "delivers (5 + length inp) (os_rx b fd) (os_waits b)"
    by fastforce
  then show ?thesis
  proof cases
    case (some b k)
    have r: "hev_task_io_socket_recv udp_task_io_yielder fd 5 False nb (s, a) = Some ((s, b), take k h, int k)"
      unfolding recv_in_tcp [OF assms(3)] using some(2,3) hk(1) by (simp add: hev_task_io_socket_recv_def)
    have ans: "answering fd s b (drop k h @ inp) 0"
      using some(2,4,5) hk(2) [OF some(2)] t assms(2) by (simp add: answering_def tx_room_def)
    show ?thesis
    proof (cases "k = 5")
      case True
      then show ?thesis using r ans assms(2) by (auto simp: udp_recv_head_def)
    next
      case False
      then have ne: "drop k h \<noteq> []" "5 - k = length (drop k h)" using some(2) assms(2) by auto
      obtain c where c: "hev_task_io_socket_recv hev_socks5_task_io_yielder fd (5 - k) True False (s, b) =
          Some ((s, c), drop k h, int (length (drop k h)))" "answering fd s c inp 0"
        using recv_answer [OF ans ne] by blast
      have "int k + int (length (drop k h)) = 5" using some(2) assms(2) by simp
      then show ?thesis using r c False some(1,2)
        by (auto simp: udp_recv_head_def recv_in_tcp [OF assms(3)])
    qed
  next
    case (again b)
    have "answering fd s b (h @ inp) 0" using again(4,5) tk t len by (simp add: answering_def tx_room_def)
    then show ?thesis unfolding udp_recv_head_def recv_in_tcp [OF assms(3)] using again(1-3)
      by (auto simp: hev_task_io_socket_recv_def)
  qed
qed

section \<open>Frames\<close>

text \<open>The message stands for the data and the endpoint; the structure may be longer than its address.\<close>

definition carries :: "udp_msg \<Rightarrow> endpoint \<times> byte list \<Rightarrow> bool" where
  "carries m ed \<longleftrightarrow> um_data m = snd ed \<and>
     (case um_addr m of None \<Rightarrow> False | Some a \<Rightarrow> take (length (addr_wire (fst ed))) a = addr_wire (fst ed))"

text \<open>The frame of a message: at most 252 bytes of address, and room in the buffer of the other side.\<close>

definition frame_ok :: "endpoint \<times> byte list \<Rightarrow> bool" where
  "frame_ok ed \<longleftrightarrow> ep_ok (fst ed) \<and> length (addr_wire (fst ed)) \<le> 252 \<and>
     length (addr_wire (fst ed)) + length (snd ed) \<le> UDP_BUF_SIZE"

definition frame_wire :: "endpoint \<times> byte list \<Rightarrow> byte list" where
  "frame_wire ed =
     [byte_hi (of_nat (length (snd ed))), byte_lo (of_nat (length (snd ed))), of_nat (3 + length (addr_wire (fst ed)))] @
     addr_wire (fst ed) @ snd ed"

lemma carriesE:
  assumes "carries m ed"
  obtains a rest where "um_addr m = Some a" "a = addr_wire (fst ed) @ rest" "um_data m = snd ed"
proof -
  obtain a where a: "um_addr m = Some a" "take (length (addr_wire (fst ed))) a = addr_wire (fst ed)"
    "um_data m = snd ed"
    using assms by (auto simp: carries_def split: option.splits)
  have "a = addr_wire (fst ed) @ drop (length (addr_wire (fst ed))) a"
    using append_take_drop_id [of "length (addr_wire (fst ed))" a] a(2) by simp
  then show thesis using that a by blast
qed

lemma addr_len_prefix:
  assumes "ep_ok e"
  shows "hev_socks5_addr_len (addr_wire e @ rest) = int (length (addr_wire e))"
  using assms by (cases e) (auto simp: hev_socks5_addr_len_def addr_types uint_of_nat_byte)

lemma wire_length: "ep_ok e \<Longrightarrow> 4 \<le> length (addr_wire e)"
  by (cases e) auto

lemma tcp_frame_wire:
  assumes "carries m ed" "frame_ok ed"
  shows "\<exists>iov. tcp_frame m = Some iov \<and> concat iov = frame_wire ed"
proof -
  obtain a rest where a: "um_addr m = Some a" "a = addr_wire (fst ed) @ rest" "um_data m = snd ed"
    using assms(1) by (rule carriesE)
  have e: "ep_ok (fst ed)" using assms(2) by (simp add: frame_ok_def)
  have "hev_socks5_addr_len a = int (length (addr_wire (fst ed)))" unfolding a(2) by (rule addr_len_prefix [OF e])
  moreover have "addr_wire (fst ed) \<noteq> []" using wire_length [OF e] by auto
  ultimately show ?thesis using a(1,3) by (simp add: tcp_frame_def frame_wire_def a(2) Let_def)
qed

lemma tcp_frames_wire:
  assumes "list_all2 carries ms eds" "list_all frame_ok eds"
  shows "\<exists>iov. tcp_frames ms = Some iov \<and> concat iov = concat (map frame_wire eds)"
  using assms
proof (induction rule: list_all2_induct)
  case (Cons m ms ed eds)
  then show ?case using tcp_frame_wire [of m ed] by auto
qed simp

lemma unat_u16_bytes: "256 * unat (byte_hi w) + unat (byte_lo w) = unat w"
proof -
  have "unat w < 65536" using unsigned_less [where w = w and 'a = nat] by simp
  then have "unat w div 256 mod 256 = unat w div 256" by simp
  then show ?thesis
    by (simp add: byte_hi_def byte_lo_def unsigned_ucast_eq take_bit_eq_mod drop_bit_eq_div unat_div)
qed

lemma u16_bytes: "n < 65536 \<Longrightarrow> 256 * unat (byte_hi (of_nat n)) + unat (byte_lo (of_nat n)) = n"
  unfolding unat_u16_bytes by (simp add: unsigned_of_nat take_bit_nat_eq_self)

text \<open>What the loop does with a frame once it has the head of it.\<close>

lemma tcp_loop_frame:
  assumes "frame_ok ed" "length buf = UDP_BUF_SIZE"
    and "udp_recv_head fd nb st = Some (st1, take 5 (frame_wire ed), 5)"
  shows "recvmmsg_tcp_loop fd nb (buf # bufs) st msgs =
    do {
      (st2, bs, res) \<leftarrow> hev_task_io_socket_recv udp_task_io_yielder fd (length (frame_wire ed) - 5) True False st1;
      if res \<noteq> int (length (frame_wire ed) - 5) then Some (st2, msgs, res)
      else recvmmsg_tcp_loop fd nb bufs st2
        (msgs @ [\<lparr>um_addr = Some (take 2 (addr_wire (fst ed)) @ bs @ drop (2 + length bs) buf),
                  um_data = drop (length (addr_wire (fst ed)) - 2) bs\<rparr>])
    }"
proof -
  let ?w = "addr_wire (fst ed)" and ?d = "snd ed"
  have e: "ep_ok (fst ed)" and l: "length ?w \<le> 252" "length ?w + length ?d \<le> 1500"
    using assms(1) by (simp_all add: frame_ok_def UDP_BUF_SIZE_def)
  obtain x y w' where w: "?w = x # y # w'" using wire_length [OF e] by (cases ?w; cases "tl ?w") auto
  define h where "h = take 5 (frame_wire ed)"
  have h: "h = [byte_hi (of_nat (length ?d)), byte_lo (of_nat (length ?d)), of_nat (3 + length ?w), x, y]"
    and n: "length (frame_wire ed) - 5 = length ?w - 2 + length ?d"
    by (simp_all add: frame_wire_def w h_def)
  have hl: "unat (h ! 2) = 3 + length ?w" unfolding h using l(1) by (simp add: unat_of_nat_byte del: of_nat_add)
  have dl: "256 * unat (h ! 0) + unat (h ! 1) = length ?d"
    unfolding h using u16_bytes [of "length ?d"] l(2) by simp
  have n5: "\<not> h ! 2 < 5" using hl wire_length [OF e] by (simp add: word_less_nat_alt)
  have room: "(int (length buf) - int (length ?w)) mod 2 ^ 64 = 1500 - int (length ?w)"
    using l(1) assms(2) by (simp add: UDP_BUF_SIZE_def)
  have t2: "take 2 ?w = [h ! 3, h ! 4]" by (simp add: w h)
  show ?thesis using assms(3) n5 hl dl room l(2) unfolding n t2 h_def [symmetric]
    by (simp add: recvmsg_is_recv Let_def)
qed

text \<open>One frame off the stream.\<close>

lemma recv_frame_ok:
  assumes "answering fd s a (frame_wire ed @ inp) 0" "in_tcp s" "frame_ok ed" "length buf = UDP_BUF_SIZE"
  shows "\<exists>b. (\<exists>m. carries m ed \<and> answering fd s b inp 0 \<and>
        (\<forall>msgs. recvmmsg_tcp_loop fd nb (buf # bufs) (s, a) msgs = recvmmsg_tcp_loop fd nb bufs (s, b) (msgs @ [m]))) \<or>
      nb \<and> answering fd s b (frame_wire ed @ inp) 0 \<and> os_again b \<and>
        (\<forall>msgs. recvmmsg_tcp_loop fd nb (buf # bufs) (s, a) msgs =
          Some ((s, b), msgs, if msgs \<noteq> [] then int (length msgs) else - 1))"
proof -
  let ?f = "frame_wire ed" and ?w = "addr_wire (fst ed)"
  have wl: "4 \<le> length ?w" using assms(3) by (simp add: frame_ok_def wire_length)
  then have l: "length (take 5 ?f) = 5" "drop 5 ?f \<noteq> []" by (simp_all add: frame_wire_def)
  have ans: "answering fd s a (take 5 ?f @ drop 5 ?f @ inp) 0"
    using assms(1) by (metis append_assoc append_take_drop_id)
  have body: "drop 5 ?f = drop 2 ?w @ snd ed" using wl by (simp add: frame_wire_def drop_append)
  from recv_head_ok [OF ans l(1) assms(2), of nb] consider
    (head) b where "udp_recv_head fd nb (s, a) = Some ((s, b), take 5 ?f, 5)" "answering fd s b (drop 5 ?f @ inp) 0"
  | (again) b where nb "udp_recv_head fd nb (s, a) = Some ((s, b), [], - 1)" "os_again b"
      "answering fd s b (take 5 ?f @ drop 5 ?f @ inp) 0"
    by auto
  then show ?thesis
  proof cases
    case (head b)
    obtain c where c: "hev_task_io_socket_recv hev_socks5_task_io_yielder fd (length (drop 5 ?f)) True False (s, b) =
        Some ((s, c), drop 5 ?f, int (length (drop 5 ?f)))" "answering fd s c inp 0"
      using recv_answer [OF head(2) l(2) refl] by blast
    let ?m = "\<lparr>um_addr = Some (take 2 ?w @ drop 5 ?f @ drop (2 + length (drop 5 ?f)) buf),
      um_data = drop (length ?w - 2) (drop 5 ?f)\<rparr>"
    have "carries ?m ed" unfolding carries_def body using wl by simp
    moreover have "recvmmsg_tcp_loop fd nb (buf # bufs) (s, a) msgs = recvmmsg_tcp_loop fd nb bufs (s, c) (msgs @ [?m])" for msgs
      unfolding tcp_loop_frame [OF assms(3,4) head(1)] recv_in_tcp [OF assms(2)] using c(1) by simp
    ultimately show ?thesis using c(2) by blast
  next
    case (again b)
    have "answering fd s b (?f @ inp) 0" using again(4) by (metis append_assoc append_take_drop_id)
    then show ?thesis using again(1-3) by (intro exI [of _ b] disjI2) simp
  qed
qed

lemma recv_frames_ok:
  assumes "answering fd s a (concat (map frame_wire eds)) 0" "in_tcp s" "list_all frame_ok eds"
    and "list_all (\<lambda>buf. length buf = UDP_BUF_SIZE) bufs" "length bufs \<le> length eds"
  shows "\<exists>k b ms. recvmmsg_tcp_loop fd nb bufs (s, a) msgs =
      Some ((s, b), msgs @ ms, if bufs \<noteq> [] \<and> msgs @ ms = [] then - 1 else int (length (msgs @ ms))) \<and>
    list_all2 carries ms (take k eds) \<and> k \<le> length bufs \<and> (nb \<and> os_again b \<or> k = length bufs) \<and>
    answering fd s b (concat (map frame_wire (drop k eds))) 0"
  using assms
proof (induction bufs arbitrary: eds a msgs)
  case Nil
  then show ?case by (intro exI [of _ 0] exI [of _ a] exI [of _ "[]"]) simp
next
  case (Cons buf bufs)
  obtain ed eds' where eds: "eds = ed # eds'" using Cons.prems(5) by (cases eds) auto
  have ans: "answering fd s a (frame_wire ed @ concat (map frame_wire eds')) 0" using Cons.prems(1) eds by simp
  from recv_frame_ok [OF ans Cons.prems(2), of buf nb bufs] Cons.prems(3,4) eds consider
    (got) b m where "carries m ed" "answering fd s b (concat (map frame_wire eds')) 0"
      "\<And>msgs. recvmmsg_tcp_loop fd nb (buf # bufs) (s, a) msgs = recvmmsg_tcp_loop fd nb bufs (s, b) (msgs @ [m])"
  | (again) b where nb "answering fd s b (frame_wire ed @ concat (map frame_wire eds')) 0" "os_again b"
      "\<And>msgs. recvmmsg_tcp_loop fd nb (buf # bufs) (s, a) msgs =
          Some ((s, b), msgs, if msgs \<noteq> [] then int (length msgs) else - 1)"
    by fastforce
  then show ?case
  proof cases
    case (got b m)
    obtain k c ms where ih: "recvmmsg_tcp_loop fd nb bufs (s, b) (msgs @ [m]) =
        Some ((s, c), (msgs @ [m]) @ ms, int (length ((msgs @ [m]) @ ms)))"
      "list_all2 carries ms (take k eds')" "k \<le> length bufs" "nb \<and> os_again c \<or> k = length bufs"
      "answering fd s c (concat (map frame_wire (drop k eds'))) 0"
      using Cons.IH [OF got(2) Cons.prems(2), of "msgs @ [m]"] Cons.prems(3-5) eds by auto
    then show ?thesis using got(1,3) eds
      by (intro exI [of _ "Suc k"] exI [of _ c] exI [of _ "m # ms"]) auto
  next
    case (again b)
    then show ?thesis using eds by (intro exI [of _ 0] exI [of _ b] exI [of _ "[]"]) auto
  qed
qed

section \<open>Datagrams out\<close>

lemma udp_yielder_dout:
  "udp_task_io_yielder ty (s, a) = Some ((s', b), y) \<Longrightarrow> os_dout b = os_dout a"
  using yielder_frame(1)
  by (fastforce simp: udp_task_io_yielder_def sys_recv_def Let_def
      split: if_splits prod.splits list.splits rx_ev.splits)

lemma sys_sendmmsg_dout:
  assumes "sys_sendmmsg fd ms a = (b, r)"
  shows "os_dout b = (os_dout a)(fd := os_dout a fd @ (case r of SysOk n \<Rightarrow> take n ms | _ \<Rightarrow> []))"
    and "r = SysOk n \<Longrightarrow> n \<le> length ms"
  using assms by (auto simp: sys_sendmmsg_def Let_def split: list.splits tx_ev.splits if_splits)

text \<open>What a call that sends datagrams has sent: the first ones, and the number it returns.\<close>

lemma sendmmsg_loop_sound:
  "sendmmsg_loop yl fd ms st c = Some res \<Longrightarrow> yl = udp_task_io_yielder \<longrightarrow> c \<le> length ms \<longrightarrow>
   (\<exists>k. c \<le> k \<and> k \<le> length ms \<and> (snd res < 0 \<and> k = 0 \<or> snd res = int k) \<and>
     os_dout (snd (fst res)) = (os_dout (snd st))(fd := os_dout (snd st) fd @ take (k - c) (drop c ms)))"
  apply (erule sendmmsg_loop.raw_induct [where P = "\<lambda>yl fd ms st c res.
      yl = udp_task_io_yielder \<longrightarrow> c \<le> length ms \<longrightarrow>
      (\<exists>k. c \<le> k \<and> k \<le> length ms \<and> (snd res < 0 \<and> k = 0 \<or> snd res = int k) \<and>
        os_dout (snd (fst res)) = (os_dout (snd st))(fd := os_dout (snd st) fd @ take (k - c) (drop c ms)))", rotated])
  subgoal premises prems for loop yl fd ms st c res
  proof (intro impI)
    assume h: "yl = udp_task_io_yielder" "c \<le> length ms"
    obtain b r where sr: "sys_sendmmsg fd (drop c ms) (snd st) = (b, r)" by fastforce
    note out = sys_sendmmsg_dout(1) [OF sr]
    have here: "\<exists>k. c \<le> k \<and> k \<le> length ms \<and> (n < 0 \<and> k = 0 \<or> n = int k) \<and>
        os_dout d = (os_dout (snd st))(fd := os_dout (snd st) fd @ take (k - c) (drop c ms))"
      if "os_dout d = os_dout (snd st)" "n = (if c \<noteq> 0 then int c else e)" "e < 0" for d n e
      using that h(2) by (intro exI [of _ c]) auto
    show "\<exists>k. c \<le> k \<and> k \<le> length ms \<and> (snd res < 0 \<and> k = 0 \<or> snd res = int k) \<and>
        os_dout (snd (fst res)) = (os_dout (snd st))(fd := os_dout (snd st) fd @ take (k - c) (drop c ms))"
    proof (cases r)
      case SysAgain
      then obtain s2 d y where y: "udp_task_io_yielder HEV_TASK_WAITIO (fst st, b) = Some ((s2, d), y)"
        using prems(2) h sr by (auto simp: Let_def split: bind_splits)
      have o: "os_dout d = os_dout (snd st)" using udp_yielder_dout [OF y] out SysAgain by simp
      show ?thesis
      proof (cases "y = 0")
        case True
        then have "loop udp_task_io_yielder fd ms (s2, d) c = Some res" using prems(2) h sr y SysAgain by simp
        from prems(1) [rule_format, OF this refl h(2)] show ?thesis using o by simp
      next
        case False
        then show ?thesis using prems(2) h sr y SysAgain here [OF o, of _ "- 2"] by auto
      qed
    next
      case SysErr
      then show ?thesis using prems(2) h sr out here [of b _ "- 1"] by auto
    next
      case (SysOk n)
      have n: "n \<le> length (drop c ms)" using sys_sendmmsg_dout(2) [OF sr SysOk] .
      show ?thesis
      proof (cases "n \<noteq> 0 \<and> c + n < length ms")
        case True
        then have "loop udp_task_io_yielder fd ms (fst st, b) (c + n) = Some res" using prems(2) h sr SysOk by simp
        from prems(1) [rule_format, OF this refl] True obtain k where k: "c + n \<le> k" "k \<le> length ms"
          "snd res < 0 \<and> k = 0 \<or> snd res = int k"
          "os_dout (snd (fst res)) = (os_dout b)(fd := os_dout b fd @ take (k - (c + n)) (drop (c + n) ms))"
          by auto
        have "take n (drop c ms) @ take (k - (c + n)) (drop (c + n) ms) = take (k - c) (drop c ms)"
          using k(1) take_add [of n "k - (c + n)" "drop c ms"] by (simp add: add.commute)
        then show ?thesis using k out SysOk by (intro exI [of _ k]) auto
      next
        case False
        then have "res = ((fst st, b), int (c + n))" using prems(2) h sr SysOk by (auto split: if_splits)
        then show ?thesis using out SysOk n h(2) by (intro exI [of _ "c + n"]) auto
      qed
    qed
  qed
  done

lemma sendmmsg_sound:
  assumes "hev_task_io_socket_sendmmsg udp_task_io_yielder fd ms (s, a) = Some ((s', b), n)"
  shows "\<exists>k\<le>length ms. (n < 0 \<and> k = 0 \<or> n = int k) \<and> os_dout b = (os_dout a)(fd := os_dout a fd @ take k ms)"
  using sendmmsg_loop_sound [OF assms [unfolded hev_task_io_socket_sendmmsg_def]] by auto

section \<open>Properties\<close>

text \<open>
  Sending from several buffers (\<^verbatim>\<open>sendmsg\<close>) and receiving into several buffers (\<^verbatim>\<open>recvmsg\<close>), with
  partial transfers, waits and errors, is exactly sending and receiving one buffer that holds their
  bytes one after the other.
\<close>

theorem vectored_io_is_flat_io:
  "hev_task_io_socket_sendmsg yld fd iov st = hev_task_io_socket_send yld fd (concat iov) st \<and>
   hev_task_io_socket_recvmsg yld fd lens st = hev_task_io_socket_recv yld fd (sum_list lens) True False st"
  by (simp add: sendmsg_is_send recvmsg_is_recv)

text \<open>
  C26: Datagrams framed on a TCP connection arrive as they were sent.  When the stream holds the frames
  one side writes for its messages, the other side gets the first \<^term>\<open>k\<close> of them, in order, each with its
  endpoint and its data, and the stream then holds the frames of the rest, however the bytes are cut
  into pieces and delayed; a blocking call fills every buffer, a non-blocking one stops early only
  between two frames and says so.
\<close>

theorem udp_in_tcp_roundtrip:
  assumes "list_all2 carries ms eds" "list_all frame_ok eds" "tcp_frames ms = Some iov"
    and "answering fd s a (concat iov) 0" "s5_type s = TYPE_UDP_IN_TCP"
    and "list_all (\<lambda>buf. length buf = UDP_BUF_SIZE) bufs" "bufs \<noteq> []" "length bufs \<le> length ms"
  shows "\<exists>k b got. hev_socks5_udp_recvmmsg (\<lambda>_. fd) bufs nb (s, a) = Some ((s, b), got, if k = 0 then - 1 else int k) \<and>
    list_all2 carries got (take k eds) \<and> k \<le> length bufs \<and> (nb \<and> os_again b \<or> k = length bufs) \<and>
    answering fd s b (concat (map frame_wire (drop k eds))) 0"
proof -
  have c: "concat iov = concat (map frame_wire eds)" using tcp_frames_wire [OF assms(1,2)] assms(3) by auto
  have l: "length ms = length eds" using assms(1) by (rule list_all2_lengthD)
  obtain k b got where *: "recvmmsg_tcp_loop fd nb bufs (s, a) [] =
      Some ((s, b), got, if got = [] then - 1 else int (length got))"
    "list_all2 carries got (take k eds)" "k \<le> length bufs" "nb \<and> os_again b \<or> k = length bufs"
    "answering fd s b (concat (map frame_wire (drop k eds))) 0"
    using recv_frames_ok [of fd s a eds bufs nb "[]"] assms(2,4-8) c l by (auto simp: in_tcp_def)
  have "length got = k" using list_all2_lengthD [OF *(2)] *(3) assms(8) l by simp
  then show ?thesis using * assms(5)
    by (intro exI [of _ k] exI [of _ b] exI [of _ got])
      (auto simp: hev_socks5_udp_recvmmsg_def hev_socks5_udp_recvmmsg_tcp_def)
qed

definition udp_demo :: "socks5" where
  "udp_demo = \<lparr>s5_fd = 7, s5_timeout = 60000, s5_type = TYPE_UDP_IN_TCP, s5_udp_associated = False, s5_family = FAMILY_UNSPEC\<rparr>"

definition eds_demo :: "(endpoint \<times> byte list) list" where
  "eds_demo = [(EpV4 [8, 8, 8, 8] 53, [1, 2, 3]), (EpName [97, 98] 80, [])]"

definition ms_demo :: "udp_msg list" where
  "ms_demo = map (\<lambda>(e, d). \<lparr>um_addr = Some (addr_wire e @ [0, 0]), um_data = d\<rparr>) eds_demo"

definition os_udp_demo :: os where
  "os_udp_demo = os_idle\<lparr>os_rx := (\<lambda>_. [RxData [0, 3], RxAgain, RxData [10, 1, 8, 8, 8, 8, 0, 53, 1, 2], RxData [3],
     RxAgain, RxData [0, 0, 9, 3, 2, 97, 98, 0, 80]]), os_waits := [Wait 5 False, Wait 5 False]\<rparr>"

lemma udp_demo_ok:
  "list_all2 carries ms_demo eds_demo" "list_all frame_ok eds_demo"
  "tcp_frames ms_demo = Some [[0, 3, 10], [1, 8, 8, 8, 8, 0, 53], [1, 2, 3], [0, 0, 9], [3, 2, 97, 98, 0, 80], []]"
  "answering 7 udp_demo os_udp_demo (concat [[0, 3, 10], [1, 8, 8, 8, 8, 0, 53], [1, 2, 3], [0, 0, 9], [3, 2, 97, 98, 0, 80], []]) 0"
  "s5_type udp_demo = TYPE_UDP_IN_TCP"
  "list_all (\<lambda>buf. length buf = UDP_BUF_SIZE) (replicate 2 (replicate UDP_BUF_SIZE (0 :: byte)))"
  "replicate 2 (replicate UDP_BUF_SIZE (0 :: byte)) \<noteq> []"
  "length (replicate 2 (replicate UDP_BUF_SIZE (0 :: byte))) \<le> length ms_demo"
  by (code_simp, code_simp, code_simp, code_simp, code_simp, simp_all add: ms_demo_def eds_demo_def list_all_iff)

theorem udp_in_tcp_roundtrip_witness:
  "\<exists>k b got. hev_socks5_udp_recvmmsg (\<lambda>_. 7) (replicate 2 (replicate UDP_BUF_SIZE 0)) True (udp_demo, os_udp_demo) =
      Some ((udp_demo, b), got, if k = 0 then - 1 else int k) \<and>
    list_all2 carries got (take k eds_demo) \<and> k \<le> length (replicate 2 (replicate UDP_BUF_SIZE (0 :: byte))) \<and>
    (True \<and> os_again b \<or> k = length (replicate 2 (replicate UDP_BUF_SIZE (0 :: byte)))) \<and>
    answering 7 udp_demo b (concat (map frame_wire (drop k eds_demo))) 0"
  by (rule udp_in_tcp_roundtrip [OF udp_demo_ok])

text \<open>
  C27: A datagram with the SOCKS5 header a side writes is parsed by the other side into the same endpoint
  and the same data, whatever the buffer held before.
\<close>

theorem udp_in_udp_roundtrip:
  assumes "carries m ed" "ep_ok (fst ed)"
  shows "\<exists>d m'. udp_dgram m = Some (None, d) \<and> udp_parse buf d = Some m' \<and> carries m' ed"
proof -
  obtain a rest where a: "um_addr m = Some a" "a = addr_wire (fst ed) @ rest" "um_data m = snd ed"
    using assms(1) by (rule carriesE)
  let ?w = "addr_wire (fst ed)" and ?d = "[0, 0, 0] @ addr_wire (fst ed) @ snd ed"
  note l = wire_length [OF assms(2)]
  have "hev_socks5_addr_len a = int (length ?w)" unfolding a(2) by (rule addr_len_prefix [OF assms(2)])
  then have 1: "udp_dgram m = Some (None, ?d)" using a l by (auto simp: udp_dgram_def)
  have "hev_socks5_addr_len (?w @ snd ed @ drop (length ?d) buf) = int (length ?w)"
    by (rule addr_len_prefix [OF assms(2)])
  then have "udp_parse buf ?d = Some \<lparr>um_addr = Some (?w @ snd ed @ drop (length ?d) buf), um_data = snd ed\<rparr>"
    using l by (auto simp: udp_parse_def Let_def nat_add_distrib numeral_3_eq_3)
  then show ?thesis using 1 by (auto simp: carries_def)
qed

theorem udp_in_udp_roundtrip_witness:
  "\<exists>d m'. udp_dgram \<lparr>um_addr = Some [1, 8, 8, 8, 8, 0, 53, 9], um_data = [4, 2]\<rparr> = Some (None, d) \<and>
    udp_parse [7, 7] d = Some m' \<and> carries m' (EpV4 [8, 8, 8, 8] 53, [4, 2])"
  by (rule udp_in_udp_roundtrip; code_simp)

text \<open>
  The header of a frame has one byte for its own length: for a name of 249 to 255 bytes the length
  wraps around and is \<^term>\<open>n - 249\<close>, so that the other side takes part of the name for data, or for
  \<^term>\<open>n \<le> 253\<close> gives up the connection.
\<close>

theorem tcp_frame_length_wraps:
  assumes "carries m (EpName nm p, d)" "249 \<le> length nm" "length nm \<le> 255"
  shows "\<exists>iov. tcp_frame m = Some iov \<and> concat iov ! 2 = of_nat (length nm - 249)"
proof -
  obtain a rest where a: "um_addr m = Some a" "a = addr_wire (EpName nm p) @ rest" "um_data m = d"
    using carriesE [OF assms(1)] by auto
  have e: "ep_ok (EpName nm p)" using assms(3) by simp
  have "hev_socks5_addr_len a = int (length (addr_wire (EpName nm p)))"
    unfolding a(2) by (rule addr_len_prefix [OF e])
  then have l: "hev_socks5_addr_len a = int (4 + length nm)" by simp
  have "(of_int (3 + int (4 + length nm)) :: byte) = of_nat (256 + (length nm - 249))"
    using assms(2) by (simp add: of_nat_diff)
  also have "\<dots> = of_nat (length nm - 249)" unfolding of_nat_add by simp
  finally show ?thesis using a(1) l by (simp add: tcp_frame_def Let_def)
qed

theorem tcp_frame_length_wraps_witness:
  "\<exists>iov. tcp_frame \<lparr>um_addr = Some (addr_wire (EpName (replicate 250 97) 53)), um_data = []\<rparr> = Some iov \<and>
    concat iov ! 2 = of_nat (length (replicate 250 (97 :: byte)) - 249)"
  by (rule tcp_frame_length_wraps [where p = 53 and d = "[]"]) (simp_all add: carries_def)


definition relay_demo :: socks5 where
  "relay_demo = \<lparr>s5_fd = 7, s5_timeout = 60000, s5_type = TYPE_UDP_IN_UDP, s5_udp_associated = True, s5_family = FAMILY_UNSPEC\<rparr>"

definition os_relay_demo :: os where
  "os_relay_demo = os_idle\<lparr>os_drx := (\<lambda>_. [])(8 := [DgData \<lparr>sin6_port = 0, sin6_addr = []\<rparr> [0, 0, 0, 1, 8, 8, 8, 8, 0, 53, 42]]),
     os_dtx := (\<lambda>_. [TxRoom 5])\<rparr>"


text \<open>
  A frame that the end of the stream cuts short is reported as received: the call returns the number of
  bytes it got as the number of messages, although it has filled no entry, and the relay then reads
  entries that were never written.
\<close>

theorem short_frame_counts_bytes:
  assumes "os_rx a fd = [RxData (take (5 + j) (frame_wire ed)), RxEof]" "0 < j" "5 + j < length (frame_wire ed)"
    and "frame_ok ed" "length buf = UDP_BUF_SIZE" "s5_type s = TYPE_UDP_IN_TCP"
  shows "(\<exists>b. hev_socks5_udp_recvmmsg (\<lambda>_. fd) (buf # bufs) True (s, a) = Some ((s, b), [], int j)) \<and>
    hev_socks5_udp_fwd_f rsv bnd (\<lambda>_. fd) fd' (buf # bufs) bound (s, a) = None"
proof -
  let ?f = "frame_wire ed" and ?n = "length (frame_wire ed) - 5"
  let ?b = "a\<lparr>os_rx := (os_rx a)(fd := [RxData (take j (drop 5 ?f)), RxEof])\<rparr>"
  let ?c = "a\<lparr>os_rx := (os_rx a)(fd := [RxEof])\<rparr>"
  have l: "length (take (5 + j) ?f) = 5 + j" "length (take 5 ?f) = 5" "length (take j (drop 5 ?f)) = j"
    using assms(3) by simp_all
  have b5: "sys_recv fd 5 a = (?b, SysOk (take 5 ?f))"
    using assms(1,2) l by (simp add: sys_recv_def min_def drop_take)
  have "hev_task_io_socket_recv udp_task_io_yielder fd 5 False True (s, a) = Some ((s, ?b), take 5 ?f, 5)"
    unfolding hev_task_io_socket_recv_def by (subst recv_loop.simps) (use b5 l in simp)
  then have head: "udp_recv_head fd True (s, a) = Some ((s, ?b), take 5 ?f, 5)" by (simp add: udp_recv_head_def)
  have bj: "sys_recv fd ?n ?b = (?c, SysOk (take j (drop 5 ?f)))" "sys_recv fd (?n - j) ?c = (?c, SysOk [])"
    using assms(3) by (simp_all add: sys_recv_def)
  have body: "hev_task_io_socket_recv udp_task_io_yielder fd ?n True False (s, ?b) = Some ((s, ?c), take j (drop 5 ?f), int j)"
    unfolding hev_task_io_socket_recv_def
    by (subst recv_loop.simps, use bj(1) l(3) assms(2,3) in simp)
      (subst recv_loop.simps, use bj(2) l(3) assms(2,3) in \<open>auto simp: min_def\<close>)
  have "recvmmsg_tcp_loop fd True (buf # bufs) (s, a) [] = Some ((s, ?c), [], int j)"
    unfolding tcp_loop_frame [OF assms(4,5) head] body using assms(3) by auto
  then have r: "hev_socks5_udp_recvmmsg (\<lambda>_. fd) (buf # bufs) True (s, a) = Some ((s, ?c), [], int j)"
    using assms(6) by (simp add: hev_socks5_udp_recvmmsg_def hev_socks5_udp_recvmmsg_tcp_def)
  then show ?thesis using assms(2) by (auto simp: hev_socks5_udp_fwd_f_def)
qed

theorem short_frame_counts_bytes_witness:
  "(\<exists>b. hev_socks5_udp_recvmmsg (\<lambda>_. 7) (replicate UDP_BUF_SIZE 0 # []) True
        (udp_demo, os_idle\<lparr>os_rx := (\<lambda>_. [RxData (take (5 + 2) (frame_wire (EpV4 [8, 8, 8, 8] 53, [1, 2, 3]))), RxEof])\<rparr>) =
      Some ((udp_demo, b), [], int 2)) \<and>
    hev_socks5_udp_fwd_f no_resolver hev_socks5_bind (\<lambda>_. 7) 9 (replicate UDP_BUF_SIZE 0 # []) False
      (udp_demo, os_idle\<lparr>os_rx := (\<lambda>_. [RxData (take (5 + 2) (frame_wire (EpV4 [8, 8, 8, 8] 53, [1, 2, 3]))), RxEof])\<rparr>) = None"
  by (rule short_frame_counts_bytes [where ed = "(EpV4 [8, 8, 8, 8] 53, [1, 2, 3])"])
    (simp_all add: frame_wire_def frame_ok_def UDP_BUF_SIZE_def udp_demo_def)

text \<open>
  C29: A frame with an invalid head is an error only when the last failed system call was not one that
  would have blocked: the relay tests \<^verbatim>\<open>errno\<close>, which no one has set, and otherwise goes on reading
  in the middle of the frame.
\<close>

theorem invalid_head_depends_on_errno:
  assumes "os_rx a fd = RxData [d1, d2, h, t, l] # r" "h < 5" "s5_type s = TYPE_UDP_IN_TCP" "bufs \<noteq> []"
  shows "\<exists>b. hev_socks5_udp_fwd_f rsv bnd (\<lambda>_. fd) fd' bufs bound (s, a) =
    Some ((s, b), bound, if os_again a then 0 else - 1)"
proof -
  let ?b = "a\<lparr>os_rx := (os_rx a)(fd := r)\<rparr>"
  obtain buf bs where bufs: "bufs = buf # bs" using assms(4) by (cases bufs) auto
  have "hev_task_io_socket_recv udp_task_io_yielder fd 5 False True (s, a) = Some ((s, ?b), [d1, d2, h, t, l], 5)"
    unfolding hev_task_io_socket_recv_def by (subst recv_loop.simps) (use assms(1) in \<open>simp add: sys_recv_def\<close>)
  then have "udp_recv_head fd True (s, a) = Some ((s, ?b), [d1, d2, h, t, l], 5)" by (simp add: udp_recv_head_def)
  then have "hev_socks5_udp_recvmmsg (\<lambda>_. fd) bufs True (s, a) = Some ((s, ?b), [], - 1)"
    using assms(2,3) by (simp add: hev_socks5_udp_recvmmsg_def hev_socks5_udp_recvmmsg_tcp_def bufs)
  then show ?thesis by (simp add: hev_socks5_udp_fwd_f_def fwd_result_def)
qed

theorem invalid_head_depends_on_errno_witness:
  "\<exists>b. hev_socks5_udp_fwd_f no_resolver hev_socks5_bind (\<lambda>_. 7) 9 [[]] True
      (udp_demo, os_idle\<lparr>os_rx := (\<lambda>_. [RxData [0, 0, 4, 1, 1]]), os_again := True\<rparr>) =
    Some ((udp_demo, b), True, if os_again (os_idle\<lparr>os_rx := (\<lambda>_. [RxData [0, 0, 4, 1, 1]]), os_again := True\<rparr>) then 0 else - 1)"
proof -
  have h: "(4 :: byte) < 5" by code_simp
  show ?thesis by (rule invalid_head_depends_on_errno [where r = "[]", OF _ h]) (simp_all add: udp_demo_def)
qed

end
