(* ===== verification/RingBuffer.thy ===== *)
theory RingBuffer
  imports Prelude
begin

text \<open>
  The ring buffer of \<^verbatim>\<open>src/misc/hev-ring-buffer.h\<close> and \<^verbatim>\<open>src/misc/hev-ring-buffer.c\<close>, which
  carries the bytes of a TCP session from the SOCKS5 server to the lwIP connection.  A byte passes
  through three stages: free space, readable (\<^verbatim>\<open>rda_size\<close>), and handed to lwIP without a copy
  but not yet acknowledged (\<^verbatim>\<open>use_size - rda_size\<close>).

  An \<^verbatim>\<open>iovec\<close> is a pair of an offset into the data array and a length; the array of vectors
  and the returned count are one list.  The abstraction \<open>unacked\<close> / \<open>readable\<close> reads the
  two stages as byte sequences, and the refinement lemmas say what each operation does to them.
\<close>

section \<open>The buffer and its operations\<close>

type_synonym iovec = "nat \<times> nat"

record ring =
  rp :: nat
  wp :: nat
  rda_size :: nat
  use_size :: nat
  max_size :: nat
  rdata :: "byte list"

text \<open>\<^verbatim>\<open>hev_ring_buffer_alloca\<close>: the contents of the fresh array are whatever the stack held.\<close>

definition hev_ring_buffer_alloca :: "byte list \<Rightarrow> ring" where
  "hev_ring_buffer_alloca garbage =
     \<lparr>rp = 0, wp = 0, rda_size = 0, use_size = 0, max_size = length garbage, rdata = garbage\<rparr>"

definition hev_ring_buffer_get_max_size :: "ring \<Rightarrow> nat" where
  "hev_ring_buffer_get_max_size self = max_size self"

definition hev_ring_buffer_get_use_size :: "ring \<Rightarrow> nat" where
  "hev_ring_buffer_get_use_size self = use_size self"

definition hev_ring_buffer_reading :: "ring \<Rightarrow> iovec list" where
  "hev_ring_buffer_reading self =
     (if rda_size self = 0 then []
      else let upper_size = sz_sub (max_size self) (rp self) in
        if rda_size self \<le> upper_size then [(rp self, rda_size self)]
        else [(rp self, upper_size), (0, sz_sub (rda_size self) upper_size)])"

definition hev_ring_buffer_read_finish :: "ring \<Rightarrow> nat \<Rightarrow> ring" where
  "hev_ring_buffer_read_finish self sz =
     self\<lparr>rp := sz_add (rp self) sz mod max_size self,
          rda_size := sz_sub (rda_size self) sz\<rparr>"

definition hev_ring_buffer_read_release :: "ring \<Rightarrow> nat \<Rightarrow> ring" where
  "hev_ring_buffer_read_release self sz =
     (let self1 = self\<lparr>use_size := sz_sub (use_size self) sz\<rparr>
      in if use_size self1 = 0 then self1\<lparr>rp := 0, wp := 0\<rparr> else self1)"

definition hev_ring_buffer_writing :: "ring \<Rightarrow> iovec list" where
  "hev_ring_buffer_writing self =
     (if use_size self = max_size self then []
      else let upper_size = sz_sub (max_size self) (wp self);
               spc_size = sz_sub (max_size self) (use_size self) in
        if spc_size \<le> upper_size then [(wp self, spc_size)]
        else [(wp self, upper_size), (0, sz_sub spc_size upper_size)])"

definition hev_ring_buffer_write_finish :: "ring \<Rightarrow> nat \<Rightarrow> ring" where
  "hev_ring_buffer_write_finish self sz =
     self\<lparr>wp := sz_add (wp self) sz mod max_size self,
          use_size := sz_add (use_size self) sz,
          rda_size := sz_add (rda_size self) sz\<rparr>"

section \<open>Scatter and gather\<close>

text \<open>
  What \<^verbatim>\<open>readv\<close> stores and \<^verbatim>\<open>writev\<close> fetches through a vector: the blocks in order.
\<close>

definition iov_len :: "iovec list \<Rightarrow> nat" where
  "iov_len iov = sum_list (map snd iov)"

fun iov_store :: "byte list \<Rightarrow> iovec list \<Rightarrow> byte list \<Rightarrow> byte list" where
  "iov_store d [] bs = d"
| "iov_store d ((off, len) # iov) bs = iov_store (mem_put d off (take len bs)) iov (drop len bs)"

definition iov_fetch :: "byte list \<Rightarrow> iovec list \<Rightarrow> byte list" where
  "iov_fetch d iov = concat (map (\<lambda>(off, len). mem_get d off len) iov)"

section \<open>Circular slices\<close>

text \<open>\<open>n\<close> bytes of a circular array from position \<open>i\<close> on.\<close>

definition circ :: "byte list \<Rightarrow> nat \<Rightarrow> nat \<Rightarrow> byte list" where
  "circ d i n = map (\<lambda>k. d ! ((i + k) mod length d)) [0..<n]"

lemma length_circ [simp]: "length (circ d i n) = n"
  by (simp add: circ_def)

lemma circ_0 [simp]: "circ d i 0 = []"
  by (simp add: circ_def)

lemma nth_circ [simp]: "k < n \<Longrightarrow> circ d i n ! k = d ! ((i + k) mod length d)"
  by (simp add: circ_def)

lemma circ_split: "circ d i (m + n) = circ d i m @ circ d (i + m) n"
  by (rule nth_equalityI) (auto simp: nth_append)

lemma circ_mod: "circ d (i mod length d) n = circ d i n"
  by (simp add: circ_def mod_add_left_eq)

lemma circ_mod_eq: "i mod length d = j mod length d \<Longrightarrow> circ d i n = circ d j n"
  by (metis circ_mod)

lemma circ_take_drop:
  assumes "m \<le> n"
  shows "take m (circ d i n) = circ d i m" "drop m (circ d i n) = circ d (i + m) (n - m)"
  using circ_split [of d i m "n - m"] assms by simp_all

lemma circ_linear:
  assumes "i + n \<le> length d"
  shows "circ d i n = mem_get d i n"
proof (rule nth_equalityI)
  fix k assume "k < length (circ d i n)"
  with assms show "circ d i n ! k = mem_get d i n ! k"
    by (simp add: circ_def mem_get_def)
qed (use assms in \<open>simp add: mem_get_def\<close>)

lemma circ_wrap:
  assumes "i \<le> length d" "length d \<le> i + n" "i + n \<le> i + length d"
  shows "circ d i n = mem_get d i (length d - i) @ mem_get d 0 (n - (length d - i))"
proof -
  let ?u = "length d - i"
  have "circ d i n = circ d i ?u @ circ d (i + ?u) (n - ?u)"
    using circ_split [of d i ?u "n - ?u"] assms by simp
  moreover have "circ d (i + ?u) (n - ?u) = circ d 0 (n - ?u)"
    using circ_mod [of d "length d" "n - ?u"] assms by simp
  ultimately show ?thesis using assms by (simp add: circ_linear)
qed

text \<open>Equal slices of two arrays that agree outside a window.\<close>

lemma circ_cong:
  assumes "length d = length d'" "\<And>k. k < n \<Longrightarrow> d ! ((i + k) mod length d) = d' ! ((i + k) mod length d)"
  shows "circ d i n = circ d' i n"
  using assms by (simp add: circ_def)

text \<open>The vector that covers a circular window: one block, or two when the window wraps.\<close>

definition window :: "nat \<Rightarrow> nat \<Rightarrow> nat \<Rightarrow> iovec list" where
  "window m i n = (if n = 0 then [] else if n \<le> m - i then [(i, n)] else [(i, m - i), (0, n - (m - i))])"

lemma iov_len_window: "i \<le> m \<Longrightarrow> iov_len (window m i n) = n"
  by (auto simp: window_def iov_len_def)

lemma iov_fetch_window:
  assumes "i < length d" "n \<le> length d"
  shows "iov_fetch d (window (length d) i n) = circ d i n"
  using assms by (auto simp: window_def iov_fetch_def circ_linear circ_wrap)

lemma length_iov_store_window:
  assumes "i < length d" "n \<le> length d" "length bs \<le> n"
  shows "length (iov_store d (window (length d) i n) bs) = length d"
  using assms by (auto simp: window_def mem_put_def)

lemma nth_iov_store_window:
  assumes "i < length d" "n \<le> length d" "length bs \<le> n" "k < length d"
  shows "iov_store d (window (length d) i n) bs ! ((i + k) mod length d) =
    (if k < length bs then bs ! k else d ! ((i + k) mod length d))"
proof -
  have m: "(i + k) mod length d = (if i + k < length d then i + k else i + k - length d)"
    using assms by (simp add: mod_if)
  show ?thesis
  proof (cases "n \<le> length d - i")
    case True
    then have "iov_store d (window (length d) i n) bs = mem_put d i bs"
      using assms by (auto simp: window_def mem_put_def)
    then show ?thesis using assms m True by (auto simp: nth_mem_put)
  next
    case False
    let ?u = "length d - i"
    have "iov_store d (window (length d) i n) bs =
        mem_put (mem_put d i (take ?u bs)) 0 (drop ?u bs)"
      using assms False by (auto simp: window_def take_all)
    moreover have "mem_put (mem_put d i (take ?u bs)) 0 (drop ?u bs) ! ((i + k) mod length d) =
        (if k < length bs then bs ! k else d ! ((i + k) mod length d))"
    proof (cases "i + k < length d")
      case True
      then show ?thesis using assms by (auto simp: nth_mem_put m)
    next
      case wrap: False
      have k: "k = i + k - length d + ?u" using wrap assms by simp
      show ?thesis
      proof (cases "k < length bs")
        case True
        then have "i + k - length d < length (drop ?u bs)" using wrap assms by simp
        moreover have "drop ?u bs ! (i + k - length d) = bs ! k"
          using True wrap assms by simp
        ultimately show ?thesis using True wrap assms by (simp add: nth_mem_put m)
      next
        case False
        then have "\<not> i + k - length d < length (drop ?u bs)" using wrap assms by simp
        moreover have "\<not> i \<le> i + k - length d" using wrap assms by simp
        ultimately show ?thesis using False wrap assms by (simp add: nth_mem_put m)
      qed
    qed
    ultimately show ?thesis by simp
  qed
qed

lemma circ_iov_store:
  assumes "i < length d" "n \<le> length d" "length bs \<le> n"
  shows "circ (iov_store d (window (length d) i n) bs) i (length bs) = bs"
  using assms
  by (intro nth_equalityI) (simp_all add: circ_def length_iov_store_window nth_iov_store_window)

lemma circ_iov_store_outside:
  assumes "i < length d" "n \<le> length d" "length bs \<le> n" "n + l \<le> length d"
  shows "circ (iov_store d (window (length d) i n) bs) (i + n) l = circ d (i + n) l"
proof -
  have "iov_store d (window (length d) i n) bs ! ((i + (n + k)) mod length d) =
      d ! ((i + (n + k)) mod length d)" if "k < l" for k
    using assms that by (subst nth_iov_store_window) auto
  then show ?thesis
    using assms by (simp add: circ_def length_iov_store_window add.assoc)
qed

section \<open>Invariant and abstraction\<close>

definition ring_inv :: "ring \<Rightarrow> bool" where
  "ring_inv b \<longleftrightarrow> 0 < max_size b \<and> 2 * max_size b < SIZE_MOD \<and> length (rdata b) = max_size b \<and>
     rp b < max_size b \<and> rda_size b \<le> use_size b \<and> use_size b \<le> max_size b \<and>
     wp b = (rp b + rda_size b) mod max_size b"

definition unacked :: "ring \<Rightarrow> byte list" where
  "unacked b = circ (rdata b) (rp b + max_size b - (use_size b - rda_size b)) (use_size b - rda_size b)"

definition readable :: "ring \<Rightarrow> byte list" where
  "readable b = circ (rdata b) (rp b) (rda_size b)"

definition free_space :: "ring \<Rightarrow> nat" where
  "free_space b = max_size b - use_size b"

lemma length_unacked [simp]: "length (unacked b) = use_size b - rda_size b"
  by (simp add: unacked_def)

lemma length_readable [simp]: "length (readable b) = rda_size b"
  by (simp add: readable_def)

lemma ring_inv_alloca:
  "garbage \<noteq> [] \<Longrightarrow> 2 * length garbage < SIZE_MOD \<Longrightarrow> ring_inv (hev_ring_buffer_alloca garbage)"
  by (simp add: ring_inv_def hev_ring_buffer_alloca_def)

lemma reading_window:
  assumes "ring_inv b"
  shows "hev_ring_buffer_reading b = window (max_size b) (rp b) (rda_size b)"
  using assms
  by (auto simp: ring_inv_def hev_ring_buffer_reading_def window_def Let_def size_simps)

lemma writing_window:
  assumes "ring_inv b"
  shows "hev_ring_buffer_writing b = window (max_size b) (wp b) (free_space b)"
proof -
  have "wp b < max_size b" using assms by (simp add: ring_inv_def)
  with assms show ?thesis
    by (auto simp: ring_inv_def hev_ring_buffer_writing_def window_def free_space_def Let_def
        size_simps)
qed

lemma reading_fetch:
  "ring_inv b \<Longrightarrow> iov_fetch (rdata b) (hev_ring_buffer_reading b) = readable b"
  using iov_fetch_window [of "rp b" "rdata b" "rda_size b"]
  by (simp add: reading_window readable_def ring_inv_def)

lemma reading_len: "ring_inv b \<Longrightarrow> iov_len (hev_ring_buffer_reading b) = rda_size b"
  by (simp add: reading_window iov_len_window ring_inv_def)

lemma writing_len: "ring_inv b \<Longrightarrow> iov_len (hev_ring_buffer_writing b) = free_space b"
  by (simp add: writing_window iov_len_window ring_inv_def)

section \<open>Refinement of the operations\<close>

text \<open>Storing bytes through the write vector and committing them.\<close>

definition ring_put :: "ring \<Rightarrow> byte list \<Rightarrow> ring" where
  "ring_put b bs =
     hev_ring_buffer_write_finish
       (b\<lparr>rdata := iov_store (rdata b) (hev_ring_buffer_writing b) bs\<rparr>) (length bs)"

lemma ring_put_refines:
  assumes "ring_inv b" "length bs \<le> free_space b"
  shows "ring_inv (ring_put b bs)"
    and "unacked (ring_put b bs) = unacked b"
    and "readable (ring_put b bs) = readable b @ bs"
    and "max_size (ring_put b bs) = max_size b"
proof -
  let ?d = "rdata b" and ?f = "free_space b" and ?m = "max_size b"
  let ?u = "use_size b - rda_size b" and ?r = "rda_size b" and ?n = "length bs"
  let ?d' = "iov_store ?d (window ?m (wp b) ?f) bs"
  have inv: "0 < ?m" "2 * ?m < SIZE_MOD" "length ?d = ?m" "rp b < ?m" "?r \<le> use_size b"
    "use_size b \<le> ?m" "wp b = (rp b + ?r) mod ?m" "wp b < ?m" "?f = ?m - use_size b" "?f \<le> ?m"
    using assms(1) by (auto simp: ring_inv_def free_space_def)
  have len: "length ?d' = ?m"
    using length_iov_store_window [of "wp b" ?d ?f bs] inv assms(2) by simp
  have put: "ring_put b bs = b\<lparr>rdata := ?d', wp := (wp b + ?n) mod ?m,
      use_size := use_size b + ?n, rda_size := ?r + ?n\<rparr>"
  proof -
    have "wp b + ?n < SIZE_MOD" "use_size b + ?n < SIZE_MOD" "?r + ?n < SIZE_MOD"
      using inv(1-6,8-10) assms(2) by linarith+
    then show ?thesis
      by (simp add: ring_put_def hev_ring_buffer_write_finish_def writing_window [OF assms(1)]
          sz_add_id)
  qed
  show "max_size (ring_put b bs) = ?m" by (simp add: put)
  have "(wp b + ?n) mod ?m = (rp b + (?r + ?n)) mod ?m"
    by (simp only: inv(7) mod_add_left_eq add.assoc)
  then show "ring_inv (ring_put b bs)"
    using inv assms(2) len by (simp add: put ring_inv_def)
  have new: "circ ?d' (rp b + ?r) ?n = bs"
    using circ_iov_store [of "wp b" ?d ?f bs] circ_mod [of ?d' "rp b + ?r" ?n] inv assms(2) len
    by simp
  have old: "circ ?d' (wp b + ?f) (use_size b) = circ ?d (wp b + ?f) (use_size b)"
    using circ_iov_store_outside [of "wp b" ?d ?f bs "use_size b"] inv assms(2) by simp
  have pos: "(wp b + ?f) mod ?m = (rp b + ?m - ?u) mod ?m"
  proof -
    have "(wp b + ?f) mod ?m = (rp b + ?r + ?f) mod ?m"
      by (simp add: inv(7) mod_add_left_eq)
    also have "rp b + ?r + ?f = rp b + ?m - ?u" using inv by simp
    finally show ?thesis .
  qed
  have same: "circ ?d' (rp b + ?m - ?u) (use_size b) = circ ?d (rp b + ?m - ?u) (use_size b)"
    using old circ_mod_eq [of "wp b + ?f" ?d' "rp b + ?m - ?u" "use_size b"]
      circ_mod_eq [of "wp b + ?f" ?d "rp b + ?m - ?u" "use_size b"] pos len inv(3) by simp
  have split: "circ e (rp b + ?m - ?u) (use_size b) =
      circ e (rp b + ?m - ?u) ?u @ circ e (rp b + ?m) ?r" for e
    using circ_split [of e "rp b + ?m - ?u" ?u ?r] inv by simp
  have "circ ?d' (rp b + ?m - ?u) ?u = circ ?d (rp b + ?m - ?u) ?u"
    and rd: "circ ?d' (rp b + ?m) ?r = circ ?d (rp b + ?m) ?r"
    using same by (auto simp: split)
  then show "unacked (ring_put b bs) = unacked b"
    by (simp add: put unacked_def)
  have "circ ?d' (rp b) ?r = circ ?d (rp b) ?r"
    using rd circ_mod_eq [of "rp b + ?m" ?d' "rp b" ?r] circ_mod_eq [of "rp b + ?m" ?d "rp b" ?r]
      len inv(3) by simp
  then show "readable (ring_put b bs) = readable b @ bs"
    using new by (simp add: put readable_def circ_split)
qed

lemma read_finish_refines:
  assumes "ring_inv b" "n \<le> rda_size b"
  shows "ring_inv (hev_ring_buffer_read_finish b n)"
    and "unacked (hev_ring_buffer_read_finish b n) = unacked b @ take n (readable b)"
    and "readable (hev_ring_buffer_read_finish b n) = drop n (readable b)"
    and "max_size (hev_ring_buffer_read_finish b n) = max_size b"
proof -
  let ?m = "max_size b" and ?u = "use_size b - rda_size b"
  have inv: "0 < ?m" "2 * ?m < SIZE_MOD" "length (rdata b) = ?m" "rp b < ?m"
    "rda_size b \<le> use_size b" "use_size b \<le> ?m" "wp b = (rp b + rda_size b) mod ?m"
    using assms(1) by (auto simp: ring_inv_def)
  have fin: "hev_ring_buffer_read_finish b n =
      b\<lparr>rp := (rp b + n) mod ?m, rda_size := rda_size b - n\<rparr>"
    using inv assms(2) by (simp add: hev_ring_buffer_read_finish_def size_simps)
  show "max_size (hev_ring_buffer_read_finish b n) = ?m" by (simp add: fin)
  have "((rp b + n) mod ?m + (rda_size b - n)) mod ?m = (rp b + n + (rda_size b - n)) mod ?m"
    by (rule mod_add_left_eq)
  then have "((rp b + n) mod ?m + (rda_size b - n)) mod ?m = (rp b + rda_size b) mod ?m"
    using assms(2) by simp
  then show "ring_inv (hev_ring_buffer_read_finish b n)"
    using inv assms(2) by (simp add: fin ring_inv_def)
  show "readable (hev_ring_buffer_read_finish b n) = drop n (readable b)"
    using assms(2) circ_mod [of "rdata b" "rp b + n" "rda_size b - n"] inv(3)
    by (simp add: fin readable_def circ_take_drop)
  have "((rp b + n) mod ?m + ?m - (?u + n)) mod ?m = (rp b + ?m - ?u) mod ?m"
  proof (cases "rp b + n < ?m")
    case True
    have "rp b + n + ?m - (?u + n) = rp b + ?m - ?u" by arith
    with True show ?thesis by simp
  next
    case False
    then have "(rp b + n) mod ?m = rp b + n - ?m"
      using inv assms(2) by (simp add: mod_if)
    moreover have "rp b + n - ?m + ?m - (?u + n) = rp b - ?u" using False by arith
    ultimately have "((rp b + n) mod ?m + ?m - (?u + n)) mod ?m = (rp b - ?u) mod ?m"
      by (simp only:)
    moreover have "rp b + ?m - ?u = (rp b - ?u) + ?m"
      using False inv(4-6) assms(2) by arith
    ultimately show ?thesis by simp
  qed
  then have "circ (rdata b) ((rp b + n) mod ?m + ?m - (?u + n)) (?u + n) =
      circ (rdata b) (rp b + ?m - ?u) (?u + n)"
    by (intro circ_mod_eq) (simp add: inv(3))
  also have "\<dots> = circ (rdata b) (rp b + ?m - ?u) ?u @ circ (rdata b) (rp b + ?m) n"
    using circ_split [of "rdata b" "rp b + ?m - ?u" ?u n] inv by simp
  also have "circ (rdata b) (rp b + ?m) n = circ (rdata b) (rp b) n"
    by (intro circ_mod_eq) (simp add: inv(3))
  finally show "unacked (hev_ring_buffer_read_finish b n) = unacked b @ take n (readable b)"
    using assms(2) inv by (simp add: fin unacked_def readable_def circ_take_drop)
qed

lemma read_release_refines:
  assumes "ring_inv b" "n \<le> use_size b - rda_size b"
  shows "ring_inv (hev_ring_buffer_read_release b n)"
    and "unacked (hev_ring_buffer_read_release b n) = drop n (unacked b)"
    and "readable (hev_ring_buffer_read_release b n) = readable b"
    and "max_size (hev_ring_buffer_read_release b n) = max_size b"
proof -
  let ?m = "max_size b" and ?u = "use_size b - rda_size b"
  have inv: "0 < ?m" "2 * ?m < SIZE_MOD" "length (rdata b) = ?m" "rp b < ?m"
    "rda_size b \<le> use_size b" "use_size b \<le> ?m" "wp b = (rp b + rda_size b) mod ?m"
    using assms(1) by (auto simp: ring_inv_def)
  have rel: "hev_ring_buffer_read_release b n =
      (if use_size b = n then b\<lparr>use_size := 0, rp := 0, wp := 0\<rparr>
       else b\<lparr>use_size := use_size b - n\<rparr>)"
    using inv assms(2) by (auto simp: hev_ring_buffer_read_release_def Let_def size_simps)
  show "max_size (hev_ring_buffer_read_release b n) = ?m"
    and "ring_inv (hev_ring_buffer_read_release b n)"
    using inv assms(2) by (auto simp: rel ring_inv_def)
  show "readable (hev_ring_buffer_read_release b n) = readable b"
  proof -
    have "use_size b = n \<Longrightarrow> rda_size b = 0" using inv assms(2) by arith
    then show ?thesis by (auto simp: rel readable_def)
  qed
  have "rp b + ?m - (?u - n) = rp b + ?m - ?u + n" using inv assms(2) by simp
  then have "circ (rdata b) (rp b + ?m - (?u - n)) (?u - n) = drop n (unacked b)"
    using assms(2) by (simp only: unacked_def circ_take_drop(2))
  moreover have "use_size b - n - rda_size b = ?u - n" by simp
  ultimately show "unacked (hev_ring_buffer_read_release b n) = drop n (unacked b)"
    using assms(2) by (auto simp: rel unacked_def)
qed

section \<open>The contract of the buffer\<close>

text \<open>
  What the TCP session relies on: bytes become readable in the order they were stored, a read
  moves them to the unacknowledged stage, and an acknowledgement frees the oldest ones.
\<close>

locale byte_pipe =
  fixes inv :: "'b \<Rightarrow> bool"
    and un :: "'b \<Rightarrow> byte list"
    and rd :: "'b \<Rightarrow> byte list"
    and cap :: "'b \<Rightarrow> nat"
    and put :: "'b \<Rightarrow> byte list \<Rightarrow> 'b"
    and tak :: "'b \<Rightarrow> nat \<Rightarrow> 'b"
    and rel :: "'b \<Rightarrow> nat \<Rightarrow> 'b"
  assumes put_law: "inv b \<Longrightarrow> length (un b) + length (rd b) + length bs \<le> cap b \<Longrightarrow>
      inv (put b bs) \<and> un (put b bs) = un b \<and> rd (put b bs) = rd b @ bs \<and> cap (put b bs) = cap b"
    and tak_law: "inv b \<Longrightarrow> n \<le> length (rd b) \<Longrightarrow>
      inv (tak b n) \<and> un (tak b n) = un b @ take n (rd b) \<and> rd (tak b n) = drop n (rd b) \<and>
      cap (tak b n) = cap b"
    and rel_law: "inv b \<Longrightarrow> n \<le> length (un b) \<Longrightarrow>
      inv (rel b n) \<and> un (rel b n) = drop n (un b) \<and> rd (rel b n) = rd b \<and> cap (rel b n) = cap b"
    and room: "inv b \<Longrightarrow> length (un b) + length (rd b) \<le> cap b"
begin

text \<open>Storing and reading add nothing, lose nothing and reorder nothing.\<close>

lemma put_stream:
  "inv b \<Longrightarrow> length (un b) + length (rd b) + length bs \<le> cap b \<Longrightarrow>
   un (put b bs) @ rd (put b bs) = un b @ rd b @ bs"
  using put_law by simp

lemma tak_stream: "inv b \<Longrightarrow> n \<le> length (rd b) \<Longrightarrow> un (tak b n) @ rd (tak b n) = un b @ rd b"
  using tak_law by simp

lemma rel_stream:
  "inv b \<Longrightarrow> n \<le> length (un b) \<Longrightarrow> take n (un b) @ un (rel b n) @ rd (rel b n) = un b @ rd b"
  using rel_law by simp

lemma tak_rel:
  assumes "inv b" "n \<le> length (rd b)" "un b = []"
  shows "un (rel (tak b n) n) = []" "rd (rel (tak b n) n) = drop n (rd b)"
  using assms tak_law [of b n] rel_law [of "tak b n" n] by simp_all

end

interpretation rg: byte_pipe ring_inv unacked readable max_size ring_put
  hev_ring_buffer_read_finish hev_ring_buffer_read_release
proof
  fix b :: ring and bs n
  show "ring_inv (ring_put b bs) \<and> unacked (ring_put b bs) = unacked b \<and>
      readable (ring_put b bs) = readable b @ bs \<and> max_size (ring_put b bs) = max_size b"
    if "ring_inv b" "length (unacked b) + length (readable b) + length bs \<le> max_size b"
  proof -
    have "length bs \<le> free_space b" using that by (simp add: ring_inv_def free_space_def)
    then show ?thesis using ring_put_refines that(1) by simp
  qed
  show "ring_inv (hev_ring_buffer_read_finish b n) \<and>
      unacked (hev_ring_buffer_read_finish b n) = unacked b @ take n (readable b) \<and>
      readable (hev_ring_buffer_read_finish b n) = drop n (readable b) \<and>
      max_size (hev_ring_buffer_read_finish b n) = max_size b"
    if "ring_inv b" "n \<le> length (readable b)"
    using read_finish_refines that by simp
  show "ring_inv (hev_ring_buffer_read_release b n) \<and>
      unacked (hev_ring_buffer_read_release b n) = drop n (unacked b) \<and>
      readable (hev_ring_buffer_read_release b n) = readable b \<and>
      max_size (hev_ring_buffer_read_release b n) = max_size b"
    if "ring_inv b" "n \<le> length (unacked b)"
    using read_release_refines that by simp
  show "length (unacked b) + length (readable b) \<le> max_size b" if "ring_inv b"
    using that by (simp add: ring_inv_def)
qed

section \<open>Refinement of the buffer to a bounded pipe\<close>

text \<open>
  The uses of the buffer as commands: a read into the free space, a write out of the readable
  bytes, an acknowledgement.  A command outside the space or bytes the buffer offers is refused;
  the second component of a step's result is the bytes a write sends.
\<close>

datatype ring_cmd = Put "byte list" | Take nat | Release nat

fun ring_step :: "ring \<Rightarrow> ring_cmd \<Rightarrow> (ring \<times> byte list) option" where
  "ring_step b (Put bs) =
     (if length bs \<le> iov_len (hev_ring_buffer_writing b) then Some (ring_put b bs, []) else None)"
| "ring_step b (Take n) =
     (let iov = hev_ring_buffer_reading b in
      if n \<le> iov_len iov
      then Some (hev_ring_buffer_read_finish b n, take n (iov_fetch (rdata b) iov)) else None)"
| "ring_step b (Release n) =
     (if rda_size b + n \<le> hev_ring_buffer_get_use_size b
      then Some (hev_ring_buffer_read_release b n, []) else None)"

fun ring_run :: "ring \<Rightarrow> ring_cmd list \<Rightarrow> (ring \<times> byte list) option" where
  "ring_run b [] = Some (b, [])"
| "ring_run b (c # cs) =
     do { (b1, o1) \<leftarrow> ring_step b c; (b2, o2) \<leftarrow> ring_run b1 cs; Some (b2, o1 @ o2) }"

text \<open>The abstract pipe: the unacknowledged and the readable bytes, of at most \<open>cap\<close> in all.\<close>

fun pipe_step :: "nat \<Rightarrow> byte list \<times> byte list \<Rightarrow> ring_cmd \<Rightarrow>
    ((byte list \<times> byte list) \<times> byte list) option" where
  "pipe_step cap (u, r) (Put bs) =
     (if length u + length r + length bs \<le> cap then Some ((u, r @ bs), []) else None)"
| "pipe_step cap (u, r) (Take n) =
     (if n \<le> length r then Some ((u @ take n r, drop n r), take n r) else None)"
| "pipe_step cap (u, r) (Release n) = (if n \<le> length u then Some ((drop n u, r), []) else None)"

fun pipe_run :: "nat \<Rightarrow> byte list \<times> byte list \<Rightarrow> ring_cmd list \<Rightarrow>
    ((byte list \<times> byte list) \<times> byte list) option" where
  "pipe_run cap p [] = Some (p, [])"
| "pipe_run cap p (c # cs) =
     do { (p1, o1) \<leftarrow> pipe_step cap p c; (p2, o2) \<leftarrow> pipe_run cap p1 cs; Some (p2, o1 @ o2) }"

definition ring_abs :: "ring \<Rightarrow> byte list \<times> byte list" where
  "ring_abs b = (unacked b, readable b)"

lemma ring_step_refines:
  assumes "ring_inv b"
  shows "map_option (map_prod ring_abs id) (ring_step b c) = pipe_step (max_size b) (ring_abs b) c"
    and "ring_step b c = Some (b', out) \<Longrightarrow> ring_inv b' \<and> max_size b' = max_size b"
proof -
  have sz: "length bs \<le> free_space b \<longleftrightarrow> length (unacked b) + length (readable b) + length bs \<le> max_size b"
    for bs :: "byte list" using assms by (auto simp: ring_inv_def free_space_def)
  have un: "rda_size b + n \<le> hev_ring_buffer_get_use_size b \<longleftrightarrow> n \<le> length (unacked b)" for n
    using assms by (auto simp: ring_inv_def hev_ring_buffer_get_use_size_def)
  note laws = rg.put_law [OF assms] rg.tak_law [OF assms] rg.rel_law [OF assms]
  show "map_option (map_prod ring_abs id) (ring_step b c) = pipe_step (max_size b) (ring_abs b) c"
    using laws sz un by (cases c) (simp_all add: ring_abs_def writing_len reading_len reading_fetch assms)
  show "ring_step b c = Some (b', out) \<Longrightarrow> ring_inv b' \<and> max_size b' = max_size b"
    using laws sz un by (cases c) (auto simp: writing_len reading_len assms split: if_splits)
qed

text \<open>
  C9: every sequence of reads into the buffer, writes out of it and acknowledgements gives the same
  bytes and the same refusals as a bounded first-in first-out pipe, through every wrap-around of the
  positions.
\<close>

theorem ring_run_refines:
  assumes "ring_inv b"
  shows "map_option (map_prod ring_abs id) (ring_run b cs) = pipe_run (max_size b) (ring_abs b) cs"
  using assms
proof (induction cs arbitrary: b)
  case (Cons c cs)
  note step = ring_step_refines [OF Cons.prems, of c]
  show ?case
  proof (cases "ring_step b c")
    case None
    then show ?thesis using step(1) by simp
  next
    case (Some p)
    then obtain b1 o1 where p: "ring_step b c = Some (b1, o1)" by (cases p) simp
    then have inv: "ring_inv b1" "max_size b1 = max_size b" using step(2) by auto
    have "pipe_step (max_size b) (ring_abs b) c = Some (ring_abs b1, o1)" using step(1) p by simp
    then show ?thesis
      using p Cons.IH [OF inv(1), symmetric] inv(2)
      by (cases "ring_run b1 cs") (auto simp: map_prod_def split: prod.splits)
  qed
qed simp

theorem ring_run_refines_witness:
  "map_option (map_prod ring_abs id)
     (ring_run (hev_ring_buffer_alloca [0, 0, 0]) [Put [1, 2], Take 2, Release 1, Put [3, 4], Take 2]) =
   Some (([2, 3, 4], []), [1, 2, 3, 4])"
  using ring_run_refines [of "hev_ring_buffer_alloca [0, 0, 0]"
      "[Put [1, 2], Take 2, Release 1, Put [3, 4], Take 2]"] ring_inv_alloca [of "[0, 0, 0]"]
  by (simp add: SIZE_MOD_def hev_ring_buffer_alloca_def ring_abs_def unacked_def readable_def)

end
