(* ===== verification/CircularBuffer.thy ===== *)
theory CircularBuffer
  imports RingBuffer
begin

text \<open>
  The circular buffer of the task library,
  \<^verbatim>\<open>third-part/hev-task-system/src/lib/io/buffer/hev-circular-buffer.c\<close>, which the TCP relay of the
  server uses in each direction.  Unlike the ring buffer of the sessions it frees the bytes as soon
  as they are read.  Both implement a bounded queue of bytes, the contract \<^verbatim>\<open>byte_queue\<close>.
\<close>

section \<open>The buffer and its operations\<close>

record circular =
  cb_rp :: nat
  cb_use :: nat
  cb_max :: nat
  cb_ref :: nat
  cb_data :: "byte list"

text \<open>The fresh array holds whatever the allocator left in it.\<close>

definition hev_circular_buffer_new :: "bool \<Rightarrow> byte list \<Rightarrow> circular option" where
  "hev_circular_buffer_new ok garbage =
     (if ok then Some \<lparr>cb_rp = 0, cb_use = 0, cb_max = length garbage, cb_ref = 1, cb_data = garbage\<rparr> else None)"

definition hev_circular_buffer_ref :: "circular \<Rightarrow> circular" where
  "hev_circular_buffer_ref self = self\<lparr>cb_ref := cb_ref self + 1\<rparr>"

text \<open>\<^term>\<open>None\<close> is the freed buffer.\<close>

definition hev_circular_buffer_unref :: "circular \<Rightarrow> circular option" where
  "hev_circular_buffer_unref self =
     (let self1 = self\<lparr>cb_ref := cb_ref self - 1\<rparr> in if cb_ref self1 \<noteq> 0 then Some self1 else None)"

definition hev_circular_buffer_get_max_size :: "circular \<Rightarrow> nat" where
  "hev_circular_buffer_get_max_size self = cb_max self"

definition hev_circular_buffer_get_use_size :: "circular \<Rightarrow> nat" where
  "hev_circular_buffer_get_use_size self = cb_use self"

definition hev_circular_buffer_reading :: "circular \<Rightarrow> iovec list" where
  "hev_circular_buffer_reading self =
     (let upper_size = sz_sub (cb_max self) (cb_rp self) in
      if cb_use self = 0 then []
      else if cb_use self \<le> upper_size then [(cb_rp self, cb_use self)]
      else [(cb_rp self, upper_size), (0, sz_sub (cb_use self) upper_size)])"

definition hev_circular_buffer_read_finish :: "circular \<Rightarrow> nat \<Rightarrow> circular" where
  "hev_circular_buffer_read_finish self sz =
     self\<lparr>cb_rp := sz_add (cb_rp self) sz mod cb_max self, cb_use := sz_sub (cb_use self) sz\<rparr>"

definition hev_circular_buffer_writing :: "circular \<Rightarrow> iovec list" where
  "hev_circular_buffer_writing self =
     (let wp = sz_add (cb_rp self) (cb_use self) mod cb_max self;
          upper_size = sz_sub (cb_max self) wp;
          spc_size = sz_sub (cb_max self) (cb_use self) in
      if cb_use self = cb_max self then []
      else if spc_size \<le> upper_size then [(wp, spc_size)]
      else [(wp, upper_size), (0, sz_sub spc_size upper_size)])"

definition hev_circular_buffer_write_finish :: "circular \<Rightarrow> nat \<Rightarrow> circular" where
  "hev_circular_buffer_write_finish self sz = self\<lparr>cb_use := sz_add (cb_use self) sz\<rparr>"

text \<open>Storing through the write vector and committing.\<close>

definition circular_put :: "circular \<Rightarrow> byte list \<Rightarrow> circular" where
  "circular_put b bs = hev_circular_buffer_write_finish
     (b\<lparr>cb_data := iov_store (cb_data b) (hev_circular_buffer_writing b) bs\<rparr>) (length bs)"

section \<open>Invariant and abstraction\<close>

definition circular_inv :: "circular \<Rightarrow> bool" where
  "circular_inv b \<longleftrightarrow> 0 < cb_max b \<and> 2 * cb_max b < SIZE_MOD \<and> length (cb_data b) = cb_max b \<and>
     cb_rp b < cb_max b \<and> cb_use b \<le> cb_max b"

definition held :: "circular \<Rightarrow> byte list" where
  "held b = circ (cb_data b) (cb_rp b) (cb_use b)"

lemma length_held [simp]: "length (held b) = cb_use b"
  by (simp add: held_def)

lemma circular_inv_new:
  "hev_circular_buffer_new True garbage = Some b \<Longrightarrow> garbage \<noteq> [] \<Longrightarrow> 2 * length garbage < SIZE_MOD \<Longrightarrow>
   circular_inv b \<and> held b = [] \<and> cb_max b = length garbage"
  by (auto simp: hev_circular_buffer_new_def circular_inv_def held_def)

lemma circular_reading:
  assumes "circular_inv b"
  shows "hev_circular_buffer_reading b = window (cb_max b) (cb_rp b) (cb_use b)"
  using assms by (auto simp: circular_inv_def hev_circular_buffer_reading_def window_def Let_def size_simps)

lemma circular_reading_fetch:
  "circular_inv b \<Longrightarrow> iov_fetch (cb_data b) (hev_circular_buffer_reading b) = held b"
  using iov_fetch_window [of "cb_rp b" "cb_data b" "cb_use b"]
  by (simp add: circular_reading held_def circular_inv_def)

lemma circular_writing:
  assumes "circular_inv b"
  shows "hev_circular_buffer_writing b = window (cb_max b) ((cb_rp b + cb_use b) mod cb_max b) (cb_max b - cb_use b)"
  using assms mod_less_divisor [of "cb_max b" "cb_rp b + cb_use b"]
  by (auto simp: circular_inv_def hev_circular_buffer_writing_def window_def Let_def size_simps simp del: mod_less_divisor)

lemma circular_writing_len:
  "circular_inv b \<Longrightarrow> iov_len (hev_circular_buffer_writing b) = cb_max b - cb_use b"
  by (simp add: circular_writing iov_len_window circular_inv_def less_imp_le)

lemma circular_empty:
  assumes "circular_inv b"
  shows "hev_circular_buffer_reading b = [] \<longleftrightarrow> held b = []"
    and "hev_circular_buffer_writing b = [] \<longleftrightarrow> cb_use b = cb_max b"
  using assms by (auto simp: circular_reading circular_writing window_def held_def circ_def circular_inv_def)

lemma circular_put_refines:
  assumes "circular_inv b" "cb_use b + length bs \<le> cb_max b"
  shows "circular_inv (circular_put b bs)" "held (circular_put b bs) = held b @ bs"
    "cb_max (circular_put b bs) = cb_max b"
proof -
  let ?m = "cb_max b" and ?w = "(cb_rp b + cb_use b) mod cb_max b" and ?f = "cb_max b - cb_use b"
  let ?d = "cb_data b" and ?d' = "iov_store (cb_data b) (window (cb_max b) ((cb_rp b + cb_use b) mod cb_max b) (cb_max b - cb_use b)) bs"
  have inv: "0 < ?m" "2 * ?m < SIZE_MOD" "length ?d = ?m" "cb_rp b < ?m" "cb_use b \<le> ?m" "?w < ?m"
    using assms(1) by (auto simp: circular_inv_def)
  have len: "length ?d' = ?m" using length_iov_store_window [of ?w ?d ?f bs] inv assms(2) by simp
  have "cb_use b + length bs < SIZE_MOD" using inv assms(2) by linarith
  then have put: "circular_put b bs = b\<lparr>cb_data := ?d', cb_use := cb_use b + length bs\<rparr>"
    by (simp add: circular_put_def hev_circular_buffer_write_finish_def circular_writing [OF assms(1)] sz_add_id)
  show "circular_inv (circular_put b bs)" "cb_max (circular_put b bs) = ?m"
    using inv assms(2) len by (simp_all add: put circular_inv_def)
  have new: "circ ?d' (cb_rp b + cb_use b) (length bs) = bs"
    using circ_iov_store [of ?w ?d ?f bs] circ_mod [of ?d' "cb_rp b + cb_use b" "length bs"] inv assms(2) len by simp
  have "(?w + ?f) mod ?m = (cb_rp b + cb_use b + ?f) mod ?m" by (simp add: mod_add_left_eq)
  also have "cb_rp b + cb_use b + ?f = cb_rp b + ?m" using inv by simp
  finally have pos: "(?w + ?f) mod ?m = cb_rp b mod ?m" by simp
  have "circ ?d' (?w + ?f) (cb_use b) = circ ?d (?w + ?f) (cb_use b)"
    using circ_iov_store_outside [of ?w ?d ?f bs "cb_use b"] inv assms(2) by simp
  then have "circ ?d' (cb_rp b) (cb_use b) = circ ?d (cb_rp b) (cb_use b)"
    using circ_mod_eq [of "?w + ?f" ?d' "cb_rp b" "cb_use b"] circ_mod_eq [of "?w + ?f" ?d "cb_rp b" "cb_use b"]
      pos len inv(3) by simp
  then show "held (circular_put b bs) = held b @ bs" using new by (simp add: put held_def circ_split)
qed

lemma circular_read_finish_refines:
  assumes "circular_inv b" "n \<le> cb_use b"
  shows "circular_inv (hev_circular_buffer_read_finish b n)"
    "held (hev_circular_buffer_read_finish b n) = drop n (held b)"
    "cb_max (hev_circular_buffer_read_finish b n) = cb_max b"
proof -
  let ?m = "cb_max b"
  have inv: "0 < ?m" "2 * ?m < SIZE_MOD" "length (cb_data b) = ?m" "cb_rp b < ?m" "cb_use b \<le> ?m"
    using assms(1) by (auto simp: circular_inv_def)
  have fin: "hev_circular_buffer_read_finish b n = b\<lparr>cb_rp := (cb_rp b + n) mod ?m, cb_use := cb_use b - n\<rparr>"
    using inv assms(2) by (simp add: hev_circular_buffer_read_finish_def size_simps)
  show "circular_inv (hev_circular_buffer_read_finish b n)" "cb_max (hev_circular_buffer_read_finish b n) = ?m"
    using inv by (simp_all add: fin circular_inv_def)
  show "held (hev_circular_buffer_read_finish b n) = drop n (held b)"
    using assms(2) circ_mod [of "cb_data b" "cb_rp b + n" "cb_use b - n"] inv(3)
    by (simp add: fin held_def circ_take_drop)
qed

section \<open>The contract of a queue of bytes\<close>

text \<open>
  The uses of a buffer as commands: store these bytes, or fetch and drop that many.  A command
  outside the space or the bytes the buffer offers is refused; the result is what was fetched.
\<close>

fun queue_run ::
    "('b \<Rightarrow> byte list) \<Rightarrow> ('b \<Rightarrow> nat) \<Rightarrow> ('b \<Rightarrow> byte list \<Rightarrow> 'b) \<Rightarrow> ('b \<Rightarrow> nat \<Rightarrow> 'b) \<Rightarrow>
     'b \<Rightarrow> (byte list + nat) list \<Rightarrow> byte list option" where
  "queue_run out space enq deq b [] = Some []"
| "queue_run out space enq deq b (Inl bs # cs) =
     (if length bs \<le> space b then queue_run out space enq deq (enq b bs) cs else None)"
| "queue_run out space enq deq b (Inr n # cs) =
     (if n \<le> length (out b) then map_option ((@) (take n (out b))) (queue_run out space enq deq (deq b n) cs)
      else None)"

definition circular_run :: "circular \<Rightarrow> (byte list + nat) list \<Rightarrow> byte list option" where
  "circular_run = queue_run (\<lambda>b. iov_fetch (cb_data b) (hev_circular_buffer_reading b))
     (\<lambda>b. iov_len (hev_circular_buffer_writing b)) circular_put hev_circular_buffer_read_finish"

text \<open>The ring buffer of the sessions, with every byte acknowledged as soon as it is read.\<close>

definition acked_run :: "ring \<Rightarrow> (byte list + nat) list \<Rightarrow> byte list option" where
  "acked_run = queue_run (\<lambda>b. iov_fetch (rdata b) (hev_ring_buffer_reading b))
     (\<lambda>b. iov_len (hev_ring_buffer_writing b)) ring_put
     (\<lambda>b n. hev_ring_buffer_read_release (hev_ring_buffer_read_finish b n) n)"

text \<open>The same commands on a list.\<close>

fun fifo_run :: "nat \<Rightarrow> byte list \<Rightarrow> (byte list + nat) list \<Rightarrow> byte list option" where
  "fifo_run cap q [] = Some []"
| "fifo_run cap q (Inl bs # cs) = (if length bs \<le> cap - length q then fifo_run cap (q @ bs) cs else None)"
| "fifo_run cap q (Inr n # cs) =
     (if n \<le> length q then map_option ((@) (take n q)) (fifo_run cap (drop n q) cs) else None)"

locale byte_queue =
  fixes qinv :: "'b \<Rightarrow> bool"
    and out :: "'b \<Rightarrow> byte list"
    and space :: "'b \<Rightarrow> nat"
    and cap :: "'b \<Rightarrow> nat"
    and enq :: "'b \<Rightarrow> byte list \<Rightarrow> 'b"
    and deq :: "'b \<Rightarrow> nat \<Rightarrow> 'b"
  assumes space_law: "qinv b \<Longrightarrow> space b = cap b - length (out b)"
    and enq_law: "qinv b \<Longrightarrow> length bs \<le> space b \<Longrightarrow>
      qinv (enq b bs) \<and> out (enq b bs) = out b @ bs \<and> cap (enq b bs) = cap b"
    and deq_law: "qinv b \<Longrightarrow> n \<le> length (out b) \<Longrightarrow>
      qinv (deq b n) \<and> out (deq b n) = drop n (out b) \<and> cap (deq b n) = cap b"
begin

lemma run_fifo: "qinv b \<Longrightarrow> queue_run out space enq deq b cs = fifo_run (cap b) (out b) cs"
proof (induction cs arbitrary: b)
  case (Cons c cs)
  show ?case
  proof (cases c)
    case (Inl bs)
    then show ?thesis using Cons.IH [of "enq b bs"] Cons.prems enq_law [of b bs] space_law [of b] by auto
  next
    case (Inr n)
    then show ?thesis using Cons.IH [of "deq b n"] Cons.prems deq_law [of b n] by auto
  qed
qed simp

end

interpretation cb: byte_queue circular_inv "\<lambda>b. iov_fetch (cb_data b) (hev_circular_buffer_reading b)"
  "\<lambda>b. iov_len (hev_circular_buffer_writing b)" cb_max circular_put hev_circular_buffer_read_finish
proof
  fix b :: circular and bs n
  assume inv: "circular_inv b"
  then have le: "cb_use b \<le> cb_max b" by (simp add: circular_inv_def)
  show "iov_len (hev_circular_buffer_writing b) =
      cb_max b - length (iov_fetch (cb_data b) (hev_circular_buffer_reading b))"
    using inv by (simp add: circular_writing_len circular_reading_fetch)
  show "circular_inv (circular_put b bs) \<and>
      iov_fetch (cb_data (circular_put b bs)) (hev_circular_buffer_reading (circular_put b bs)) =
        iov_fetch (cb_data b) (hev_circular_buffer_reading b) @ bs \<and> cb_max (circular_put b bs) = cb_max b"
    if "length bs \<le> iov_len (hev_circular_buffer_writing b)"
    using circular_put_refines [OF inv, of bs] that le inv by (simp add: circular_writing_len circular_reading_fetch)
  show "circular_inv (hev_circular_buffer_read_finish b n) \<and>
      iov_fetch (cb_data (hev_circular_buffer_read_finish b n))
        (hev_circular_buffer_reading (hev_circular_buffer_read_finish b n)) =
        drop n (iov_fetch (cb_data b) (hev_circular_buffer_reading b)) \<and>
      cb_max (hev_circular_buffer_read_finish b n) = cb_max b"
    if "n \<le> length (iov_fetch (cb_data b) (hev_circular_buffer_reading b))"
    using circular_read_finish_refines [OF inv, of n] that inv by (simp add: circular_reading_fetch)
qed

interpretation rq: byte_queue "\<lambda>b. ring_inv b \<and> unacked b = []" "\<lambda>b. iov_fetch (rdata b) (hev_ring_buffer_reading b)"
  "\<lambda>b. iov_len (hev_ring_buffer_writing b)" max_size ring_put
  "\<lambda>b n. hev_ring_buffer_read_release (hev_ring_buffer_read_finish b n) n"
proof
  fix b :: ring and bs n
  assume "ring_inv b \<and> unacked b = []"
  then have inv: "ring_inv b" and un: "unacked b = []" by auto
  have use: "use_size b = rda_size b" using length_unacked [of b] inv un by (simp add: ring_inv_def)
  show "iov_len (hev_ring_buffer_writing b) = max_size b - length (iov_fetch (rdata b) (hev_ring_buffer_reading b))"
    using inv use by (simp add: writing_len reading_fetch free_space_def)
  show "(ring_inv (ring_put b bs) \<and> unacked (ring_put b bs) = []) \<and>
      iov_fetch (rdata (ring_put b bs)) (hev_ring_buffer_reading (ring_put b bs)) =
        iov_fetch (rdata b) (hev_ring_buffer_reading b) @ bs \<and> max_size (ring_put b bs) = max_size b"
    if "length bs \<le> iov_len (hev_ring_buffer_writing b)"
    using ring_put_refines [OF inv, of bs] that inv un by (simp add: writing_len reading_fetch)
  show "(ring_inv (hev_ring_buffer_read_release (hev_ring_buffer_read_finish b n) n) \<and>
        unacked (hev_ring_buffer_read_release (hev_ring_buffer_read_finish b n) n) = []) \<and>
      iov_fetch (rdata (hev_ring_buffer_read_release (hev_ring_buffer_read_finish b n) n))
        (hev_ring_buffer_reading (hev_ring_buffer_read_release (hev_ring_buffer_read_finish b n) n)) =
        drop n (iov_fetch (rdata b) (hev_ring_buffer_reading b)) \<and>
      max_size (hev_ring_buffer_read_release (hev_ring_buffer_read_finish b n) n) = max_size b"
    if "n \<le> length (iov_fetch (rdata b) (hev_ring_buffer_reading b))"
  proof -
    have n: "n \<le> length (readable b)" using that inv by (simp add: reading_fetch)
    have t: "ring_inv (hev_ring_buffer_read_finish b n)" "max_size (hev_ring_buffer_read_finish b n) = max_size b"
      "n \<le> length (unacked (hev_ring_buffer_read_finish b n))"
      using rg.tak_law [OF inv n] un n by auto
    show ?thesis using rg.rel_law [OF t(1,3)] rg.tak_rel [OF inv n un] t(2) by (simp add: reading_fetch inv)
  qed
qed

section \<open>Properties\<close>

text \<open>
  C28: The two byte buffers of the program are interchangeable: every sequence of stores and fetches
  gives the same bytes and the same refusals on the circular buffer of the task library and on the
  ring buffer of the sessions when that one is acknowledged at once, and both are those of a bounded
  list, through every wrap-around of the positions.
\<close>

theorem circular_equals_ring:
  assumes "circular_inv c" "ring_inv r" "unacked r = []" "readable r = held c" "max_size r = cb_max c"
  shows "circular_run c cs = acked_run r cs \<and> circular_run c cs = fifo_run (cb_max c) (held c) cs"
  using cb.run_fifo [OF assms(1)] rq.run_fifo [OF conjI [OF assms(2,3)]] assms
  by (simp add: circular_run_def acked_run_def circular_reading_fetch reading_fetch)

lemma circular_demo:
  "fifo_run (cb_max \<lparr>cb_rp = 0, cb_use = 0, cb_max = 3, cb_ref = 1, cb_data = [7, 7, 7]\<rparr>)
     (held \<lparr>cb_rp = 0, cb_use = 0, cb_max = 3, cb_ref = 1, cb_data = [7, 7, 7]\<rparr>) [Inl [1, 2], Inr 1, Inl [3, 4], Inr 3] =
   Some [1, 2, 3, 4]"
  by (simp add: held_def)

theorem circular_equals_ring_witness:
  "circular_run \<lparr>cb_rp = 0, cb_use = 0, cb_max = 3, cb_ref = 1, cb_data = [7, 7, 7]\<rparr> [Inl [1, 2], Inr 1, Inl [3, 4], Inr 3] =
     acked_run (hev_ring_buffer_alloca [0, 0, 0]) [Inl [1, 2], Inr 1, Inl [3, 4], Inr 3] \<and>
   circular_run \<lparr>cb_rp = 0, cb_use = 0, cb_max = 3, cb_ref = 1, cb_data = [7, 7, 7]\<rparr> [Inl [1, 2], Inr 1, Inl [3, 4], Inr 3] =
     Some [1, 2, 3, 4]"
proof -
  let ?c = "\<lparr>cb_rp = 0, cb_use = 0, cb_max = 3, cb_ref = 1, cb_data = [7, 7, 7]\<rparr>" and ?r = "hev_ring_buffer_alloca [0, 0, 0]"
  have "circular_inv ?c" "ring_inv ?r" "unacked ?r = []" "readable ?r = held ?c" "max_size ?r = cb_max ?c"
    using ring_inv_alloca [of "[0, 0, 0]"]
    by (simp_all add: circular_inv_def SIZE_MOD_def hev_ring_buffer_alloca_def unacked_def readable_def held_def)
  from circular_equals_ring [OF this] show ?thesis by (metis (no_types, lifting) circular_demo)
qed

end
