(* ===== verification/TaskSplice.thy ===== *)
theory TaskSplice
  imports CircularBuffer Socks5Base
begin

text \<open>
  The bidirectional relay of the task library
  (\<^verbatim>\<open>third-part/hev-task-system/src/lib/io/basic/hev-task-io.c\<close>, the variant without the
  \<^verbatim>\<open>splice\<close> system call) and its use by \<^verbatim>\<open>src/core/src/hev-socks5-tcp.c\<close>.  Whatever the two peers and
  the kernel do, the relay passes on the bytes of each direction unchanged and in order, and for a
  task with a timeout it comes to an end.
\<close>

section \<open>The relay\<close>

text \<open>The first half of \<^verbatim>\<open>task_io_splice\<close> fills the buffer, the second one empties it.\<close>

definition splice_read :: "circular \<Rightarrow> int \<Rightarrow> os \<Rightarrow> circular \<times> os \<times> int" where
  "splice_read buf fd_in os =
     (let iov = hev_circular_buffer_writing buf in
      if iov = [] then (buf, os, 1)
      else
        let (os1, s) = sys_recv fd_in (iov_len iov) os in
        case s of
          SysAgain \<Rightarrow> (buf, os1, 0)
        | SysErr \<Rightarrow> (buf, os1, - 1)
        | SysOk bs \<Rightarrow>
            if bs = [] then (buf, os1, - 1)
            else (hev_circular_buffer_write_finish (buf\<lparr>cb_data := iov_store (cb_data buf) iov bs\<rparr>) (length bs), os1, 1))"

definition task_io_splice :: "int \<Rightarrow> int \<Rightarrow> circular \<times> os \<Rightarrow> (circular \<times> os) \<times> int" where
  "task_io_splice fd_in fd_out st =
     (let (buf, os1, res) = splice_read (fst st) fd_in (snd st);
          iov = hev_circular_buffer_reading buf in
      if iov \<noteq> [] then
        let (os2, s) = sys_send fd_out (iov_fetch (cb_data buf) iov) os1 in
        case s of
          SysAgain \<Rightarrow> ((buf, os2), 0)
        | SysErr \<Rightarrow> ((buf, os2), - 1)
        | SysOk n \<Rightarrow> if n = 0 then ((buf, os2), - 1) else ((hev_circular_buffer_read_finish buf n, os2), 1)
      else ((buf, if res < 0 then sys_shutdown fd_out os1 else os1), res))"

definition splice_dir :: "int \<Rightarrow> int \<Rightarrow> int \<Rightarrow> circular \<times> os \<Rightarrow> (circular \<times> os) \<times> int" where
  "splice_dir res fd_in fd_out st = (if res \<ge> 0 then task_io_splice fd_in fd_out st else (st, res))"

partial_function (option) splice_loop ::
    "'s yielder \<Rightarrow> int \<Rightarrow> int \<Rightarrow> int \<Rightarrow> int \<Rightarrow> 's \<times> os \<Rightarrow> circular \<Rightarrow> circular \<Rightarrow> int \<Rightarrow> int \<Rightarrow>
     (('s \<times> os) \<times> circular \<times> circular) option" where
  "splice_loop yielder fd_a_i fd_a_o fd_b_i fd_b_o st f b res_f res_b =
     (let ((f1, os1), res_f1) = splice_dir res_f fd_a_i fd_b_o (f, snd st);
          ((b1, os2), res_b1) = splice_dir res_b fd_b_i fd_a_o (b, os1) in
      case yield_choice res_f1 res_b1 of
        None \<Rightarrow> Some ((fst st, os2), f1, b1)
      | Some ty \<Rightarrow> Option.bind (yielder ty (fst st, os2)) (\<lambda>(st3, y).
          if y \<noteq> 0 then Some (st3, f1, b1)
          else splice_loop yielder fd_a_i fd_a_o fd_b_i fd_b_o st3 f1 b1 res_f1 res_b1))"

declare splice_loop.simps [code]

text \<open>\<^verbatim>\<open>task_io_splicer_init\<close> and \<^verbatim>\<open>task_io_splicer_fini\<close>; the contents of the fresh memory are an input.\<close>

definition task_io_splicer_init :: "byte list \<Rightarrow> os \<Rightarrow> os \<times> circular option" where
  "task_io_splicer_init mem os = (let (os1, ok) = sys_malloc os in (os1, hev_circular_buffer_new ok mem))"

definition task_io_splicer_fini :: "circular \<Rightarrow> os \<Rightarrow> os" where
  "task_io_splicer_fini buf os = (if hev_circular_buffer_unref buf = None then sys_free os else os)"

definition hev_task_io_splice ::
    "'s yielder \<Rightarrow> int \<Rightarrow> int \<Rightarrow> int \<Rightarrow> int \<Rightarrow> byte list \<Rightarrow> byte list \<Rightarrow> 's \<times> os \<Rightarrow> ('s \<times> os) option" where
  "hev_task_io_splice yielder fd_a_i fd_a_o fd_b_i fd_b_o mem_f mem_b st =
     (let (os1, splicer_f) = task_io_splicer_init mem_f (snd st) in
      case splicer_f of
        None \<Rightarrow> Some (fst st, os1)
      | Some f \<Rightarrow>
          let (os2, splicer_b) = task_io_splicer_init mem_b os1 in
          (case splicer_b of
             None \<Rightarrow> Some (fst st, task_io_splicer_fini f os2)
           | Some b \<Rightarrow> do {
               (st3, f1, b1) \<leftarrow> splice_loop yielder fd_a_i fd_a_o fd_b_i fd_b_o (fst st, os2) f b 1 1;
               Some (fst st3, task_io_splicer_fini f1 (task_io_splicer_fini b1 (snd st3)))
             }))"

text \<open>Registering the descriptor with the poller changes nothing of the kernel's record.\<close>

definition hev_socks5_tcp_splicer ::
    "byte list \<Rightarrow> byte list \<Rightarrow> int \<Rightarrow> 'a socks5_scheme \<times> os \<Rightarrow> (('a socks5_scheme \<times> os) \<times> int) option" where
  "hev_socks5_tcp_splicer mem_f mem_b fd st =
     (let cfd = s5_fd (fst st) in
      if cfd < 0 then Some (st, - 1)
      else do {
        st1 \<leftarrow> hev_task_io_splice hev_socks5_task_io_yielder cfd cfd fd fd mem_f mem_b st;
        Some (st1, 0)
      })"

section \<open>One direction\<close>

text \<open>
  The bytes of one direction, wherever they are: sent, held in the buffer, or still to come.  A step
  moves them along and changes nothing of the other direction.
\<close>

definition in_flight :: "int \<Rightarrow> int \<Rightarrow> circular \<Rightarrow> os \<Rightarrow> byte list" where
  "in_flight fd_in fd_out b a = os_out a fd_out @ held b @ rx_bytes (os_rx a fd_in)"

lemma splice_read_cases:
  assumes "splice_read b fd a = (b1, a1, r)" "circular_inv b"
  obtains (full) "cb_use b = cb_max b" "b1 = b" "a1 = a" "r = 1"
  | (none) q where "sys_recv fd (cb_max b - cb_use b) a = (a1, q)" "q = SysAgain \<or> q = SysErr \<or> q = SysOk []"
      "b1 = b" "r = (if q = SysAgain then 0 else - 1)"
  | (data) bs where "sys_recv fd (cb_max b - cb_use b) a = (a1, SysOk bs)" "bs \<noteq> []" "b1 = circular_put b bs" "r = 1"
proof -
  obtain a2 q where q: "sys_recv fd (cb_max b - cb_use b) a = (a2, q)" by fastforce
  show thesis
  proof (cases "cb_use b = cb_max b")
    case True
    then have "hev_circular_buffer_writing b = []" using circular_empty(2) [OF assms(2)] by simp
    then show thesis using full True assms(1) by (simp add: splice_read_def)
  next
    case False
    then have "hev_circular_buffer_writing b \<noteq> []" using circular_empty(2) [OF assms(2)] by simp
    then show thesis using none data q assms(1) circular_writing_len [OF assms(2)]
      by (cases q) (auto simp: splice_read_def circular_put_def Let_def split: if_splits)
  qed
qed

lemma sys_recv_other: "sys_recv fd n a = (b, r) \<Longrightarrow> f \<noteq> fd \<Longrightarrow> os_rx b f = os_rx a f"
  by (auto simp: sys_recv_def split: list.splits rx_ev.splits if_splits)

lemma splice_put:
  assumes "sys_recv fd (cb_max b - cb_use b) a = (a1, SysOk bs)" "circular_inv b"
  shows "circular_inv (circular_put b bs)" "held (circular_put b bs) = held b @ bs" "cb_max (circular_put b bs) = cb_max b"
proof -
  have "cb_use b + length bs \<le> cb_max b" using sys_recv_ok(1) [OF assms(1)] assms(2) unfolding circular_inv_def by linarith
  from circular_put_refines [OF assms(2) this]
  show "circular_inv (circular_put b bs)" "held (circular_put b bs) = held b @ bs" "cb_max (circular_put b bs) = cb_max b" .
qed

lemma circular_keeps_ref [simp]:
  "cb_ref (circular_put b bs) = cb_ref b" "cb_ref (hev_circular_buffer_read_finish b n) = cb_ref b"
  by (simp_all add: circular_put_def hev_circular_buffer_write_finish_def hev_circular_buffer_read_finish_def)

lemma splice_read_moves:
  assumes "splice_read b fd a = (b1, a1, r)" "circular_inv b"
  shows "circular_inv b1 \<and> cb_max b1 = cb_max b \<and> cb_ref b1 = cb_ref b"
    "\<exists>bs. held b1 = held b @ bs \<and> rx_bytes (os_rx a fd) = bs @ rx_bytes (os_rx a1 fd)"
    "os_out a1 = os_out a \<and> os_waits a1 = os_waits a \<and> io_only a a1 \<and> (\<forall>f. f \<noteq> fd \<longrightarrow> os_rx a1 f = os_rx a f)"
    "r \<in> {- 1, 0, 1} \<and> (r = 1 \<longrightarrow> held b1 \<noteq> [])"
proof -
  have "(circular_inv b1 \<and> cb_max b1 = cb_max b \<and> cb_ref b1 = cb_ref b) \<and>
    (\<exists>bs. held b1 = held b @ bs \<and> rx_bytes (os_rx a fd) = bs @ rx_bytes (os_rx a1 fd)) \<and>
    (os_out a1 = os_out a \<and> os_waits a1 = os_waits a \<and> io_only a a1 \<and> (\<forall>f. f \<noteq> fd \<longrightarrow> os_rx a1 f = os_rx a f)) \<and>
    (r \<in> {- 1, 0, 1} \<and> (r = 1 \<longrightarrow> held b1 \<noteq> []))"
    using assms
  proof (cases rule: splice_read_cases)
    case full
    then have "length (held b) \<noteq> length ([] :: byte list)" using assms(2) by (simp add: circular_inv_def)
    then have "held b \<noteq> []" by metis
    then show ?thesis using full assms(2) by auto
  next
    case (none q)
    then show ?thesis using sys_recv_io [OF none(1)] sys_recv_bytes [OF none(1)] sys_recv_other [OF none(1)] assms(2) by auto
  next
    case (data bs)
    then show ?thesis
      using sys_recv_io [OF data(1)] sys_recv_bytes [OF data(1)] sys_recv_other [OF data(1)] splice_put [OF data(1) assms(2)] by auto
  qed
  then show "circular_inv b1 \<and> cb_max b1 = cb_max b \<and> cb_ref b1 = cb_ref b"
    "\<exists>bs. held b1 = held b @ bs \<and> rx_bytes (os_rx a fd) = bs @ rx_bytes (os_rx a1 fd)"
    "os_out a1 = os_out a \<and> os_waits a1 = os_waits a \<and> io_only a a1 \<and> (\<forall>f. f \<noteq> fd \<longrightarrow> os_rx a1 f = os_rx a f)"
    "r \<in> {- 1, 0, 1} \<and> (r = 1 \<longrightarrow> held b1 \<noteq> [])"
    by blast+
qed

lemma task_io_splice_cases:
  assumes "task_io_splice fd_in fd_out (b, a) = ((b1, a1), r)" "splice_read b fd_in a = (b0, a0, r0)" "circular_inv b0"
  obtains (empty) "held b0 = []" "b1 = b0" "a1 = a0 \<or> a1 = sys_shutdown fd_out a0" "r = r0"
  | (stuck) q where "sys_send fd_out (held b0) a0 = (a1, q)" "q = SysAgain \<or> q = SysErr \<or> q = SysOk 0" "b1 = b0"
      "r = (if q = SysAgain then 0 else - 1)"
  | (some) n where "sys_send fd_out (held b0) a0 = (a1, SysOk n)" "n \<noteq> 0" "b1 = hev_circular_buffer_read_finish b0 n" "r = 1"
proof -
  obtain a2 q where q: "sys_send fd_out (held b0) a0 = (a2, q)" by fastforce
  show thesis
  proof (cases "held b0 = []")
    case True
    then show thesis using empty assms circular_empty(1) [OF assms(3)]
      by (auto simp: task_io_splice_def Let_def split: if_splits)
  next
    case False
    then show thesis using stuck some q assms circular_empty(1) [OF assms(3)] circular_reading_fetch [OF assms(3)]
      by (cases q) (auto simp: task_io_splice_def Let_def split: if_splits)
  qed
qed

lemma sys_shutdown_io [simp]:
  "io_only a (sys_shutdown fd a)" "os_out (sys_shutdown fd a) = os_out a" "os_rx (sys_shutdown fd a) = os_rx a"
  "os_waits (sys_shutdown fd a) = os_waits a"
  by (simp_all add: sys_shutdown_def io_only_def)

text \<open>What a step keeps; a step that reports progress has moved a byte.\<close>

definition splice_work :: "int \<Rightarrow> circular \<Rightarrow> os \<Rightarrow> nat" where
  "splice_work fd_in b a = 2 * length (rx_bytes (os_rx a fd_in)) + cb_use b"

definition splice_keeps :: "int \<Rightarrow> int \<Rightarrow> circular \<Rightarrow> os \<Rightarrow> circular \<Rightarrow> os \<Rightarrow> bool" where
  "splice_keeps fd_in fd_out b a b1 a1 \<longleftrightarrow>
     circular_inv b1 \<and> cb_ref b1 = cb_ref b \<and> in_flight fd_in fd_out b1 a1 = in_flight fd_in fd_out b a \<and>
     (\<forall>f. f \<noteq> fd_in \<longrightarrow> os_rx a1 f = os_rx a f) \<and> (\<forall>f. f \<noteq> fd_out \<longrightarrow> os_out a1 f = os_out a f) \<and>
     os_waits a1 = os_waits a \<and> io_only a a1 \<and> splice_work fd_in b1 a1 \<le> splice_work fd_in b a"

lemma task_io_splice_keeps:
  assumes "task_io_splice fd_in fd_out (b, a) = ((b1, a1), r)" "circular_inv b"
  shows "splice_keeps fd_in fd_out b a b1 a1 \<and> r \<in> {- 1, 0, 1} \<and>
    (r = 1 \<longrightarrow> splice_work fd_in b1 a1 < splice_work fd_in b a)"
proof -
  obtain b0 a0 r0 where 0: "splice_read b fd_in a = (b0, a0, r0)" by (metis prod.exhaust)
  note m = splice_read_moves [OF 0 assms(2)]
  obtain bs where bs: "held b0 = held b @ bs" "rx_bytes (os_rx a fd_in) = bs @ rx_bytes (os_rx a0 fd_in)" using m(2) by blast
  have use: "cb_use b0 = cb_use b + length bs" using arg_cong [OF bs(1), of length] by simp
  have inv: "circular_inv b0" using m(1) by blast
  have step: ?thesis if "circular_inv b1" "cb_ref b1 = cb_ref b0" "os_rx a1 = os_rx a0" "os_waits a1 = os_waits a0" "io_only a0 a1"
    and hb: "held b0 = ns @ held b1" and out: "os_out a1 = (os_out a0)(fd_out := os_out a0 fd_out @ ns)"
    and r: "r \<in> {- 1, 0, 1}" "r = 1 \<longrightarrow> ns \<noteq> []" for ns
  proof -
    have len: "cb_use b0 = length ns + cb_use b1" using arg_cong [OF hb, of length] by simp
    have "in_flight fd_in fd_out b1 a1 = in_flight fd_in fd_out b a"
      using m(3) that(3) bs hb out by (simp add: in_flight_def)
    moreover have "splice_work fd_in b1 a1 + length ns \<le> splice_work fd_in b a"
      using that(3) use len bs(2) by (simp add: splice_work_def)
    moreover have "io_only a a1" using m(3) that(5) io_only_trans by blast
    ultimately show ?thesis using that(1-4) m(1,3) r out by (simp add: splice_keeps_def) (cases ns; simp)
  qed
  from assms(1) 0 inv show ?thesis
  proof (cases rule: task_io_splice_cases)
    case empty
    then show ?thesis using m(4) inv by (intro step [of "[]"]) auto
  next
    case (stuck q)
    then show ?thesis using inv sys_send_io [OF stuck(1)] sys_send_out [OF stuck(1)] by (intro step [of "[]"]) auto
  next
    case (some n)
    have n: "n \<le> cb_use b0" using sys_send_ok(1) [OF some(1)] by simp
    have "take n (held b0) \<noteq> []" using n some(2) length_held [of b0] by (cases "held b0") auto
    then show ?thesis using circular_read_finish_refines [OF inv n] some sys_send_io [OF some(1)] sys_send_out [OF some(1)]
      by (intro step [of "take n (held b0)"]) auto
  qed
qed

text \<open>The end of a stream is passed on only when nothing of it is left in the buffer, and ends the direction.\<close>

lemma sys_io_shut:
  "sys_recv fd n a = (b, r) \<Longrightarrow> os_shut b = os_shut a"
  "sys_send fd bs a = (b, q) \<Longrightarrow> os_shut b = os_shut a"
  by (auto simp: sys_recv_def sys_send_def Let_def split: list.splits rx_ev.splits tx_ev.splits if_splits)

lemma splice_read_shut: "splice_read b fd a = (b1, a1, r) \<Longrightarrow> os_shut a1 = os_shut a"
  by (auto simp: splice_read_def Let_def dest: sys_io_shut split: if_splits prod.splits sysres.splits)

lemma task_io_splice_shut:
  assumes "task_io_splice fd_in fd_out (b, a) = ((b1, a1), r)" "circular_inv b"
  shows "os_shut a1 = os_shut a \<or> os_shut a1 = os_shut a @ [fd_out] \<and> held b1 = [] \<and> r < 0"
proof -
  obtain b0 a0 r0 where 0: "splice_read b fd_in a = (b0, a0, r0)" by (metis prod.exhaust)
  have inv: "circular_inv b0" using splice_read_moves(1) [OF 0 assms(2)] by blast
  from assms(1) 0 inv show ?thesis
  proof (cases rule: task_io_splice_cases)
    case empty
    have "a1 = (if r0 < 0 then sys_shutdown fd_out a0 else a0)"
      using assms(1) 0 empty(1) circular_empty(1) [OF inv] by (auto simp: task_io_splice_def)
    then show ?thesis using empty splice_read_shut [OF 0] by (auto simp: sys_shutdown_def)
  qed (use splice_read_shut [OF 0] in \<open>auto dest: sys_io_shut(2)\<close>)
qed

section \<open>Both directions\<close>

text \<open>
  The invariant of the loop for the state it started from: the bytes of both directions are
  accounted for, and a direction whose end was passed on holds none.
\<close>

definition relay_inv :: "int \<Rightarrow> int \<Rightarrow> int \<Rightarrow> int \<Rightarrow> os \<Rightarrow> byte list \<Rightarrow> byte list \<Rightarrow> circular \<Rightarrow> circular \<Rightarrow> int \<Rightarrow> int \<Rightarrow> os \<Rightarrow> bool" where
  "relay_inv ai ao bi bo a0 xf xb f b rf rb a \<longleftrightarrow>
     circular_inv f \<and> circular_inv b \<and> cb_ref f = 1 \<and> cb_ref b = 1 \<and>
     in_flight ai bo f a = xf \<and> in_flight bi ao b a = xb \<and> io_only a0 a \<and> rf \<in> {- 1, 0, 1} \<and> rb \<in> {- 1, 0, 1} \<and>
     (bo \<in> set (os_shut a) \<longrightarrow> held f = [] \<and> rf < 0) \<and> (ao \<in> set (os_shut a) \<longrightarrow> held b = [] \<and> rb < 0)"

definition relay_work :: "int \<Rightarrow> int \<Rightarrow> circular \<Rightarrow> circular \<Rightarrow> os \<Rightarrow> nat" where
  "relay_work ai bi f b a = splice_work ai f a + splice_work bi b a + length (os_waits a)"

lemma splice_dir_f:
  assumes "splice_dir rf ai bo (f, a) = ((f1, a1), rf1)" "relay_inv ai ao bi bo a0 xf xb f b rf rb a" "ai \<noteq> bi" "ao \<noteq> bo"
  shows "relay_inv ai ao bi bo a0 xf xb f1 b rf1 rb a1" "os_waits a1 = os_waits a"
    "relay_work ai bi f1 b a1 \<le> relay_work ai bi f b a"
    "rf1 = 1 \<longrightarrow> relay_work ai bi f1 b a1 < relay_work ai bi f b a"
proof -
  have "relay_inv ai ao bi bo a0 xf xb f1 b rf1 rb a1 \<and> os_waits a1 = os_waits a \<and>
    relay_work ai bi f1 b a1 \<le> relay_work ai bi f b a \<and>
    (rf1 = 1 \<longrightarrow> relay_work ai bi f1 b a1 < relay_work ai bi f b a)"
  proof (cases "rf \<ge> 0")
    case True
    then have t: "task_io_splice ai bo (f, a) = ((f1, a1), rf1)" using assms(1) by (simp add: splice_dir_def)
    have inv: "circular_inv f" using assms(2) by (simp add: relay_inv_def)
    have k: "splice_keeps ai bo f a f1 a1" "rf1 \<in> {- 1, 0, 1}" "rf1 = 1 \<longrightarrow> splice_work ai f1 a1 < splice_work ai f a"
      using task_io_splice_keeps [OF t inv] by blast+
    have other: "in_flight bi ao b a1 = in_flight bi ao b a" "splice_work bi b a1 = splice_work bi b a"
      using k(1) assms(3,4) by (simp_all add: splice_keeps_def in_flight_def splice_work_def)
    have sh: "bo \<notin> set (os_shut a)" using assms(2) True by (auto simp: relay_inv_def)
    have "bo \<in> set (os_shut a1) \<longrightarrow> held f1 = [] \<and> rf1 < 0" "ao \<in> set (os_shut a1) \<longleftrightarrow> ao \<in> set (os_shut a)"
      using sh task_io_splice_shut [OF t inv] assms(4) by auto
    moreover have "io_only a0 a1" using assms(2) k(1) io_only_trans [of a0 a a1] by (simp add: relay_inv_def splice_keeps_def)
    ultimately have "relay_inv ai ao bi bo a0 xf xb f1 b rf1 rb a1"
      using assms(2) k(1,2) other(1) by (simp add: relay_inv_def splice_keeps_def)
    then show ?thesis using k other(2) by (simp add: relay_work_def splice_keeps_def)
  next
    case False
    then show ?thesis using assms(1,2) by (auto simp: splice_dir_def relay_inv_def)
  qed
  then show "relay_inv ai ao bi bo a0 xf xb f1 b rf1 rb a1" "os_waits a1 = os_waits a"
    "relay_work ai bi f1 b a1 \<le> relay_work ai bi f b a"
    "rf1 = 1 \<longrightarrow> relay_work ai bi f1 b a1 < relay_work ai bi f b a" by blast+
qed

lemma relay_inv_swap: "relay_inv bi bo ai ao a0 xb xf b f rb rf a = relay_inv ai ao bi bo a0 xf xb f b rf rb a"
  by (auto simp: relay_inv_def)

lemma relay_work_swap: "relay_work bi ai b f a = relay_work ai bi f b a"
  by (simp add: relay_work_def)

lemma splice_dir_b:
  assumes "splice_dir rb bi ao (b, a) = ((b1, a1), rb1)" "relay_inv ai ao bi bo a0 xf xb f b rf rb a" "ai \<noteq> bi" "ao \<noteq> bo"
  shows "relay_inv ai ao bi bo a0 xf xb f b1 rf rb1 a1" "os_waits a1 = os_waits a"
    "relay_work ai bi f b1 a1 \<le> relay_work ai bi f b a"
    "rb1 = 1 \<longrightarrow> relay_work ai bi f b1 a1 < relay_work ai bi f b a"
proof -
  note f = splice_dir_f [OF assms(1) iffD2 [OF relay_inv_swap assms(2)] assms(3,4) [symmetric]]
  show "relay_inv ai ao bi bo a0 xf xb f b1 rf rb1 a1" by (rule iffD1 [OF relay_inv_swap f(1)])
  show "os_waits a1 = os_waits a" "relay_work ai bi f b1 a1 \<le> relay_work ai bi f b a"
    "rb1 = 1 \<longrightarrow> relay_work ai bi f b1 a1 < relay_work ai bi f b a"
    using f(2-4) unfolding relay_work_swap [of bi ai b1 f a1] relay_work_swap [of bi ai b f a] by blast+
qed

text \<open>The two buffers at the start and at the end.\<close>

definition buf_ok :: "byte list \<Rightarrow> bool" where
  "buf_ok mem \<longleftrightarrow> mem \<noteq> [] \<and> 2 * length mem < SIZE_MOD"

definition only_mem :: "os \<Rightarrow> os \<Rightarrow> bool" where
  "only_mem a b \<longleftrightarrow> os_conn b = os_conn a \<and> os_open b = os_open a \<and> os_opts b = os_opts a \<and> os_peer b = os_peer a"

lemma splicer_init:
  assumes "task_io_splicer_init mem a = (a1, c)"
  shows "only_mem a a1" "os_rx a1 = os_rx a" "os_out a1 = os_out a" "os_shut a1 = os_shut a" "os_waits a1 = os_waits a"
    "os_live a1 = os_live a + (if c = None then 0 else 1)"
    "c = Some b \<Longrightarrow> buf_ok mem \<Longrightarrow> circular_inv b \<and> held b = [] \<and> cb_ref b = 1"
  using assms circular_inv_new [of mem b]
  by (auto simp: task_io_splicer_init_def sys_malloc_def sys_call_def only_mem_def hev_circular_buffer_new_def buf_ok_def Let_def
      split: list.splits if_splits)

lemma splicer_fini:
  "cb_ref b = 1 \<Longrightarrow> task_io_splicer_fini b a = a\<lparr>os_live := os_live a - 1\<rparr>"
  by (simp add: task_io_splicer_fini_def hev_circular_buffer_unref_def sys_free_def)

lemma relay_inv_start:
  assumes "circular_inv f" "held f = []" "cb_ref f = 1" "circular_inv b" "held b = []" "cb_ref b = 1"
    "ao \<notin> set (os_shut a)" "bo \<notin> set (os_shut a)"
  shows "relay_inv ai ao bi bo a (os_out a bo @ rx_bytes (os_rx a ai)) (os_out a ao @ rx_bytes (os_rx a bi)) f b 1 1 a"
  using assms by (simp add: relay_inv_def in_flight_def)

text \<open>
  What a whole relay does to one direction: some bytes may stay in the buffer, none once the end of
  the stream was passed on.
\<close>

definition relayed :: "int \<Rightarrow> int \<Rightarrow> os \<Rightarrow> os \<Rightarrow> bool" where
  "relayed fd_in fd_out a a' \<longleftrightarrow>
     (\<exists>lost. os_out a' fd_out @ lost @ rx_bytes (os_rx a' fd_in) = os_out a fd_out @ rx_bytes (os_rx a fd_in) \<and>
       (fd_out \<in> set (os_shut a') \<longrightarrow> lost = []))"

lemma relayed_idle: "os_rx a' = os_rx a \<Longrightarrow> os_out a' = os_out a \<Longrightarrow> relayed i j a a'"
  by (auto simp: relayed_def)

lemma relay_inv_end:
  assumes "relay_inv ai ao bi bo a2 (os_out a bo @ rx_bytes (os_rx a ai)) (os_out a ao @ rx_bytes (os_rx a bi)) f b rf rb a'"
  shows "relayed ai bo a a'" "relayed bi ao a a'"
  using assms unfolding relay_inv_def relayed_def in_flight_def by blast+

section \<open>The loop\<close>

text \<open>
  The contract of the relay's yielder: it touches no stream, uses up waits only, and for a task with
  a deadline (\<^verbatim>\<open>timed\<close>) comes back, having used up a wait when it was asked to wait.
\<close>

locale relay_yielder =
  fixes yld :: "'s yielder" and timed :: "'s \<Rightarrow> bool"
  assumes relay_frame: "yld ty (s, a) = Some ((s', a'), y) \<Longrightarrow> \<exists>n. a' = a\<lparr>os_waits := drop n (os_waits a)\<rparr>"
    and relay_comes_back: "timed s \<Longrightarrow> \<exists>s' a' y. yld ty (s, a) = Some ((s', a'), y) \<and> timed s' \<and>
      (ty = HEV_TASK_WAITIO \<and> y = 0 \<longrightarrow> length (os_waits a') < length (os_waits a))"
begin

lemma relay_inv_yield:
  assumes "yld ty (s, a) = Some ((s', a'), y)"
  shows "relay_inv ai ao bi bo a0 xf xb f b rf rb a' = relay_inv ai ao bi bo a0 xf xb f b rf rb a"
    "relay_work ai bi f b a' \<le> relay_work ai bi f b a"
    "length (os_waits a') < length (os_waits a) \<Longrightarrow> relay_work ai bi f b a' < relay_work ai bi f b a"
proof -
  obtain n where a': "a' = a\<lparr>os_waits := drop n (os_waits a)\<rparr>" using relay_frame [OF assms] by blast
  have "in_flight i out c a' = in_flight i out c a" "io_only a0 a' = io_only a0 a" "os_shut a' = os_shut a" for i out c
    by (simp_all add: a' in_flight_def io_only_def)
  then show "relay_inv ai ao bi bo a0 xf xb f b rf rb a' = relay_inv ai ao bi bo a0 xf xb f b rf rb a"
    unfolding relay_inv_def by (simp only:)
  have work: "splice_work i c a' = splice_work i c a" for i c by (simp add: a' splice_work_def)
  show "relay_work ai bi f b a' \<le> relay_work ai bi f b a" unfolding relay_work_def work by (simp add: a')
  show "relay_work ai bi f b a' < relay_work ai bi f b a" if "length (os_waits a') < length (os_waits a)"
    unfolding relay_work_def work using that by simp
qed

lemma splice_loop_sound:
  assumes "ai \<noteq> bi" "ao \<noteq> bo"
  shows "splice_loop yl ai' ao' bi' bo' st f b rf rb = Some res \<Longrightarrow>
    yl = yld \<and> ai' = ai \<and> ao' = ao \<and> bi' = bi \<and> bo' = bo \<longrightarrow> relay_inv ai ao bi bo a0 xf xb f b rf rb (snd st) \<longrightarrow>
    (\<exists>rf' rb'. relay_inv ai ao bi bo a0 xf xb (fst (snd res)) (snd (snd res)) rf' rb' (snd (fst res)))"
  apply (erule splice_loop.raw_induct [where P = "\<lambda>yl ai' ao' bi' bo' st f b rf rb res.
    yl = yld \<and> ai' = ai \<and> ao' = ao \<and> bi' = bi \<and> bo' = bo \<longrightarrow> relay_inv ai ao bi bo a0 xf xb f b rf rb (snd st) \<longrightarrow>
    (\<exists>rf' rb'. relay_inv ai ao bi bo a0 xf xb (fst (snd res)) (snd (snd res)) rf' rb' (snd (fst res)))", rotated])
  subgoal premises prems for loop yl ai' ao' bi' bo' st f b rf rb res
  proof (intro impI, elim conjE)
    assume eq: "yl = yld" "ai' = ai" "ao' = ao" "bi' = bi" "bo' = bo" and inv: "relay_inv ai ao bi bo a0 xf xb f b rf rb (snd st)"
    obtain s a where st: "st = (s, a)" by fastforce
    obtain f1 a1 rf1 where 1: "splice_dir rf ai bo (f, a) = ((f1, a1), rf1)" by (metis prod.exhaust)
    obtain b1 a2 rb1 where 2: "splice_dir rb bi ao (b, a1) = ((b1, a2), rb1)" by (metis prod.exhaust)
    have i2: "relay_inv ai ao bi bo a0 xf xb f1 b1 rf1 rb1 a2"
      using splice_dir_b(1) [OF 2 splice_dir_f(1) [OF 1 _ assms] assms] inv by (simp add: st)
    show "\<exists>rf' rb'. relay_inv ai ao bi bo a0 xf xb (fst (snd res)) (snd (snd res)) rf' rb' (snd (fst res))"
    proof (cases "yield_choice rf1 rb1")
      case None
      then have "res = ((s, a2), f1, b1)" using prems(2) 1 2 by (auto simp: eq st)
      then show ?thesis using i2 by (intro exI) simp
    next
      case (Some ty)
      then obtain s3 a3 y where y: "yld ty (s, a2) = Some ((s3, a3), y)"
        and r: "(if y \<noteq> 0 then Some ((s3, a3), f1, b1) else loop yld ai ao bi bo (s3, a3) f1 b1 rf1 rb1) = Some res"
        using prems(2) [unfolded eq] 1 2 by (auto simp: st bind_eq_Some_conv)
      have i3: "relay_inv ai ao bi bo a0 xf xb f1 b1 rf1 rb1 a3" using i2 relay_inv_yield(1) [OF y] by blast
      show ?thesis
      proof (cases "y = 0")
        case True
        then show ?thesis using r i3 prems(1) [of yld ai ao bi bo "(s3, a3)" f1 b1 rf1 rb1 res] by simp
      next
        case False
        then show ?thesis using r i3 by (intro exI) auto
      qed
    qed
  qed
  done

lemma splice_loop_returns:
  assumes "timed s" "relay_inv ai ao bi bo a0 xf xb f b rf rb a" "ai \<noteq> bi" "ao \<noteq> bo"
  shows "\<exists>s' a' f' b'. splice_loop yld ai ao bi bo (s, a) f b rf rb = Some ((s', a'), f', b') \<and> timed s'"
  using assms(1,2)
proof (induction "relay_work ai bi f b a" arbitrary: s a f b rf rb rule: less_induct)
  case less
  obtain f1 a1 rf1 where 1: "splice_dir rf ai bo (f, a) = ((f1, a1), rf1)" by (metis prod.exhaust)
  obtain b1 a2 rb1 where 2: "splice_dir rb bi ao (b, a1) = ((b1, a2), rb1)" by (metis prod.exhaust)
  note d1 = splice_dir_f [OF 1 less.prems(2) assms(3,4)]
  note d2 = splice_dir_b [OF 2 d1(1) assms(3,4)]
  show ?case
  proof (cases "yield_choice rf1 rb1")
    case None
    then have "splice_loop yld ai ao bi bo (s, a) f b rf rb = Some ((s, a2), f1, b1)"
      by (subst splice_loop.simps) (simp add: 1 2)
    then show ?thesis using less.prems(1) by simp
  next
    case (Some ty)
    obtain s3 a3 y where y: "yld ty (s, a2) = Some ((s3, a3), y)" "timed s3"
      and w: "ty = HEV_TASK_WAITIO \<and> y = 0 \<longrightarrow> length (os_waits a3) < length (os_waits a2)"
      using relay_comes_back [OF less.prems(1), of ty a2] by blast
    have i3: "relay_inv ai ao bi bo a0 xf xb f1 b1 rf1 rb1 a3" using d2(1) relay_inv_yield(1) [OF y(1)] by blast
    have "rf1 \<in> {- 1, 0, 1}" "rb1 \<in> {- 1, 0, 1}" using d2(1) unfolding relay_inv_def by blast+
    then consider "rf1 = 1" | "rb1 = 1" | "ty = HEV_TASK_WAITIO"
      using Some by (fastforce simp: yield_choice_def split: if_splits)
    then have work: "relay_work ai bi f1 b1 a3 < relay_work ai bi f b a" if "y = 0"
    proof cases
      case 1
      then show ?thesis using d1(4) d2(3) relay_inv_yield(2) [OF y(1), of ai bi f1 b1] by linarith
    next
      case 2
      then show ?thesis using d1(3) d2(4) relay_inv_yield(2) [OF y(1), of ai bi f1 b1] by linarith
    next
      case 3
      then show ?thesis using that w d1(3) d2(3) relay_inv_yield(3) [OF y(1), of ai bi f1 b1] by linarith
    qed
    have unf: "splice_loop yld ai ao bi bo (s, a) f b rf rb =
        (if y \<noteq> 0 then Some ((s3, a3), f1, b1) else splice_loop yld ai ao bi bo (s3, a3) f1 b1 rf1 rb1)"
      by (subst splice_loop.simps) (simp add: 1 2 Some y(1))
    show ?thesis
    proof (cases "y = 0")
      case True
      then show ?thesis using less.hyps [OF work y(2) i3] unf by simp
    qed (use unf y(2) in simp)
  qed
qed

lemma splice_sound:
  assumes "hev_task_io_splice yld ai ao bi bo mem_f mem_b (s, a) = Some (s', a')" "buf_ok mem_f" "buf_ok mem_b"
    and "ai \<noteq> bi" "ao \<noteq> bo" "ao \<notin> set (os_shut a)" "bo \<notin> set (os_shut a)"
  shows "relayed ai bo a a' \<and> relayed bi ao a a' \<and> only_mem a a' \<and> os_live a' = os_live a"
proof -
  obtain a1 c where 1: "task_io_splicer_init mem_f a = (a1, c)" by fastforce
  obtain a2 d where 2: "task_io_splicer_init mem_b a1 = (a2, d)" by fastforce
  note i1 = splicer_init [OF 1] and i2 = splicer_init [OF 2]
  show ?thesis
  proof (cases c)
    case None
    then have "a' = a1" using assms(1) 1 by (simp add: hev_task_io_splice_def)
    then show ?thesis using i1(1-6) None by (simp add: relayed_idle)
  next
    case c: (Some f)
    have f: "circular_inv f" "held f = []" "cb_ref f = 1" using i1(7) [OF c assms(2)] by auto
    show ?thesis
    proof (cases d)
      case None
      then have "a' = a2\<lparr>os_live := os_live a2 - 1\<rparr>"
        using assms(1) 1 2 c f(3) by (simp add: hev_task_io_splice_def splicer_fini)
      then show ?thesis using i1(1-6) i2(1-6) None c by (simp add: relayed_idle only_mem_def)
    next
      case d: (Some b)
      have b: "circular_inv b" "held b = []" "cb_ref b = 1" using i2(7) [OF d assms(3)] by auto
      obtain s3 a3 f1 b1 where r: "splice_loop yld ai ao bi bo (s, a2) f b 1 1 = Some ((s3, a3), f1, b1)"
        and a': "a' = task_io_splicer_fini f1 (task_io_splicer_fini b1 a3)"
        using assms(1) 1 2 c d by (auto simp: hev_task_io_splice_def bind_eq_Some_conv)
      have inv: "relay_inv ai ao bi bo a2 (os_out a bo @ rx_bytes (os_rx a ai)) (os_out a ao @ rx_bytes (os_rx a bi)) f b 1 1 a2"
        using relay_inv_start [OF f b, of ao a2 bo ai bi] i1(2-4) i2(2-4) assms(6,7) by simp
      obtain rf rb where e: "relay_inv ai ao bi bo a2 (os_out a bo @ rx_bytes (os_rx a ai)) (os_out a ao @ rx_bytes (os_rx a bi)) f1 b1 rf rb a3"
        using splice_loop_sound [OF assms(4,5) r, rule_format, of a2] inv by fastforce
      have io: "io_only a2 a3" "cb_ref f1 = 1" "cb_ref b1 = 1" using e by (simp_all add: relay_inv_def)
      have "a' = a3\<lparr>os_live := os_live a3 - 1 - 1\<rparr>" using a' io(2,3) by (simp add: splicer_fini)
      then show ?thesis using relay_inv_end [OF e] i1(1,6) i2(1,6) io(1) c d by (simp add: relayed_def only_mem_def io_only_def)
    qed
  qed
qed

lemma splice_returns:
  assumes "timed s" "buf_ok mem_f" "buf_ok mem_b" "ai \<noteq> bi" "ao \<noteq> bo" "ao \<notin> set (os_shut a)" "bo \<notin> set (os_shut a)"
  shows "\<exists>s' a'. hev_task_io_splice yld ai ao bi bo mem_f mem_b (s, a) = Some (s', a') \<and> timed s'"
proof -
  obtain a1 c where 1: "task_io_splicer_init mem_f a = (a1, c)" by fastforce
  obtain a2 d where 2: "task_io_splicer_init mem_b a1 = (a2, d)" by fastforce
  note i1 = splicer_init [OF 1] and i2 = splicer_init [OF 2]
  show ?thesis
  proof (cases "c = None \<or> d = None")
    case True
    then show ?thesis using 1 2 assms(1) by (auto simp: hev_task_io_splice_def split: option.splits)
  next
    case False
    then obtain f b where cd: "c = Some f" "d = Some b" by auto
    have "relay_inv ai ao bi bo a2 (os_out a2 bo @ rx_bytes (os_rx a2 ai)) (os_out a2 ao @ rx_bytes (os_rx a2 bi)) f b 1 1 a2"
      using relay_inv_start [of f b ao a2 bo ai bi] i1(7) [OF cd(1) assms(2)] i2(7) [OF cd(2) assms(3)] i1(4) i2(4) assms(6,7) by simp
    from splice_loop_returns [OF assms(1) this assms(4,5)]
    show ?thesis using 1 2 cd by (auto simp: hev_task_io_splice_def)
  qed
qed

end

interpretation ry: relay_yielder hev_socks5_task_io_yielder "\<lambda>s. 0 \<le> s5_timeout s"
proof
  fix s s' :: "'a socks5_scheme" and a a' y ty
  show "\<exists>n. a' = a\<lparr>os_waits := drop n (os_waits a)\<rparr>" if y: "hev_socks5_task_io_yielder ty (s, a) = Some ((s', a'), y)"
  proof -
    have "a' = a\<lparr>os_waits := drop 0 (os_waits a)\<rparr> \<or> a' = a\<lparr>os_waits := drop 1 (os_waits a)\<rparr>"
      using y by (cases "os_waits a") (auto simp: hev_socks5_task_io_yielder_def Let_def split: if_splits)
    then show ?thesis by blast
  qed
  show "\<exists>s' a' y. hev_socks5_task_io_yielder ty (s, a) = Some ((s', a'), y) \<and> 0 \<le> s5_timeout s' \<and>
      (ty = HEV_TASK_WAITIO \<and> y = 0 \<longrightarrow> length (os_waits a') < length (os_waits a))" if "0 \<le> s5_timeout s"
    using that by (cases "os_waits a")
      (auto simp: hev_socks5_task_io_yielder_def Let_def hev_socks5_set_timeout_def)
qed

section \<open>The splicer of the core library\<close>

lemma tcp_splicer_sound:
  assumes "hev_socks5_tcp_splicer mem_f mem_b fd (self, a) = Some ((self', a'), r)" "buf_ok mem_f" "buf_ok mem_b"
    and "fd \<noteq> s5_fd self" "fd \<notin> set (os_shut a)" "s5_fd self \<notin> set (os_shut a)"
  shows "relayed (s5_fd self) fd a a' \<and> relayed fd (s5_fd self) a a' \<and> os_live a' = os_live a \<and> only_mem a a' \<and>
    r = (if s5_fd self < 0 then - 1 else 0)"
proof (cases "s5_fd self < 0")
  case True
  then show ?thesis using assms(1) by (auto simp: hev_socks5_tcp_splicer_def relayed_idle only_mem_def)
next
  case False
  then have run: "hev_task_io_splice hev_socks5_task_io_yielder (s5_fd self) (s5_fd self) fd fd mem_f mem_b (self, a) = Some (self', a')"
    and r: "r = 0" using assms(1) by (auto simp: hev_socks5_tcp_splicer_def Let_def bind_eq_Some_conv)
  from ry.splice_sound [OF run assms(2,3) assms(4) [symmetric] assms(4) [symmetric] assms(6,5)]
  show ?thesis using r False by simp
qed

lemma tcp_splicer_returns:
  assumes "0 \<le> s5_timeout self" "buf_ok mem_f" "buf_ok mem_b" "fd \<noteq> s5_fd self" "fd \<notin> set (os_shut a)" "s5_fd self \<notin> set (os_shut a)"
  shows "\<exists>self' a' r. hev_socks5_tcp_splicer mem_f mem_b fd (self, a) = Some ((self', a'), r) \<and> 0 \<le> s5_timeout self'"
  using ry.splice_returns [OF assms(1-3) assms(4) [symmetric] assms(4) [symmetric] assms(6,5)] assms(1)
  by (auto simp: hev_socks5_tcp_splicer_def Let_def)

section \<open>Properties\<close>

text \<open>
  C3: The TCP relay is faithful in both directions at once, whatever the peers, the kernel and the
  yields do and however it ends: what was sent to one side, followed by the bytes left in the buffer and
  by what has not arrived yet, is what was to come from the other side, in order, nothing lost,
  doubled or mixed between the directions.  Where the relay has closed a side for writing no byte for
  it was left behind.  The relay gives back all its memory and touches no other resource.
\<close>

theorem tcp_relay_faithful:
  assumes "hev_socks5_tcp_splicer mem_f mem_b fd (self, a) = Some ((self', a'), r)" "buf_ok mem_f" "buf_ok mem_b"
    and "fd \<noteq> s5_fd self" "fd \<notin> set (os_shut a)" "s5_fd self \<notin> set (os_shut a)"
  shows "relayed (s5_fd self) fd a a' \<and> relayed fd (s5_fd self) a a' \<and> os_live a' = os_live a \<and> only_mem a a' \<and>
    r = (if s5_fd self < 0 then - 1 else 0)"
  by (rule tcp_splicer_sound [OF assms])

definition splice_demo :: socks5 where
  "splice_demo = \<lparr>s5_fd = 3, s5_timeout = 10, s5_type = TYPE_TCP, s5_udp_associated = False, s5_family = FAMILY_UNSPEC\<rparr>"

definition os_splice_demo :: os where
  "os_splice_demo = os_idle\<lparr>os_calls := [0, 0], os_waits := [Wait 5 False, Wait 5 False],
     os_rx := (\<lambda>f. if f = 3 then [RxData [1, 2, 3, 4, 5], RxEof] else [RxData [9], RxAgain, RxData [8], RxEof]),
     os_tx := (\<lambda>f. if f = 3 then [TxRoom 8] else [TxRoom 1, TxAgain, TxRoom 8])\<rparr>"

lemma splice_demo_hyps:
  "0 \<le> s5_timeout splice_demo" "buf_ok [0, 0, 0]" "buf_ok [0, 0]" "4 \<noteq> s5_fd splice_demo"
  "4 \<notin> set (os_shut os_splice_demo)" "s5_fd splice_demo \<notin> set (os_shut os_splice_demo)"
  by (simp_all add: splice_demo_def os_splice_demo_def os_idle_def buf_ok_def SIZE_MOD_def)

theorem tcp_relay_faithful_witness:
  "\<exists>self' a' r. hev_socks5_tcp_splicer [0, 0, 0] [0, 0] 4 (splice_demo, os_splice_demo) = Some ((self', a'), r) \<and>
     (\<exists>lost. os_out a' 4 @ lost @ rx_bytes (os_rx a' 3) = [1, 2, 3, 4, 5]) \<and>
     (\<exists>lost. os_out a' 3 @ lost @ rx_bytes (os_rx a' 4) = [9, 8]) \<and> os_live a' = 0 \<and> r = 0"
proof -
  obtain self' a' r where run: "hev_socks5_tcp_splicer [0, 0, 0] [0, 0] 4 (splice_demo, os_splice_demo) = Some ((self', a'), r)"
    using tcp_splicer_returns [OF splice_demo_hyps] by blast
  have "relayed 3 4 os_splice_demo a'" "relayed 4 3 os_splice_demo a'" "os_live a' = 0" "r = 0"
    using tcp_relay_faithful [OF run splice_demo_hyps(2-6)] by (simp_all add: splice_demo_def os_splice_demo_def os_idle_def)
  then have "\<exists>lost. os_out a' 4 @ lost @ rx_bytes (os_rx a' 3) = [1, 2, 3, 4, 5]"
    "\<exists>lost. os_out a' 3 @ lost @ rx_bytes (os_rx a' 4) = [9, 8]"
    by (auto simp: relayed_def os_splice_demo_def os_idle_def)
  then show ?thesis using run \<open>os_live a' = 0\<close> \<open>r = 0\<close> by blast
qed

text \<open>
  C18: The TCP relay of a connection with a timeout always comes back, for every behaviour of the two
  peers and for every size of the buffers, and it leaves the timeout in force.
\<close>

theorem tcp_relay_ends:
  assumes "0 \<le> s5_timeout self" "buf_ok mem_f" "buf_ok mem_b" "fd \<noteq> s5_fd self" "fd \<notin> set (os_shut a)" "s5_fd self \<notin> set (os_shut a)"
  shows "\<exists>self' a' r. hev_socks5_tcp_splicer mem_f mem_b fd (self, a) = Some ((self', a'), r) \<and> 0 \<le> s5_timeout self'"
  by (rule tcp_splicer_returns [OF assms])

theorem tcp_relay_ends_witness:
  "\<exists>self' a' r. hev_socks5_tcp_splicer [0, 0, 0] [0, 0] 4 (splice_demo, os_splice_demo) = Some ((self', a'), r) \<and> 0 \<le> s5_timeout self'"
  by (rule tcp_relay_ends [OF splice_demo_hyps])

end
