(* ===== verification/Socks5ServerRun.thy ===== *)
theory Socks5ServerRun
  imports Socks5ServerProofs Socks5UDPProofs TaskSplice
begin

text \<open>
  What the server of \<^verbatim>\<open>src/core/src/hev-socks5-server.c\<close> does after the handshake: it relays between
  the client and the socket it opened, as the type of the connection says, and \<^verbatim>\<open>hev_socks5_server_run\<close>
  puts the two together.  The memory for the relays' buffers is an input.
\<close>

definition hev_socks5_server_service ::
    "socks5_conf \<Rightarrow> resolver \<Rightarrow> (int \<Rightarrow> sockaddr6 \<Rightarrow> os \<Rightarrow> os \<times> int) \<Rightarrow> byte list \<Rightarrow> byte list \<Rightarrow> byte list list \<Rightarrow>
     'a socks5_server_scheme \<times> os \<Rightarrow> (('a socks5_server_scheme \<times> os) \<times> int) option" where
  "hev_socks5_server_service conf rsv bnd mem_f mem_b bufs st =
     (case s5_type (fst st) of
        TYPE_TCP \<Rightarrow> do {
          (st1, _) \<leftarrow> hev_socks5_tcp_splicer mem_f mem_b (sv_fd0 (fst st)) st;
          Some (st1, 0)
        }
      | TYPE_NONE \<Rightarrow> Some (st, - 1)
      | _ \<Rightarrow> do {
          (st1, _) \<leftarrow> hev_socks5_udp_splicer rsv bnd hev_socks5_server_get_fd (sv_fd0 (fst st)) bufs
            (hev_socks5_set_timeout (udp_timeout conf) (fst st), snd st);
          Some (st1, 0)
        })"

text \<open>Registering the client's descriptor with the poller changes nothing of the kernel's record.\<close>

definition hev_socks5_server_run ::
    "socks5_conf \<Rightarrow> resolver \<Rightarrow> (int \<Rightarrow> sockaddr6 \<Rightarrow> os \<Rightarrow> os \<times> int) \<Rightarrow> byte list \<Rightarrow> byte list \<Rightarrow> byte list list \<Rightarrow>
     'a socks5_server_scheme \<times> os \<Rightarrow> (('a socks5_server_scheme \<times> os) \<times> int) option" where
  "hev_socks5_server_run conf rsv bnd mem_f mem_b bufs st =
     do {
       (st1, res) \<leftarrow> hev_socks5_server_handshake conf rsv bnd st;
       if res < 0 then Some (st1, - 1)
       else do {
         (st2, res) \<leftarrow> hev_socks5_server_service conf rsv bnd mem_f mem_b bufs st1;
         Some (st2, if res < 0 then - 1 else 0)
       }
     }"

section \<open>Properties\<close>

text \<open>
  C4: No relay without a login: a server with an authenticator that runs to its end for a client whose
  stream does not start with the name and the password of a registered user reports failure, and in the
  whole run it has allocated nothing, opened and connected no socket: nothing was relayed.
\<close>

theorem server_run_guarded:
  assumes "hev_socks5_server_run conf rsv bnd mem_f mem_b bufs (s, a) = Some ((s', b), r)" "sv_obj s = ObjAuth"
  shows "logged_in (sv_store s) (rx_bytes (os_rx a (s5_fd s))) \<or> r = - 1 \<and> io_only a b"
proof -
  obtain s1 a1 r1 where h: "hev_socks5_server_handshake conf rsv bnd (s, a) = Some ((s1, a1), r1)"
    and rest: "r1 < 0 \<longrightarrow> (s', b) = (s1, a1) \<and> r = - 1"
    using assms(1) by (auto simp: hev_socks5_server_run_def bind_eq_Some_conv split: if_splits)
  show ?thesis using srv_handshake_guarded [OF h assms(2)] rest by auto
qed

theorem server_run_guarded_witness:
  "\<exists>s' b. hev_socks5_server_run socks5_conf_init no_resolver hev_socks5_bind [0] [0] [[0]]
      (server_demo, os_idle\<lparr>os_rx := (\<lambda>_. [RxData [5, 1, 0, 5, 1]]), os_tx := (\<lambda>_. [TxRoom 99])\<rparr>) = Some ((s', b), - 1) \<and>
    (logged_in (sv_store server_demo) [5, 1, 0, 5, 1] \<or>
      (- 1 :: int) = - 1 \<and> io_only (os_idle\<lparr>os_rx := (\<lambda>_. [RxData [5, 1, 0, 5, 1]]), os_tx := (\<lambda>_. [TxRoom 99])\<rparr>) b)"
proof -
  have "map_option snd (hev_socks5_server_handshake socks5_conf_init no_resolver hev_socks5_bind
      (server_demo, os_idle\<lparr>os_rx := (\<lambda>_. [RxData [5, 1, 0, 5, 1]]), os_tx := (\<lambda>_. [TxRoom 99])\<rparr>)) = Some (- 1)"
    by code_simp
  then obtain s' b where "hev_socks5_server_run socks5_conf_init no_resolver hev_socks5_bind [0] [0] [[0]]
      (server_demo, os_idle\<lparr>os_rx := (\<lambda>_. [RxData [5, 1, 0, 5, 1]]), os_tx := (\<lambda>_. [TxRoom 99])\<rparr>) = Some ((s', b), - 1)"
    by (auto simp: hev_socks5_server_run_def)
  moreover have "sv_obj server_demo = ObjAuth" by (simp add: server_demo_def)
  ultimately show ?thesis using server_run_guarded by fastforce
qed

text \<open>
  C30: A served TCP client is relayed and the run ends: where the handshake of a client ends well with
  the type TCP and a timeout, the run comes back with success, and from the end of the handshake on
  every byte of each side goes to the other one unchanged and in order.
\<close>

theorem server_run_relays:
  assumes "hev_socks5_server_handshake conf rsv bnd st = Some ((s, a), 0)" "s5_type s = TYPE_TCP" "0 \<le> s5_timeout s"
    and "0 \<le> s5_fd s" "buf_ok mem_f" "buf_ok mem_b" "sv_fd0 s \<noteq> s5_fd s" "os_shut a = []"
  shows "\<exists>s' b. hev_socks5_server_run conf rsv bnd mem_f mem_b bufs st = Some ((s', b), 0) \<and>
    relayed (s5_fd s) (sv_fd0 s) a b \<and> relayed (sv_fd0 s) (s5_fd s) a b \<and> os_live b = os_live a"
proof -
  have sh: "sv_fd0 s \<notin> set (os_shut a)" "s5_fd s \<notin> set (os_shut a)" using assms(8) by auto
  obtain s' b r where t: "hev_socks5_tcp_splicer mem_f mem_b (sv_fd0 s) (s, a) = Some ((s', b), r)"
    using tcp_splicer_returns [OF assms(3,5,6,7) sh] by blast
  from tcp_splicer_sound [OF t assms(5,6,7) sh] show ?thesis
    using assms(1,2) t by (auto simp: hev_socks5_server_run_def hev_socks5_server_service_def)
qed

lemma server_run_demo:
  "case hev_socks5_server_handshake socks5_conf_init no_resolver hev_socks5_bind (server_demo, os_server_demo) of
     None \<Rightarrow> False
   | Some ((s, a), r) \<Rightarrow> r = 0 \<and> s5_type s = TYPE_TCP \<and> 0 \<le> s5_timeout s \<and> 0 \<le> s5_fd s \<and> sv_fd0 s \<noteq> s5_fd s \<and> os_shut a = []"
  by code_simp

theorem server_run_relays_witness:
  "\<exists>s a s' b. hev_socks5_server_handshake socks5_conf_init no_resolver hev_socks5_bind (server_demo, os_server_demo) = Some ((s, a), 0) \<and>
     hev_socks5_server_run socks5_conf_init no_resolver hev_socks5_bind [0, 0] [0] [] (server_demo, os_server_demo) = Some ((s', b), 0) \<and>
     relayed (s5_fd s) (sv_fd0 s) a b \<and> relayed (sv_fd0 s) (s5_fd s) a b \<and> os_live b = os_live a"
proof -
  obtain s a where h: "hev_socks5_server_handshake socks5_conf_init no_resolver hev_socks5_bind (server_demo, os_server_demo) = Some ((s, a), 0)"
    and ok: "s5_type s = TYPE_TCP" "0 \<le> s5_timeout s" "0 \<le> s5_fd s" and ne: "sv_fd0 s \<noteq> s5_fd s" "os_shut a = []"
    using server_run_demo by (auto split: option.splits)
  have "buf_ok [0, 0]" "buf_ok [0]" by (simp_all add: buf_ok_def SIZE_MOD_def)
  from server_run_relays [OF h ok this ne, of "[]"] show ?thesis using h by blast
qed

end
