(* ===== verification/TunnelSync.thy ===== *)
theory TunnelSync
  imports Prelude
begin

text \<open>
  Starting and stopping the tunnel, \<^verbatim>\<open>src/hev-socks5-tunnel.c\<close>: the main thread runs
  \<^verbatim>\<open>hev_socks5_tunnel_init\<close>, \<^verbatim>\<open>hev_socks5_tunnel_run\<close> and \<^verbatim>\<open>hev_socks5_tunnel_fini\<close>, any number of other
  threads call \<^verbatim>\<open>hev_socks5_tunnel_stop\<close> at any time, and they meet in the atomic flags of \<^verbatim>\<open>tsync\<close> and in
  the pair of sockets \<^verbatim>\<open>event_fds\<close>.  A step is one atomic operation of one thread; a reachable state is
  one that some interleaving gives.
\<close>

section \<open>The state\<close>

text \<open>Where the main thread is: between its atomic operations.\<close>

datatype main_pc =
    MIdle     \<comment> \<open>nothing is initialised\<close>
  | MInit     \<comment> \<open>the event sockets are there, \<^verbatim>\<open>SYNC_SEND\<close> is not set yet\<close>
  | MReady    \<comment> \<open>initialised\<close>
  | MStart    \<comment> \<open>\<^verbatim>\<open>SYNC_STOP\<close> was not set\<close>
  | MRun      \<comment> \<open>the tasks run, the event task waits\<close>
  | MEvent    \<comment> \<open>the event task has read the event\<close>
  | MQuit     \<comment> \<open>\<^verbatim>\<open>run\<close> is zero\<close>
  | MDone     \<comment> \<open>the tasks have ended\<close>
  | MFini     \<comment> \<open>waiting for the stopping threads\<close>
  | MClose    \<comment> \<open>about to close the event sockets\<close>

text \<open>Where a stopping thread is.  \<^verbatim>\<open>SHeld\<close> remembers whether it has seen \<^verbatim>\<open>SYNC_SEND\<close>.\<close>

datatype stop_pc = SIdle | SHeld bool | SWrite | SRelease | SDone

record tunnel_sync =
  f_send :: bool
  f_sent :: bool
  f_wait :: bool
  f_stop :: bool
  event_open :: bool
  event_bytes :: nat
  run_var :: bool
  main_at :: main_pc
  stop_at :: "nat \<Rightarrow> stop_pc"
  closed_write :: bool

definition sync_init :: tunnel_sync where
  "sync_init = \<lparr>f_send = False, f_sent = False, f_wait = False, f_stop = False, event_open = False, event_bytes = 0,
     run_var = False, main_at = MIdle, stop_at = (\<lambda>_. SIdle), closed_write = False\<rparr>"

section \<open>The steps\<close>

inductive main_step :: "tunnel_sync \<Rightarrow> tunnel_sync \<Rightarrow> bool" where
  init_open: "main_at s = MIdle \<Longrightarrow> main_step s (s\<lparr>event_open := True, event_bytes := 0, main_at := MInit\<rparr>)"
| init_fail_early: "main_at s = MIdle \<Longrightarrow> main_step s (s\<lparr>main_at := MFini\<rparr>)"
| init_fail: "main_at s = MInit \<Longrightarrow> main_step s (s\<lparr>main_at := MFini\<rparr>)"
| init_done: "main_at s = MInit \<Longrightarrow> main_step s (s\<lparr>f_send := True, main_at := MReady\<rparr>)"
| run_stopped: "main_at s = MReady \<Longrightarrow> f_stop s \<Longrightarrow> main_step s (s\<lparr>f_stop := False, main_at := MDone\<rparr>)"
| run_starts: "main_at s = MReady \<Longrightarrow> \<not> f_stop s \<Longrightarrow> main_step s (s\<lparr>main_at := MStart\<rparr>)"
| run_tasks: "main_at s = MStart \<Longrightarrow> main_step s (s\<lparr>run_var := True, main_at := MRun\<rparr>)"
| event_read: "main_at s = MRun \<Longrightarrow> 0 < event_bytes s \<Longrightarrow>
    main_step s (s\<lparr>event_bytes := event_bytes s - 1, main_at := MEvent\<rparr>)"
| event_quit: "main_at s = MEvent \<Longrightarrow> main_step s (s\<lparr>run_var := False, main_at := MQuit\<rparr>)"
| event_clear: "main_at s = MQuit \<Longrightarrow> main_step s (s\<lparr>f_sent := False, main_at := MDone\<rparr>)"
| fini_start: "main_at s = MDone \<Longrightarrow> main_step s (s\<lparr>main_at := MFini\<rparr>)"
| fini_retry: "main_at s = MFini \<Longrightarrow> f_wait s \<Longrightarrow> main_step s (s\<lparr>f_send := False, f_sent := False\<rparr>)"
| fini_pass: "main_at s = MFini \<Longrightarrow> \<not> f_wait s \<Longrightarrow>
    main_step s (s\<lparr>f_send := False, f_sent := False, main_at := MClose\<rparr>)"
| fini_close: "main_at s = MClose \<Longrightarrow> main_step s (s\<lparr>event_open := False, main_at := MIdle\<rparr>)"

text \<open>A write to the event sockets when they are closed is recorded.\<close>

inductive stop_step :: "nat \<Rightarrow> tunnel_sync \<Rightarrow> tunnel_sync \<Rightarrow> bool" for t where
  stop_spin: "stop_at s t = SIdle \<Longrightarrow> f_wait s \<Longrightarrow> stop_step t s s"
| stop_enter: "stop_at s t = SIdle \<Longrightarrow> \<not> f_wait s \<Longrightarrow>
    stop_step t s (s\<lparr>f_wait := True, stop_at := (stop_at s)(t := SHeld (f_send s))\<rparr>)"
| stop_send: "stop_at s t = SHeld True \<Longrightarrow>
    stop_step t s (s\<lparr>f_sent := True, stop_at := (stop_at s)(t := if f_sent s then SRelease else SWrite)\<rparr>)"
| stop_flag: "stop_at s t = SHeld False \<Longrightarrow>
    stop_step t s (s\<lparr>f_stop := True, stop_at := (stop_at s)(t := SRelease)\<rparr>)"
| stop_write: "stop_at s t = SWrite \<Longrightarrow>
    stop_step t s (s\<lparr>event_bytes := event_bytes s + 1, closed_write := closed_write s \<or> \<not> event_open s,
      stop_at := (stop_at s)(t := SRelease)\<rparr>)"
| stop_leave: "stop_at s t = SRelease \<Longrightarrow>
    stop_step t s (s\<lparr>f_wait := False, stop_at := (stop_at s)(t := SDone)\<rparr>)"
| stop_again: "stop_at s t = SDone \<Longrightarrow> stop_step t s (s\<lparr>stop_at := (stop_at s)(t := SIdle)\<rparr>)"

inductive sync_reach :: "tunnel_sync \<Rightarrow> bool" where
  reach_init: "sync_reach sync_init"
| reach_main: "sync_reach s \<Longrightarrow> main_step s s' \<Longrightarrow> sync_reach s'"
| reach_stop: "sync_reach s \<Longrightarrow> stop_step t s s' \<Longrightarrow> sync_reach s'"

inductive_cases main_stepE: "main_step s s'"
inductive_cases stop_stepE: "stop_step t s s'"

section \<open>The invariant\<close>

definition entered :: "stop_pc \<Rightarrow> bool" where
  "entered p \<longleftrightarrow> p \<noteq> SIdle \<and> p \<noteq> SDone"

definition will_write :: "stop_pc \<Rightarrow> bool" where
  "will_write p \<longleftrightarrow> p = SHeld True \<or> p = SWrite"

lemma pc_simps [simp]:
  "\<not> entered SIdle" "\<not> entered SDone" "entered (SHeld b)" "entered SWrite" "entered SRelease"
  "\<not> will_write SIdle" "\<not> will_write SDone" "will_write (SHeld b) = b" "will_write SWrite" "\<not> will_write SRelease"
  by (auto simp: entered_def will_write_def)

text \<open>Only the thread at \<^term>\<open>p\<close> may be inside \<^verbatim>\<open>hev_socks5_tunnel_stop\<close>.\<close>

definition inside :: "(nat \<Rightarrow> stop_pc) \<Rightarrow> stop_pc \<Rightarrow> bool" where
  "inside f p \<longleftrightarrow> (\<exists>h. f h = p \<and> (\<forall>t. t \<noteq> h \<longrightarrow> \<not> entered (f t)))"

lemma inside_at: "inside f p \<Longrightarrow> entered (f t) \<Longrightarrow> f t = p"
  unfolding inside_def by metis

lemma inside_none: "inside f p \<Longrightarrow> \<not> entered p \<Longrightarrow> \<not> entered (f t)"
  unfolding inside_def by metis

lemma inside_move: "inside f p \<Longrightarrow> entered (f t) \<or> \<not> entered p \<Longrightarrow> inside (f(t := q)) q"
  unfolding inside_def by (metis fun_upd_apply)

lemma inside_other: "inside f p \<Longrightarrow> \<not> entered (f t) \<Longrightarrow> entered p \<Longrightarrow> \<not> entered q \<Longrightarrow> inside (f(t := q)) p"
  unfolding inside_def by (metis fun_upd_apply)

text \<open>
  At most one thread is inside, and exactly then \<^verbatim>\<open>SYNC_WAIT\<close> is set; a flag to send and a thread that
  will write exist only while the sockets are there; a sent event that has not been handled is in the
  socket or about to be written.
\<close>

definition sync_at :: "tunnel_sync \<Rightarrow> stop_pc \<Rightarrow> bool" where
  "sync_at s p \<longleftrightarrow> inside (stop_at s) p \<and> (f_wait s \<longleftrightarrow> entered p) \<and> (main_at s = MInit \<longrightarrow> event_open s) \<and>
     (f_send s \<or> f_sent s \<or> will_write p \<longrightarrow> event_open s \<and> main_at s \<notin> {MIdle, MInit, MClose}) \<and>
     (f_sent s \<and> main_at s \<in> {MReady, MStart, MRun} \<longrightarrow> 0 < event_bytes s \<or> p = SWrite) \<and> \<not> closed_write s"

lemma not_entered: "\<not> entered p \<Longrightarrow> \<not> will_write p \<and> p \<noteq> SWrite"
  by (auto simp: entered_def will_write_def)

lemma sync_at_main:
  assumes "main_step s s'" "sync_at s p"
  shows "sync_at s' p"
  using assms(1)
  by cases (use assms(2) not_entered [of p] in \<open>auto simp: sync_at_def\<close>)

lemma sync_at_stop:
  assumes "stop_step t s s'" "sync_at s p"
  shows "\<exists>q. sync_at s' q"
proof -
  have i: "inside (stop_at s) p" and w: "f_wait s \<longleftrightarrow> entered p" using assms(2) by (auto simp: sync_at_def)
  note move = inside_move [OF i, of t] and here = inside_at [OF i, of t]
  from assms(1) show ?thesis
  proof cases
    case stop_enter
    then show ?thesis using assms(2) w move [of "SHeld (f_send s)"] not_entered [of p]
      by (intro exI [of _ "SHeld (f_send s)"]) (auto simp: sync_at_def)
  next
    case stop_send
    then have "p = SHeld True" using here by simp
    then show ?thesis using assms(2) stop_send move [of "if f_sent s then SRelease else SWrite"]
      by (intro exI [of _ "if f_sent s then SRelease else SWrite"]) (auto simp: sync_at_def)
  next
    case stop_flag
    then have "p = SHeld False" using here by simp
    then show ?thesis using assms(2) stop_flag move [of SRelease] by (intro exI [of _ SRelease]) (auto simp: sync_at_def)
  next
    case stop_write
    then have "p = SWrite" using here by simp
    then show ?thesis using assms(2) stop_write move [of SRelease] by (intro exI [of _ SRelease]) (auto simp: sync_at_def)
  next
    case stop_leave
    then have "p = SRelease" using here by simp
    then show ?thesis using assms(2) stop_leave move [of SDone] by (intro exI [of _ SDone]) (auto simp: sync_at_def)
  next
    case stop_again
    show ?thesis
    proof (cases "entered p")
      case True
      then show ?thesis using assms(2) stop_again inside_other [OF i, of t SIdle]
        by (intro exI [of _ p]) (auto simp: sync_at_def)
    next
      case False
      then show ?thesis using assms(2) stop_again move [of SIdle] not_entered [OF False]
        by (intro exI [of _ SIdle]) (auto simp: sync_at_def)
    qed
  qed (use assms(2) in blast)
qed

lemma sync_reach_at: "sync_reach s \<Longrightarrow> \<exists>p. sync_at s p"
proof (induction rule: sync_reach.induct)
  case reach_init
  have "sync_at sync_init SIdle" by (simp add: sync_at_def inside_def sync_init_def)
  then show ?case ..
qed (blast intro: sync_at_main sync_at_stop)+

section \<open>Schedules\<close>

definition after_init :: tunnel_sync where
  "after_init = sync_init\<lparr>event_open := True, f_send := True, main_at := MReady\<rparr>"

lemma reach_after_init: "sync_reach after_init"
proof -
  have 1: "sync_reach (sync_init\<lparr>event_open := True, event_bytes := 0, main_at := MInit\<rparr>)"
    by (rule reach_main [OF reach_init init_open]) (simp add: sync_init_def)
  have "sync_reach (sync_init\<lparr>event_open := True, event_bytes := 0, main_at := MInit\<rparr>\<lparr>f_send := True, main_at := MReady\<rparr>)"
    by (rule reach_main [OF 1 init_done]) simp
  then show ?thesis by (simp add: after_init_def sync_init_def)
qed

definition running :: tunnel_sync where
  "running = after_init\<lparr>run_var := True, main_at := MRun\<rparr>"

lemma reach_running: "sync_reach running"
proof -
  have 1: "sync_reach (after_init\<lparr>main_at := MStart\<rparr>)"
    by (rule reach_main [OF reach_after_init run_starts]) (simp_all add: after_init_def sync_init_def)
  have "sync_reach (after_init\<lparr>main_at := MStart\<rparr>\<lparr>run_var := True, main_at := MRun\<rparr>)"
    by (rule reach_main [OF 1 run_tasks]) simp
  then show ?thesis by (simp add: running_def)
qed

text \<open>A thread that stops the running tunnel, before and after it writes.\<close>

definition stopping :: tunnel_sync where
  "stopping = running\<lparr>f_wait := True, f_sent := True, stop_at := (\<lambda>_. SIdle)(0 := SWrite)\<rparr>"

lemma reach_stopping: "sync_reach stopping"
proof -
  let ?s = "running\<lparr>f_wait := True, stop_at := (\<lambda>_. SIdle)(0 := SHeld True)\<rparr>"
  have "stop_step 0 running (running\<lparr>f_wait := True, stop_at := (stop_at running)(0 := SHeld (f_send running))\<rparr>)"
    by (rule stop_enter) (simp_all add: running_def after_init_def sync_init_def)
  then have 1: "sync_reach ?s" using reach_stop [OF reach_running] by (simp add: running_def after_init_def sync_init_def)
  have "stop_step 0 ?s (?s\<lparr>f_sent := True, stop_at := (stop_at ?s)(0 := if f_sent ?s then SRelease else SWrite)\<rparr>)"
    by (rule stop_send) simp
  then show ?thesis using reach_stop [OF 1] by (simp add: stopping_def running_def after_init_def sync_init_def)
qed

definition stopped :: tunnel_sync where
  "stopped = running\<lparr>f_sent := True, event_bytes := 1, stop_at := (\<lambda>_. SIdle)(0 := SDone)\<rparr>"

lemma reach_stopped: "sync_reach stopped"
proof -
  let ?s = "running\<lparr>f_wait := True, f_sent := True, event_bytes := 1, stop_at := (\<lambda>_. SIdle)(0 := SRelease)\<rparr>"
  have "stop_step 0 stopping (stopping\<lparr>event_bytes := event_bytes stopping + 1,
      closed_write := closed_write stopping \<or> \<not> event_open stopping, stop_at := (stop_at stopping)(0 := SRelease)\<rparr>)"
    by (rule stop_write) (simp add: stopping_def)
  then have 1: "sync_reach ?s"
    using reach_stop [OF reach_stopping] by (simp add: stopping_def running_def after_init_def sync_init_def)
  have "stop_step 0 ?s (?s\<lparr>f_wait := False, stop_at := (stop_at ?s)(0 := SDone)\<rparr>)" by (rule stop_leave) simp
  then show ?thesis using reach_stop [OF 1] by (simp add: stopped_def running_def after_init_def sync_init_def)
qed

text \<open>A thread that calls the stop function before the tunnel is initialised and is slow.\<close>

definition early :: "stop_pc \<Rightarrow> tunnel_sync" where
  "early p = sync_init\<lparr>f_wait := True, stop_at := (\<lambda>_. SIdle)(0 := p)\<rparr>"

definition overtaken :: "stop_pc \<Rightarrow> tunnel_sync" where
  "overtaken p = (early p)\<lparr>event_open := True, f_send := True, run_var := True, main_at := MRun\<rparr>"

lemma reach_early: "sync_reach (early (SHeld False))"
proof -
  have "stop_step 0 sync_init (sync_init\<lparr>f_wait := True, stop_at := (stop_at sync_init)(0 := SHeld (f_send sync_init))\<rparr>)"
    by (rule stop_enter) (simp_all add: sync_init_def)
  then show ?thesis using reach_stop [OF reach_init] by (simp add: early_def sync_init_def)
qed

lemma reach_overtaken: "sync_reach (overtaken (SHeld False))"
proof -
  let ?e = "early (SHeld False)"
  have 1: "sync_reach (?e\<lparr>event_open := True, event_bytes := 0, main_at := MInit\<rparr>)"
    by (rule reach_main [OF reach_early init_open]) (simp add: early_def sync_init_def)
  have 2: "sync_reach (?e\<lparr>event_open := True, event_bytes := 0, main_at := MInit\<rparr>\<lparr>f_send := True, main_at := MReady\<rparr>)"
    by (rule reach_main [OF 1 init_done]) simp
  have 3: "sync_reach (?e\<lparr>event_open := True, event_bytes := 0, f_send := True, main_at := MStart\<rparr>)"
    using reach_main [OF 2 run_starts] by (simp add: early_def sync_init_def)
  show ?thesis using reach_main [OF 3 run_tasks] by (simp add: overtaken_def early_def sync_init_def)
qed

definition lost :: tunnel_sync where
  "lost = (overtaken SDone)\<lparr>f_wait := False, f_stop := True\<rparr>"

lemma reach_lost: "sync_reach lost"
proof -
  let ?o = "overtaken (SHeld False)" and ?r = "(overtaken SRelease)\<lparr>f_stop := True\<rparr>"
  have "stop_step 0 ?o (?o\<lparr>f_stop := True, stop_at := (stop_at ?o)(0 := SRelease)\<rparr>)"
    by (rule stop_flag) (simp add: overtaken_def early_def sync_init_def)
  then have 1: "sync_reach ?r" using reach_stop [OF reach_overtaken] by (simp add: overtaken_def early_def sync_init_def)
  have "stop_step 0 ?r (?r\<lparr>f_wait := False, stop_at := (stop_at ?r)(0 := SDone)\<rparr>)"
    by (rule stop_leave) (simp add: overtaken_def early_def sync_init_def)
  then show ?thesis using reach_stop [OF 1] by (simp add: lost_def overtaken_def early_def sync_init_def)
qed

section \<open>Properties\<close>

text \<open>
  C10: Stopping is safe in every interleaving of any number of stopping threads with initialisation,
  run and finalisation: at most one thread is inside the protected part of \<^verbatim>\<open>hev_socks5_tunnel_stop\<close>, no
  thread ever writes to the event sockets after they are closed or before they exist, and the sockets
  are not about to be closed while a thread is going to write.
\<close>

theorem stop_is_safe:
  assumes "sync_reach s"
  shows "\<not> closed_write s \<and> (\<forall>t u. entered (stop_at s t) \<and> entered (stop_at s u) \<longrightarrow> t = u) \<and>
    (\<forall>t. will_write (stop_at s t) \<longrightarrow> event_open s \<and> main_at s \<noteq> MClose)"
proof -
  obtain p where p: "sync_at s p" using sync_reach_at [OF assms] by blast
  then have i: "inside (stop_at s) p" by (simp add: sync_at_def)
  have "will_write (stop_at s t) \<Longrightarrow> will_write p" for t
    using inside_at [OF i, of t] not_entered [of "stop_at s t"] by metis
  moreover have "entered (stop_at s t) \<Longrightarrow> entered (stop_at s u) \<Longrightarrow> t = u" for t u
    using i unfolding inside_def by metis
  ultimately show ?thesis using p by (auto simp: sync_at_def)
qed

theorem stop_is_safe_witness:
  "stop_at stopping 0 = SWrite \<and> event_open stopping \<and> main_at stopping \<noteq> MClose \<and> \<not> closed_write stopping"
proof -
  have at: "stop_at stopping 0 = SWrite" by (simp add: stopping_def)
  then show ?thesis using stop_is_safe [OF reach_stopping] by (metis pc_simps(9))
qed

text \<open>
  C33: A stop that finds the tunnel initialised is not lost: while the tunnel runs and its event task
  waits, a request that was sent is in the event socket as soon as no thread is inside the stop
  function, so the event task can take it.
\<close>

theorem sent_stop_is_not_lost:
  assumes "sync_reach s" "main_at s = MRun" "f_sent s" "\<not> f_wait s"
  shows "\<exists>s'. main_step s s' \<and> main_at s' = MEvent"
proof -
  obtain p where p: "sync_at s p" using sync_reach_at [OF assms(1)] by blast
  then have "0 < event_bytes s" using assms not_entered [of p] by (auto simp: sync_at_def)
  from main_step.event_read [OF assms(2) this] show ?thesis by fastforce
qed

theorem sent_stop_is_not_lost_witness: "\<exists>s'. main_step stopped s' \<and> main_at s' = MEvent"
  by (rule sent_stop_is_not_lost [OF reach_stopped])
    (simp_all add: stopped_def running_def after_init_def sync_init_def)

text \<open>
  C34: A stop can be lost: a thread that calls \<^verbatim>\<open>hev_socks5_tunnel_stop\<close> before the end of the
  initialisation may set \<^verbatim>\<open>SYNC_STOP\<close> after \<^verbatim>\<open>hev_socks5_tunnel_run\<close> has looked at it.  Its call has
  returned, no call is under way, and the tunnel runs with nothing that could end it; the flag that
  stays behind makes the next run end at once instead.
\<close>

theorem early_stop_is_lost:
  "\<exists>s. sync_reach s \<and> stop_at s 0 = SDone \<and> \<not> f_wait s \<and> main_at s = MRun \<and> run_var s \<and> f_stop s \<and> (\<nexists>s'. main_step s s')"
proof -
  have at: "main_at lost = MRun" "event_bytes lost = 0" by (simp_all add: lost_def overtaken_def early_def sync_init_def)
  have "\<nexists>s'. main_step lost s'"
  proof
    assume "\<exists>s'. main_step lost s'"
    then obtain s' where "main_step lost s'" by blast
    then show False using at by cases simp_all
  qed
  then show ?thesis using reach_lost at by (intro exI [of _ lost]) (simp add: lost_def overtaken_def early_def)
qed

end
