(* ===== verification/TaskSync.thy ===== *)
theory TaskSync
  imports Prelude
begin

text \<open>
  The mutex and the condition of the task library
  (\<^verbatim>\<open>third-part/hev-task-system/src/kern/sync\<close>).  Tasks switch only where they yield, so a step is what
  one task does between two yields; a task is a number, and the node on the stack of a task that waits
  is named after the task.  A wait ends when the task is woken, and any task may be woken at any time, as
  the callbacks of lwIP wake the session they serve.
\<close>

section \<open>The mutex\<close>

record task_mutex =
  locker :: bool
  mwaiters :: "nat list"

definition hev_task_mutex_init :: task_mutex where
  "hev_task_mutex_init = \<lparr>locker = False, mwaiters = []\<rparr>"

text \<open>
  \<^verbatim>\<open>hev_task_mutex_lock\<close> up to its first yield, and from the end of a yield to the next one; the
  second component tells whether the call has returned.
\<close>

definition mutex_lock_begin :: "nat \<Rightarrow> task_mutex \<Rightarrow> task_mutex \<times> bool" where
  "mutex_lock_begin t self =
     (if locker self then (self\<lparr>mwaiters := t # mwaiters self\<rparr>, False) else (self\<lparr>locker := True\<rparr>, True))"

definition mutex_lock_resume :: "nat \<Rightarrow> task_mutex \<Rightarrow> task_mutex \<times> bool" where
  "mutex_lock_resume t self =
     (if locker self \<or> mwaiters self = [] \<or> hd (mwaiters self) \<noteq> t then (self, False)
      else (self\<lparr>mwaiters := tl (mwaiters self), locker := True\<rparr>, True))"

definition hev_task_mutex_trylock :: "task_mutex \<Rightarrow> task_mutex \<times> int" where
  "hev_task_mutex_trylock self = (if locker self then (self, - 1) else (self\<lparr>locker := True\<rparr>, 0))"

text \<open>The task that is woken is returned.\<close>

definition hev_task_mutex_unlock :: "task_mutex \<Rightarrow> task_mutex \<times> nat option" where
  "hev_task_mutex_unlock self =
     (self\<lparr>locker := False\<rparr>, case mwaiters self of [] \<Rightarrow> None | t # _ \<Rightarrow> Some t)"

section \<open>Tasks that share a mutex\<close>

record mutex_sys =
  mx :: task_mutex
  holds :: "nat \<Rightarrow> bool"
  waits :: "nat \<Rightarrow> bool"
  awake :: "nat \<Rightarrow> bool"

definition mutex_start :: mutex_sys where
  "mutex_start = \<lparr>mx = hev_task_mutex_init, holds = (\<lambda>_. False), waits = (\<lambda>_. False), awake = (\<lambda>_. True)\<rparr>"

definition after_lock :: "nat \<Rightarrow> task_mutex \<Rightarrow> bool \<Rightarrow> mutex_sys \<Rightarrow> mutex_sys" where
  "after_lock t m got s =
     s\<lparr>mx := m, holds := (holds s)(t := holds s t \<or> got), waits := (waits s)(t := \<not> got), awake := (awake s)(t := got)\<rparr>"

inductive mutex_step :: "mutex_sys \<Rightarrow> mutex_sys \<Rightarrow> bool" where
  do_lock: "awake s t \<Longrightarrow> \<not> waits s t \<Longrightarrow> mutex_lock_begin t (mx s) = (m, got) \<Longrightarrow> mutex_step s (after_lock t m got s)"
| do_resume: "awake s t \<Longrightarrow> waits s t \<Longrightarrow> mutex_lock_resume t (mx s) = (m, got) \<Longrightarrow> mutex_step s (after_lock t m got s)"
| do_trylock: "awake s t \<Longrightarrow> \<not> waits s t \<Longrightarrow> hev_task_mutex_trylock (mx s) = (m, r) \<Longrightarrow>
    mutex_step s (s\<lparr>mx := m, holds := (holds s)(t := holds s t \<or> r = 0)\<rparr>)"
| do_unlock: "awake s t \<Longrightarrow> \<not> waits s t \<Longrightarrow> holds s t \<Longrightarrow> hev_task_mutex_unlock (mx s) = (m, w) \<Longrightarrow>
    mutex_step s (s\<lparr>mx := m, holds := (holds s)(t := False),
      awake := (case w of None \<Rightarrow> awake s | Some u \<Rightarrow> (awake s)(u := True))\<rparr>)"
| do_wake: "mutex_step s (s\<lparr>awake := (awake s)(t := True)\<rparr>)"
| do_sleep: "\<not> waits s t \<Longrightarrow> mutex_step s (s\<lparr>awake := (awake s)(t := False)\<rparr>)"

inductive mutex_reach :: "mutex_sys \<Rightarrow> bool" where
  mutex_reach_start: "mutex_reach mutex_start"
| mutex_reach_step: "mutex_reach s \<Longrightarrow> mutex_step s s' \<Longrightarrow> mutex_reach s'"

inductive_cases mutex_stepE: "mutex_step s s'"

section \<open>The invariant of the mutex\<close>

text \<open>The last part is that no wakeup is lost: a free mutex that tasks wait for has its first waiter awake.\<close>

definition mutex_inv :: "mutex_sys \<Rightarrow> bool" where
  "mutex_inv s \<longleftrightarrow> distinct (mwaiters (mx s)) \<and> set (mwaiters (mx s)) = {t. waits s t} \<and>
     (\<forall>t u. holds s t \<longrightarrow> holds s u \<longrightarrow> t = u) \<and> (locker (mx s) \<longleftrightarrow> (\<exists>t. holds s t)) \<and>
     (\<not> locker (mx s) \<and> mwaiters (mx s) \<noteq> [] \<longrightarrow> awake s (hd (mwaiters (mx s))))"

lemma mutex_inv_start: "mutex_inv mutex_start"
  by (simp add: mutex_inv_def mutex_start_def hev_task_mutex_init_def)

lemma mutex_inv_lock:
  assumes "mutex_inv s" "\<not> waits s t" "mutex_lock_begin t (mx s) = (m, got)"
  shows "mutex_inv (after_lock t m got s)"
  using assms by (auto simp: mutex_inv_def after_lock_def mutex_lock_begin_def split: if_splits)

lemma mutex_inv_resume:
  assumes "mutex_inv s" "waits s t" "mutex_lock_resume t (mx s) = (m, got)"
  shows "mutex_inv (after_lock t m got s)"
proof (cases got)
  case True
  then obtain ws where ws: "mwaiters (mx s) = t # ws" "\<not> locker (mx s)" "m = (mx s)\<lparr>mwaiters := ws, locker := True\<rparr>"
    using assms(3) by (cases "mwaiters (mx s)") (auto simp: mutex_lock_resume_def split: if_splits)
  have "set ws = {u. u \<noteq> t \<and> waits s u}" using assms(1) ws(1) by (auto simp: mutex_inv_def)
  then show ?thesis using assms(1) ws True by (auto simp: mutex_inv_def after_lock_def)
next
  case False
  then have "m = mx s" "locker (mx s) \<or> mwaiters (mx s) = [] \<or> hd (mwaiters (mx s)) \<noteq> t"
    using assms(3) by (auto simp: mutex_lock_resume_def split: if_splits)
  then show ?thesis using assms(1,2) False by (auto simp: mutex_inv_def after_lock_def)
qed

lemma mutex_inv_trylock:
  assumes "mutex_inv s" "hev_task_mutex_trylock (mx s) = (m, r)"
  shows "mutex_inv (s\<lparr>mx := m, holds := (holds s)(t := holds s t \<or> r = 0)\<rparr>)"
proof (cases "locker (mx s)")
  case True
  then have "s\<lparr>mx := m, holds := (holds s)(t := holds s t \<or> r = 0)\<rparr> = s" using assms(2) by (auto simp: hev_task_mutex_trylock_def)
  then show ?thesis using assms(1) by simp
next
  case False
  then show ?thesis using assms by (auto simp: mutex_inv_def hev_task_mutex_trylock_def)
qed

lemma mutex_inv_unlock:
  assumes "mutex_inv s" "holds s t" "hev_task_mutex_unlock (mx s) = (m, w)"
  shows "mutex_inv (s\<lparr>mx := m, holds := (holds s)(t := False), awake := (case w of None \<Rightarrow> awake s | Some u \<Rightarrow> (awake s)(u := True))\<rparr>)"
  using assms by (cases "mwaiters (mx s)") (auto simp: mutex_inv_def hev_task_mutex_unlock_def)

lemma mutex_inv_step: "mutex_step s s' \<Longrightarrow> mutex_inv s \<Longrightarrow> mutex_inv s'"
proof (induction rule: mutex_step.induct)
  case (do_sleep s t)
  then have "mwaiters (mx s) \<noteq> [] \<Longrightarrow> hd (mwaiters (mx s)) \<noteq> t" by (cases "mwaiters (mx s)") (auto simp: mutex_inv_def)
  then show ?case using do_sleep by (simp add: mutex_inv_def)
qed (simp_all add: mutex_inv_lock mutex_inv_resume mutex_inv_trylock mutex_inv_unlock, simp add: mutex_inv_def)

lemma mutex_reach_inv: "mutex_reach s \<Longrightarrow> mutex_inv s"
  by (induction rule: mutex_reach.induct) (auto intro: mutex_inv_start mutex_inv_step)

text \<open>A task that waits for a mutex it holds itself does so in every later state.\<close>

lemma stuck_step:
  assumes "mutex_step s s'" "mutex_inv s" "holds s t" "waits s t"
  shows "holds s' t \<and> waits s' t"
proof -
  have "locker (mx s)" using assms(2,3) by (auto simp: mutex_inv_def)
  show ?thesis
    using assms(1,3,4) \<open>locker (mx s)\<close>
    by cases (auto simp: after_lock_def mutex_lock_begin_def mutex_lock_resume_def hev_task_mutex_trylock_def)
qed

section \<open>The condition\<close>

text \<open>The nodes of the tasks that wait form a list through \<^verbatim>\<open>prev\<close> and \<^verbatim>\<open>next\<close>; a node with its task cleared was signalled.\<close>

record task_cond =
  cd_waiters :: "nat option"
  cd_prev :: "nat \<Rightarrow> nat option"
  cd_next :: "nat \<Rightarrow> nat option"
  cd_task :: "nat \<Rightarrow> bool"

definition hev_task_cond_init :: task_cond where
  "hev_task_cond_init = \<lparr>cd_waiters = None, cd_prev = (\<lambda>_. None), cd_next = (\<lambda>_. None), cd_task = (\<lambda>_. False)\<rparr>"

text \<open>What \<^verbatim>\<open>hev_task_cond_wait\<close> and \<^verbatim>\<open>hev_task_cond_timedwait\<close> do before they release the mutex.\<close>

definition cond_enqueue :: "nat \<Rightarrow> task_cond \<Rightarrow> task_cond" where
  "cond_enqueue n self =
     (let c = self\<lparr>cd_prev := (cd_prev self)(n := None), cd_next := (cd_next self)(n := cd_waiters self),
                cd_task := (cd_task self)(n := True)\<rparr>;
          c1 = (case cd_waiters c of None \<Rightarrow> c | Some w \<Rightarrow> c\<lparr>cd_prev := (cd_prev c)(w := Some n)\<rparr>) in
      c1\<lparr>cd_waiters := Some n\<rparr>)"

text \<open>What \<^verbatim>\<open>hev_task_cond_timedwait\<close> does when its time is over and it has the mutex again.\<close>

definition cond_timeout :: "nat \<Rightarrow> task_cond \<Rightarrow> task_cond \<times> int" where
  "cond_timeout n self =
     (if cd_task self n then
        let c1 = (case cd_prev self n of None \<Rightarrow> self | Some p \<Rightarrow> self\<lparr>cd_next := (cd_next self)(p := cd_next self n)\<rparr>);
            c2 = (case cd_next c1 n of None \<Rightarrow> c1 | Some q \<Rightarrow> c1\<lparr>cd_prev := (cd_prev c1)(q := cd_prev c1 n)\<rparr>);
            c3 = (if cd_waiters c2 = Some n then c2\<lparr>cd_waiters := None\<rparr> else c2) in
        (c3, - 1)
      else (self, 0))"

text \<open>Signalling returns the task it woke, broadcasting all of them.\<close>

definition hev_task_cond_signal :: "task_cond \<Rightarrow> task_cond \<times> nat option" where
  "hev_task_cond_signal self =
     (case cd_waiters self of
        None \<Rightarrow> (self, None)
      | Some n \<Rightarrow>
          let c1 = self\<lparr>cd_task := (cd_task self)(n := False), cd_waiters := cd_next self n\<rparr> in
          (case cd_waiters c1 of None \<Rightarrow> c1 | Some w \<Rightarrow> c1\<lparr>cd_prev := (cd_prev c1)(w := None)\<rparr>, Some n))"

partial_function (option) cond_broadcast_loop :: "task_cond \<Rightarrow> nat list \<Rightarrow> (task_cond \<times> nat list) option" where
  "cond_broadcast_loop self woken =
     (case cd_waiters self of
        None \<Rightarrow> Some (self, woken)
      | Some n \<Rightarrow>
          cond_broadcast_loop (self\<lparr>cd_task := (cd_task self)(n := False), cd_waiters := cd_next self n\<rparr>) (woken @ [n]))"

definition hev_task_cond_broadcast :: "task_cond \<Rightarrow> (task_cond \<times> nat list) option" where
  "hev_task_cond_broadcast self = cond_broadcast_loop self []"

fun cond_seg :: "task_cond \<Rightarrow> nat option \<Rightarrow> nat option \<Rightarrow> nat list \<Rightarrow> bool" where
  "cond_seg c p x [] \<longleftrightarrow> x = None"
| "cond_seg c p x (n # ns) \<longleftrightarrow> x = Some n \<and> cd_prev c n = p \<and> cd_task c n \<and> cond_seg c (Some n) (cd_next c n) ns"

definition cond_list :: "task_cond \<Rightarrow> nat list \<Rightarrow> bool" where
  "cond_list c ns \<longleftrightarrow> distinct ns \<and> cond_seg c None (cd_waiters c) ns"

lemma cond_seg_frame:
  assumes "\<And>m. m \<in> set ns \<Longrightarrow> cd_prev c' m = cd_prev c m \<and> cd_next c' m = cd_next c m \<and> cd_task c' m = cd_task c m"
  shows "cond_seg c' p x ns = cond_seg c p x ns"
  using assms by (induction ns arbitrary: p x) simp_all

lemma cond_enqueue_list:
  assumes "cond_list c ns" "n \<notin> set ns"
  shows "cond_list (cond_enqueue n c) (n # ns)"
proof (cases ns)
  case Nil
  then show ?thesis using assms by (simp add: cond_list_def cond_enqueue_def)
next
  case (Cons w ws)
  then have "cond_seg (cond_enqueue n c) (Some w) (cd_next c w) ws = cond_seg c (Some w) (cd_next c w) ws"
    using assms by (intro cond_seg_frame) (auto simp: cond_list_def cond_enqueue_def)
  then show ?thesis using assms Cons by (auto simp: cond_list_def cond_enqueue_def)
qed

lemma cond_signal_list:
  assumes "cond_list c (n # ns)"
  shows "snd (hev_task_cond_signal c) = Some n" "cond_list (fst (hev_task_cond_signal c)) ns"
    "\<not> cd_task (fst (hev_task_cond_signal c)) n"
proof -
  show "snd (hev_task_cond_signal c) = Some n" using assms by (simp add: cond_list_def hev_task_cond_signal_def Let_def)
  show "\<not> cd_task (fst (hev_task_cond_signal c)) n"
    using assms by (auto simp: cond_list_def hev_task_cond_signal_def Let_def split: option.splits)
  show "cond_list (fst (hev_task_cond_signal c)) ns"
  proof (cases ns)
    case Nil
    then show ?thesis using assms by (auto simp: cond_list_def hev_task_cond_signal_def Let_def)
  next
    case (Cons w ws)
    then have "cond_seg (fst (hev_task_cond_signal c)) (Some w) (cd_next c w) ws = cond_seg c (Some w) (cd_next c w) ws"
      using assms by (intro cond_seg_frame) (auto simp: cond_list_def hev_task_cond_signal_def Let_def)
    then show ?thesis using assms Cons by (auto simp: cond_list_def hev_task_cond_signal_def Let_def)
  qed
qed

lemma cond_broadcast_seg:
  assumes "distinct ns" "cond_seg c p (cd_waiters c) ns"
  shows "\<exists>c'. cond_broadcast_loop c woken = Some (c', woken @ ns) \<and> cd_waiters c' = None \<and> (\<forall>m \<in> set ns. \<not> cd_task c' m) \<and>
    (\<forall>m. m \<notin> set ns \<longrightarrow> cd_task c' m = cd_task c m)"
  using assms
proof (induction ns arbitrary: c p woken)
  case Nil
  then show ?case by (subst cond_broadcast_loop.simps) simp
next
  case (Cons n ns)
  let ?c = "c\<lparr>cd_task := (cd_task c)(n := False), cd_waiters := cd_next c n\<rparr>"
  have "cond_seg ?c (Some n) (cd_next c n) ns = cond_seg c (Some n) (cd_next c n) ns"
    using Cons.prems(1) by (intro cond_seg_frame) auto
  then obtain c' where c': "cond_broadcast_loop ?c (woken @ [n]) = Some (c', (woken @ [n]) @ ns)" "cd_waiters c' = None"
    "\<forall>m \<in> set ns. \<not> cd_task c' m" "\<forall>m. m \<notin> set ns \<longrightarrow> cd_task c' m = cd_task ?c m"
    using Cons.IH [of ?c "Some n" "woken @ [n]"] Cons.prems by auto
  moreover have "cond_broadcast_loop c woken = cond_broadcast_loop ?c (woken @ [n])"
    using Cons.prems(2) by (subst cond_broadcast_loop.simps) simp
  ultimately show ?case using Cons.prems(1) by auto
qed

lemma cond_seg_suffix:
  "cond_seg c p x (xs @ zs) \<Longrightarrow>
     cond_seg c (if xs = [] then p else Some (last xs)) (if xs = [] then x else cd_next c (last xs)) zs"
proof (induction xs arbitrary: p x)
  case (Cons a xs)
  show ?case using Cons.IH [of "Some a" "cd_next c a"] Cons.prems by (cases xs) simp_all
qed simp

lemma cond_seg_mid:
  assumes "cond_seg c p x (xs @ n # ys)"
  shows "cd_task c n" "cd_prev c n = (if xs = [] then p else Some (last xs))"
    "cd_next c n = (if ys = [] then None else Some (hd ys))"
  using cond_seg_suffix [OF assms] by (cases ys; simp)+

lemma cond_timeout_mid:
  assumes "cond_seg c p x (xs @ n # ys)" "xs \<noteq> []"
  shows "cd_next (fst (cond_timeout n c)) = (cd_next c)(last xs := if last xs = n then cd_next c n else if ys = [] then None else Some (hd ys))"
    "cd_prev (fst (cond_timeout n c)) = (if ys = [] then cd_prev c else (cd_prev c)(hd ys := Some (last xs)))"
    "cd_task (fst (cond_timeout n c)) = cd_task c"
    "cd_waiters (fst (cond_timeout n c)) = (if cd_waiters c = Some n then None else cd_waiters c)"
    "snd (cond_timeout n c) = - 1"
  using cond_seg_mid [OF assms(1)] assms(2) by (auto simp: cond_timeout_def Let_def)

lemma cond_seg_remove:
  assumes "cond_seg c p x (xs @ n # ys)" "distinct (xs @ n # ys)" "xs \<noteq> []"
  shows "cond_seg (fst (cond_timeout n c)) p x (xs @ ys)"
  using assms
proof (induction xs arbitrary: p x)
  case (Cons a xs)
  note c' = cond_timeout_mid [OF Cons.prems(1) Cons.prems(3)]
  show ?case
  proof (cases xs)
    case Nil
    then show ?thesis
    proof (cases ys)
      case (Cons b bs)
      have "cond_seg (fst (cond_timeout n c)) (Some b) (cd_next c b) bs = cond_seg c (Some b) (cd_next c b) bs"
        using Cons.prems(2) Nil Cons by (intro cond_seg_frame) (auto simp: c')
      then show ?thesis using Cons.prems(1,2) Nil Cons by (auto simp: c')
    qed (use Cons.prems in \<open>auto simp: c'\<close>)
  next
    case (Cons a2 as)
    then have "cond_seg (fst (cond_timeout n c)) (Some a) (cd_next c a) (xs @ ys)"
      using Cons.IH [of "Some a" "cd_next c a"] Cons.prems by simp
    moreover have "last xs \<in> set xs" using Cons by simp
    then have "a \<noteq> last xs" "ys = [] \<or> a \<noteq> hd ys" using Cons.prems(2) by (auto simp del: last_in_set)
    ultimately show ?thesis using Cons.prems(1) Cons by (auto simp: c')
  qed
qed simp

lemma cond_timeout_tail:
  assumes "cond_list c (xs @ n # ys)" "xs \<noteq> []"
  shows "cond_list (fst (cond_timeout n c)) (xs @ ys)" "snd (cond_timeout n c) = - 1"
proof -
  have s: "cond_seg c None (cd_waiters c) (xs @ n # ys)" "distinct (xs @ n # ys)" using assms(1) by (simp_all add: cond_list_def)
  have "cd_waiters c \<noteq> Some n" using s assms(2) by (cases xs) auto
  then show "cond_list (fst (cond_timeout n c)) (xs @ ys)"
    using cond_seg_remove [OF s assms(2)] s(2) cond_timeout_mid(4) [OF s(1) assms(2)] by (simp add: cond_list_def)
  show "snd (cond_timeout n c) = - 1" by (rule cond_timeout_mid(5) [OF s(1) assms(2)])
qed

section \<open>Sequences of operations on a condition\<close>

text \<open>
  An operation returns the tasks it woke, in order, and its result.  A call that timed out takes its node
  with it when it returns.
\<close>

datatype cond_cmd = CdWait nat | CdTimeout nat | CdSignal | CdBroadcast

fun cond_exec :: "cond_cmd \<Rightarrow> task_cond \<Rightarrow> (task_cond \<times> nat list \<times> int) option" where
  "cond_exec (CdWait n) c = Some (cond_enqueue n c, [], 0)"
| "cond_exec (CdTimeout n) c =
     (let (c', r) = cond_timeout n c in Some (c'\<lparr>cd_task := (cd_task c')(n := False)\<rparr>, [], r))"
| "cond_exec CdSignal c = (let (c', w) = hev_task_cond_signal c in Some (c', case w of None \<Rightarrow> [] | Some n \<Rightarrow> [n], 0))"
| "cond_exec CdBroadcast c = map_option (\<lambda>(c', ws). (c', ws, 0)) (hev_task_cond_broadcast c)"

fun cond_run :: "cond_cmd list \<Rightarrow> task_cond \<Rightarrow> (task_cond \<times> (nat list \<times> int) list) option" where
  "cond_run [] c = Some (c, [])"
| "cond_run (k # ks) c =
     Option.bind (cond_exec k c) (\<lambda>(c1, out). map_option (\<lambda>(c2, outs). (c2, out # outs)) (cond_run ks c1))"

text \<open>
  The specification: the tasks that wait, the last one to come first.  A task waits once at a time; the
  last one to come may only time out while it is alone.
\<close>

fun stack_exec :: "cond_cmd \<Rightarrow> nat list \<Rightarrow> (nat list \<times> nat list \<times> int) option" where
  "stack_exec (CdWait n) ns = (if n \<in> set ns then None else Some (n # ns, [], 0))"
| "stack_exec (CdTimeout n) ns =
     (if n \<notin> set ns then Some (ns, [], 0)
      else if n = hd ns \<and> tl ns \<noteq> [] then None else Some (remove1 n ns, [], - 1))"
| "stack_exec CdSignal ns = Some (tl ns, take 1 ns, 0)"
| "stack_exec CdBroadcast ns = Some ([], ns, 0)"

fun stack_run :: "cond_cmd list \<Rightarrow> nat list \<Rightarrow> (nat list \<times> (nat list \<times> int) list) option" where
  "stack_run [] ns = Some (ns, [])"
| "stack_run (k # ks) ns =
     Option.bind (stack_exec k ns) (\<lambda>(ns1, out). map_option (\<lambda>(ns2, outs). (ns2, out # outs)) (stack_run ks ns1))"

definition cond_repr :: "task_cond \<Rightarrow> nat list \<Rightarrow> bool" where
  "cond_repr c ns \<longleftrightarrow> cond_list c ns \<and> (\<forall>m. m \<notin> set ns \<longrightarrow> \<not> cd_task c m)"

lemma cond_repr_init: "cond_repr hev_task_cond_init []"
  by (simp add: cond_repr_def cond_list_def hev_task_cond_init_def)

lemma cond_list_task: "cond_list c ns \<Longrightarrow> m \<in> set ns \<Longrightarrow> cd_task c m"
  by (metis cond_list_def cond_seg_mid(1) split_list)

lemma cond_list_clear: "cond_list c ns \<Longrightarrow> n \<notin> set ns \<Longrightarrow> cond_list (c\<lparr>cd_task := (cd_task c)(n := False)\<rparr>) ns"
  using cond_seg_frame [of ns "c\<lparr>cd_task := (cd_task c)(n := False)\<rparr>" c None "cd_waiters c"]
  unfolding cond_list_def by (metis (no_types, lifting) fun_upd_other task_cond.ext_inject task_cond.surjective task_cond.update_convs(4))

lemma cond_enqueue_repr:
  assumes "cond_repr c ns" "n \<notin> set ns"
  shows "cond_repr (cond_enqueue n c) (n # ns)"
proof -
  have "cd_task (cond_enqueue n c) = (cd_task c)(n := True)" by (simp add: cond_enqueue_def Let_def split: option.splits)
  then show ?thesis using cond_enqueue_list [of c ns n] assms by (auto simp: cond_repr_def)
qed

lemma cond_timeout_repr:
  assumes "cond_repr c ns" "stack_exec (CdTimeout n) ns = Some q"
  shows "\<exists>c'. cond_exec (CdTimeout n) c = Some (c', snd q) \<and> cond_repr c' (fst q)"
proof (cases "n \<in> set ns")
  case False
  then have "cond_timeout n c = (c, 0)" using assms(1) by (simp add: cond_repr_def cond_timeout_def)
  then show ?thesis using False assms by (auto simp: cond_repr_def cond_list_clear)
next
  case True
  then obtain xs ys where ns: "ns = xs @ n # ys" "n \<notin> set xs" by (meson split_list_first)
  have d: "distinct ns" using assms(1) by (simp add: cond_repr_def cond_list_def)
  have q: "q = (xs @ ys, [], - 1)" "xs = [] \<longrightarrow> ys = []" using assms(2) True ns by (auto simp: remove1_append split: if_splits)
  obtain c' r where c': "cond_timeout n c = (c', r)" by fastforce
  have "cond_list c' (xs @ ys) \<and> r = - 1 \<and> cd_task c' = cd_task c"
  proof (cases "xs = []")
    case True
    then show ?thesis using q(2) assms(1) ns c' by (auto simp: cond_repr_def cond_list_def cond_timeout_def)
  next
    case xs: False
    have "cond_list c (xs @ n # ys)" using assms(1) ns by (simp add: cond_repr_def)
    then show ?thesis using cond_timeout_tail [of c xs n ys] cond_timeout_mid(3) [of c None "cd_waiters c" xs n ys] xs c'
      by (simp add: cond_list_def)
  qed
  moreover from this have "cond_list (c'\<lparr>cd_task := (cd_task c')(n := False)\<rparr>) (xs @ ys)" using d ns by (intro cond_list_clear) auto
  ultimately show ?thesis using c' q ns assms(1) by (auto simp: cond_repr_def)
qed

lemma cond_signal_repr:
  assumes "cond_repr c ns"
  shows "\<exists>c'. cond_exec CdSignal c = Some (c', take 1 ns, 0) \<and> cond_repr c' (tl ns)"
proof (cases ns)
  case Nil
  then show ?thesis using assms by (simp add: cond_repr_def cond_list_def hev_task_cond_signal_def)
next
  case (Cons n xs)
  then have l: "cond_list c (n # xs)" using assms by (simp add: cond_repr_def)
  have "cd_task (fst (hev_task_cond_signal c)) = (cd_task c)(n := False)"
    using l by (auto simp: cond_list_def hev_task_cond_signal_def Let_def split: option.splits)
  then show ?thesis using cond_signal_list [OF l] assms Cons by (cases "hev_task_cond_signal c") (auto simp: cond_repr_def)
qed

lemma cond_broadcast_repr:
  assumes "cond_repr c ns"
  shows "\<exists>c'. cond_exec CdBroadcast c = Some (c', ns, 0) \<and> cond_repr c' []"
proof -
  have l: "distinct ns" "cond_seg c None (cd_waiters c) ns" "\<forall>m. m \<notin> set ns \<longrightarrow> \<not> cd_task c m"
    using assms by (simp_all add: cond_repr_def cond_list_def)
  show ?thesis using cond_broadcast_seg [OF l(1,2), of "[]"] l(3)
    by (auto simp: cond_repr_def cond_list_def hev_task_cond_broadcast_def)
qed

lemma cond_exec_refines:
  assumes "cond_repr c ns" "stack_exec k ns = Some q"
  shows "\<exists>c'. cond_exec k c = Some (c', snd q) \<and> cond_repr c' (fst q)"
proof (cases k)
  case (CdWait n)
  then show ?thesis using assms cond_enqueue_repr by (auto split: if_splits)
next
  case (CdTimeout n)
  then show ?thesis using assms cond_timeout_repr by blast
next
  case CdSignal
  then show ?thesis using assms cond_signal_repr [OF assms(1)] by auto
next
  case CdBroadcast
  then show ?thesis using assms cond_broadcast_repr [OF assms(1)] by auto
qed

section \<open>Properties\<close>

text \<open>
  C37: The mutex excludes: in every state the tasks can reach by locking, trying to lock, unlocking and
  being woken in any order, at most one task holds the mutex, and the mutex is marked locked exactly
  while a task holds it.  No wakeup is lost: while the mutex is free and tasks wait for it, one of them
  is awake and gets the mutex when it runs.
\<close>

theorem mutex_is_safe:
  assumes "mutex_reach s"
  shows "(\<forall>t u. holds s t \<and> holds s u \<longrightarrow> t = u) \<and> (locker (mx s) \<longleftrightarrow> (\<exists>t. holds s t)) \<and>
    (\<not> locker (mx s) \<and> (\<exists>t. waits s t) \<longrightarrow> (\<exists>t m. awake s t \<and> waits s t \<and> mutex_lock_resume t (mx s) = (m, True)))"
proof -
  have i: "mutex_inv s" by (rule mutex_reach_inv [OF assms])
  have "\<exists>t m. awake s t \<and> waits s t \<and> mutex_lock_resume t (mx s) = (m, True)" if "\<not> locker (mx s)" "waits s u" for u
  proof -
    have "mwaiters (mx s) \<noteq> []" using i that(2) by (auto simp: mutex_inv_def)
    moreover from this have "waits s (hd (mwaiters (mx s)))" using i hd_in_set by (fastforce simp: mutex_inv_def)
    ultimately show ?thesis using i that(1) by (auto simp: mutex_inv_def mutex_lock_resume_def)
  qed
  then show ?thesis using i by (auto simp: mutex_inv_def)
qed

text \<open>A run: task 1 locks, task 2 waits, task 1 unlocks.\<close>

definition mutex_demo :: mutex_sys where
  "mutex_demo =
     (let s1 = after_lock 1 (fst (mutex_lock_begin 1 (mx mutex_start))) True mutex_start;
          s2 = after_lock 2 (fst (mutex_lock_begin 2 (mx s1))) False s1 in
      s2\<lparr>mx := fst (hev_task_mutex_unlock (mx s2)), holds := (holds s2)(1 := False), awake := (awake s2)(2 := True)\<rparr>)"

definition mutex_self_demo :: mutex_sys where
  "mutex_self_demo =
     (let s1 = after_lock 1 (fst (mutex_lock_begin 1 (mx mutex_start))) True mutex_start in
      after_lock 1 (fst (mutex_lock_begin 1 (mx s1))) False s1)"

lemmas mutex_demo_defs = mutex_demo_def mutex_self_demo_def mutex_start_def hev_task_mutex_init_def after_lock_def
  mutex_lock_begin_def mutex_lock_resume_def hev_task_mutex_unlock_def Let_def

lemma mutex_reach_locked: "mutex_reach (after_lock 1 (fst (mutex_lock_begin 1 (mx mutex_start))) True mutex_start)"
  by (rule mutex_reach_step [OF mutex_reach_start], rule do_lock) (simp_all add: mutex_demo_defs)

lemma mutex_reach_self_demo: "mutex_reach mutex_self_demo"
  unfolding mutex_self_demo_def Let_def
  by (rule mutex_reach_step [OF mutex_reach_locked], rule do_lock) (simp_all add: mutex_demo_defs)

lemma mutex_reach_demo: "mutex_reach mutex_demo"
proof -
  let ?s1 = "after_lock 1 (fst (mutex_lock_begin 1 (mx mutex_start))) True mutex_start"
  let ?s2 = "after_lock 2 (fst (mutex_lock_begin 2 (mx ?s1))) False ?s1"
  have "mutex_reach ?s2"
    by (rule mutex_reach_step [OF mutex_reach_locked], rule do_lock) (simp_all add: mutex_demo_defs)
  moreover have "mutex_step ?s2 (?s2\<lparr>mx := fst (hev_task_mutex_unlock (mx ?s2)), holds := (holds ?s2)(1 := False),
      awake := (case Some 2 of None \<Rightarrow> awake ?s2 | Some u \<Rightarrow> (awake ?s2)(u := True))\<rparr>)"
    by (rule do_unlock) (simp_all add: mutex_demo_defs)
  ultimately show ?thesis using mutex_reach_step unfolding mutex_demo_def Let_def by fastforce
qed

theorem mutex_is_safe_witness:
  "\<not> locker (mx mutex_demo) \<and> waits mutex_demo 2 \<and>
     (\<exists>t m. awake mutex_demo t \<and> waits mutex_demo t \<and> mutex_lock_resume t (mx mutex_demo) = (m, True))"
proof -
  have "\<not> locker (mx mutex_demo)" "waits mutex_demo 2" by (simp_all add: mutex_demo_defs)
  then show ?thesis using mutex_is_safe [OF mutex_reach_demo] by blast
qed

text \<open>
  C38: The mutex is not recursive: a task that locks a mutex it holds is stuck for ever, and with it
  every other task that wants the mutex.  Whatever the tasks do from then on, it holds the mutex and
  waits for it, and no other task gets it.
\<close>

theorem self_lock_is_forever:
  assumes "mutex_reach s" "holds s t" "waits s t" "mutex_step\<^sup>*\<^sup>* s s'"
  shows "holds s' t \<and> waits s' t \<and> (\<forall>u. u \<noteq> t \<longrightarrow> \<not> holds s' u)"
proof -
  have "mutex_reach s' \<and> holds s' t \<and> waits s' t" using assms(4)
  proof (induction rule: rtranclp_induct)
    case (step y z)
    then show ?case using stuck_step [OF step.hyps(2) mutex_reach_inv, of t] mutex_reach_step by blast
  qed (use assms in simp)
  then show ?thesis using mutex_reach_inv [of s'] by (auto simp: mutex_inv_def)
qed

theorem self_lock_is_forever_witness:
  "holds (after_lock 2 (fst (mutex_lock_begin 2 (mx mutex_self_demo))) False mutex_self_demo) 1 \<and>
   waits (after_lock 2 (fst (mutex_lock_begin 2 (mx mutex_self_demo))) False mutex_self_demo) 1 \<and>
   \<not> holds (after_lock 2 (fst (mutex_lock_begin 2 (mx mutex_self_demo))) False mutex_self_demo) 2"
proof -
  have h: "holds mutex_self_demo 1" "waits mutex_self_demo 1" by (simp_all add: mutex_demo_defs)
  have "mutex_step mutex_self_demo (after_lock 2 (fst (mutex_lock_begin 2 (mx mutex_self_demo))) False mutex_self_demo)"
    by (rule do_lock) (simp_all add: mutex_demo_defs)
  from self_lock_is_forever [OF mutex_reach_self_demo h r_into_rtranclp [of mutex_step, OF this]] show ?thesis by simp
qed

text \<open>
  C39: The condition is a stack of the tasks that wait: every sequence of waits, signals, broadcasts and
  timeouts keeps the list of the nodes intact, a signal wakes the last task that came, a broadcast ends
  and wakes every task exactly once, and a timeout takes out only the task itself, as long as the last
  task that came does not time out before the others.
\<close>

theorem cond_run_refines:
  assumes "cond_repr c ns" "stack_run ks ns = Some (ns', outs)"
  shows "\<exists>c'. cond_run ks c = Some (c', outs) \<and> cond_repr c' ns'"
  using assms
proof (induction ks arbitrary: c ns outs)
  case (Cons k ks)
  obtain q where q: "stack_exec k ns = Some q" using Cons.prems(2) by (cases "stack_exec k ns") simp_all
  obtain outs2 where r: "stack_run ks (fst q) = Some (ns', outs2)" "outs = snd q # outs2"
    using Cons.prems(2) q by (cases q) auto
  obtain c1 where c1: "cond_exec k c = Some (c1, snd q)" "cond_repr c1 (fst q)"
    using cond_exec_refines [OF Cons.prems(1) q] by blast
  then show ?case using Cons.IH [OF c1(2) r(1)] r(2) by auto
qed simp

theorem cond_run_refines_witness:
  "\<exists>c'. cond_run [CdWait 1, CdWait 2, CdWait 3, CdTimeout 2, CdSignal, CdTimeout 3, CdWait 4, CdBroadcast] hev_task_cond_init =
      Some (c', [([], 0), ([], 0), ([], 0), ([], - 1), ([3], 0), ([], 0), ([], 0), ([4, 1], 0)]) \<and> cond_repr c' []"
  by (rule cond_run_refines [OF cond_repr_init]) simp

text \<open>
  C40: A timeout of the last task that came loses the others: it empties the list, so that no signal and
  no broadcast wakes any of them, though their nodes still mark them as waiting.
\<close>

theorem timeout_loses_waiters:
  assumes "cond_repr c (n # ns)"
  shows "\<exists>c'. cond_timeout n c = (c', - 1) \<and> (\<forall>m \<in> set ns. cd_task c' m) \<and>
    hev_task_cond_signal c' = (c', None) \<and> hev_task_cond_broadcast c' = Some (c', [])"
proof -
  have l: "cond_seg c None (cd_waiters c) ([] @ n # ns)" "cond_list c (n # ns)" using assms by (auto simp: cond_repr_def cond_list_def)
  obtain c' where c': "cond_timeout n c = (c', - 1)" "cd_task c' = cd_task c" "cd_waiters c' = None"
    using cond_seg_mid [OF l(1)] l(1) by (cases ns) (auto simp: cond_timeout_def Let_def)
  have "hev_task_cond_broadcast c' = Some (c', [])"
    using c'(3) unfolding hev_task_cond_broadcast_def by (subst cond_broadcast_loop.simps) simp
  then show ?thesis using c' cond_list_task [OF l(2)] by (auto simp: hev_task_cond_signal_def)
qed

theorem timeout_loses_waiters_witness:
  "\<exists>c c'. cond_run [CdWait 1, CdWait 2, CdWait 3] hev_task_cond_init = Some (c, [([], 0), ([], 0), ([], 0)]) \<and>
     cond_timeout 3 c = (c', - 1) \<and> cd_task c' 2 \<and> cd_task c' 1 \<and>
     hev_task_cond_signal c' = (c', None) \<and> hev_task_cond_broadcast c' = Some (c', [])"
proof -
  have "cond_repr (cond_enqueue 3 (cond_enqueue 2 (cond_enqueue 1 hev_task_cond_init))) (3 # [2, 1])"
    by (intro cond_enqueue_repr cond_repr_init) simp_all
  from timeout_loses_waiters [OF this] show ?thesis by auto
qed

end
