(* ===== verification/Pbuf.thy ===== *)
theory Pbuf
  imports Prelude
begin

text \<open>
  The packet buffers of lwIP, \<^verbatim>\<open>third-part/lwip/src/core/pbuf.c\<close>, in which data travels between the
  tunnel and the sessions.  A chain of buffers is the list of its buffers from the head on; the
  pointer \<^verbatim>\<open>NULL\<close> is the empty list.  The length of a buffer is that of its payload; the fields
  \<^verbatim>\<open>tot_len\<close> and \<^verbatim>\<open>ref\<close> wrap around as their C types do.
\<close>

section \<open>Buffers and chains\<close>

record pbuf =
  payload :: "byte list"
  tot_len :: nat
  pref :: nat

abbreviation plen :: "pbuf \<Rightarrow> nat" where
  "plen p \<equiv> length (payload p)"

datatype pbuf_err = ERR_OK | ERR_MEM | ERR_ARG

definition u16 :: "nat \<Rightarrow> nat" where
  "u16 n = n mod 65536"

definition u16_sub :: "nat \<Rightarrow> nat \<Rightarrow> nat" where
  "u16_sub a b = (a + 65536 - b) mod 65536"

definition chain_tot :: "pbuf list \<Rightarrow> nat" where
  "chain_tot ps = (case ps of [] \<Rightarrow> 0 | p # _ \<Rightarrow> tot_len p)"

section \<open>The operations\<close>

definition pbuf_remove_header :: "pbuf \<Rightarrow> nat \<Rightarrow> pbuf \<times> nat" where
  "pbuf_remove_header p n =
     (if n > 65535 then (p, 1)
      else if n = 0 then (p, 0)
      else if n > plen p then (p, 1)
      else (p\<lparr>payload := drop n (payload p), tot_len := u16_sub (tot_len p) n\<rparr>, 0))"

text \<open>Dropping a reference: the buffers still alive and the number of buffers given back, a \<^verbatim>\<open>u8_t\<close>.\<close>

fun pbuf_free :: "pbuf list \<Rightarrow> pbuf list \<times> nat" where
  "pbuf_free [] = ([], 0)"
| "pbuf_free (p # q) =
     (let ref = (pref p + 255) mod 256 in
      if ref = 0 then let (r, count) = pbuf_free q in (r, (count + 1) mod 256)
      else (p\<lparr>pref := ref\<rparr> # q, 0))"

fun pbuf_free_header :: "pbuf list \<Rightarrow> nat \<Rightarrow> pbuf list" where
  "pbuf_free_header [] free_left = []"
| "pbuf_free_header (p # q) free_left =
     (if free_left = 0 then p # q
      else if free_left \<ge> plen p then pbuf_free_header q (u16_sub free_left (plen p))
      else fst (pbuf_remove_header p free_left) # q)"

fun pbuf_clen :: "pbuf list \<Rightarrow> nat" where
  "pbuf_clen [] = 0"
| "pbuf_clen (p # q) = u16 (pbuf_clen q + 1)"

definition pbuf_ref :: "pbuf list \<Rightarrow> pbuf list" where
  "pbuf_ref ps = (case ps of [] \<Rightarrow> [] | p # q \<Rightarrow> p\<lparr>pref := (pref p + 1) mod 256\<rparr> # q)"

definition pbuf_cat :: "pbuf list \<Rightarrow> pbuf list \<Rightarrow> pbuf list" where
  "pbuf_cat h t =
     (if h = [] \<or> t = [] then h
      else map (\<lambda>p. p\<lparr>tot_len := u16 (tot_len p + chain_tot t)\<rparr>) h @ t)"

definition pbuf_chain :: "pbuf list \<Rightarrow> pbuf list \<Rightarrow> pbuf list" where
  "pbuf_chain h t = (if h = [] \<or> t = [] then h else pbuf_cat h (pbuf_ref t))"

text \<open>
  \<^verbatim>\<open>pbuf_dechain\<close>: the first buffer on its own, and the returned pointer with what is alive behind
  it; \<^term>\<open>None\<close> is \<^verbatim>\<open>NULL\<close>.
\<close>

definition pbuf_dechain :: "pbuf \<Rightarrow> pbuf list \<Rightarrow> pbuf \<times> pbuf list option" where
  "pbuf_dechain p q =
     (case q of
        [] \<Rightarrow> (p, None)
      | q0 # qs \<Rightarrow>
          let q1 = q0\<lparr>tot_len := u16_sub (tot_len p) (plen p)\<rparr> # qs;
              (alive, tail_gone) = pbuf_free q1 in
          (p\<lparr>tot_len := plen p\<rparr>, if tail_gone > 0 then None else Some alive))"

fun copy_partial_loop :: "pbuf list \<Rightarrow> nat \<Rightarrow> nat \<Rightarrow> byte list" where
  "copy_partial_loop [] len off = []"
| "copy_partial_loop (p # q) len off =
     (if len = 0 then []
      else if off \<noteq> 0 \<and> off \<ge> plen p then copy_partial_loop q len (u16_sub off (plen p))
      else let n = min (u16_sub (plen p) off) len in
        take n (drop off (payload p)) @ copy_partial_loop q (u16_sub len n) 0)"

text \<open>The bytes copied to the caller's buffer; their number is returned as a \<^verbatim>\<open>u16_t\<close>.\<close>

definition pbuf_copy_partial :: "pbuf list \<Rightarrow> nat \<Rightarrow> nat \<Rightarrow> byte list \<times> nat" where
  "pbuf_copy_partial buf len off =
     (let bs = copy_partial_loop buf len off in (bs, u16 (length bs)))"

fun pbuf_skip :: "pbuf list \<Rightarrow> nat \<Rightarrow> pbuf list \<times> nat" where
  "pbuf_skip [] off = ([], off)"
| "pbuf_skip (p # q) off = (if plen p \<le> off then pbuf_skip q (u16_sub off (plen p)) else (p # q, off))"

text \<open>The loop of \<^verbatim>\<open>pbuf_take\<close>; \<^term>\<open>None\<close> runs past the end of the chain.\<close>

fun take_loop :: "pbuf list \<Rightarrow> byte list \<Rightarrow> pbuf list option" where
  "take_loop ps [] = Some ps"
| "take_loop [] (b # bs) = None"
| "take_loop (p # ps) (b # bs) =
     (let n = min (length (b # bs)) (plen p) in
      map_option ((#) (p\<lparr>payload := take n (b # bs) @ drop n (payload p)\<rparr>)) (take_loop ps (drop n (b # bs))))"

definition pbuf_take :: "pbuf list \<Rightarrow> byte list \<Rightarrow> (pbuf list \<times> pbuf_err) option" where
  "pbuf_take buf bs =
     (if buf = [] then Some (buf, ERR_ARG)
      else if chain_tot buf < length bs then Some (buf, ERR_MEM)
      else map_option (\<lambda>ps. (ps, ERR_OK)) (take_loop buf bs))"

text \<open>The part before the buffer that \<^verbatim>\<open>pbuf_skip\<close> finds stays as it is.\<close>

definition skipped :: "pbuf list \<Rightarrow> pbuf list \<Rightarrow> pbuf list" where
  "skipped buf q = take (length buf - length q) buf"

definition pbuf_take_at :: "pbuf list \<Rightarrow> byte list \<Rightarrow> nat \<Rightarrow> (pbuf list \<times> pbuf_err) option" where
  "pbuf_take_at buf bs off =
     (case pbuf_skip buf off of
        ([], _) \<Rightarrow> Some (buf, ERR_MEM)
      | (p # q, target) \<Rightarrow>
          if tot_len p \<ge> target + length bs then
            let n = min (plen p - target) (length bs);
                p1 = p\<lparr>payload := take target (payload p) @ take n bs @ drop (target + n) (payload p)\<rparr> in
            if length bs - n > 0 then
              map_option (\<lambda>(q1, e). (skipped buf (p # q) @ p1 # q1, e)) (pbuf_take q (drop n bs))
            else Some (skipped buf (p # q) @ p1 # q, ERR_OK)
          else Some (buf, ERR_MEM))"

definition pbuf_try_get_at :: "pbuf list \<Rightarrow> nat \<Rightarrow> int" where
  "pbuf_try_get_at ps off =
     (case pbuf_skip ps off of
        ([], _) \<Rightarrow> - 1
      | (p # _, i) \<Rightarrow> if plen p > i then int (unat (payload p ! i)) else - 1)"

definition pbuf_get_at :: "pbuf list \<Rightarrow> nat \<Rightarrow> byte" where
  "pbuf_get_at ps off = (let ret = pbuf_try_get_at ps off in if ret \<ge> 0 then of_int ret else 0)"

definition pbuf_put_at :: "pbuf list \<Rightarrow> nat \<Rightarrow> byte \<Rightarrow> pbuf list" where
  "pbuf_put_at ps off b =
     (case pbuf_skip ps off of
        ([], _) \<Rightarrow> ps
      | (p # q, i) \<Rightarrow>
          if plen p > i then skipped ps (p # q) @ p\<lparr>payload := (payload p)[i := b]\<rparr> # q else ps)"

fun memcmp_loop :: "pbuf list \<Rightarrow> nat \<Rightarrow> nat \<Rightarrow> byte list \<Rightarrow> nat" where
  "memcmp_loop q start i [] = 0"
| "memcmp_loop q start i (b # s2) =
     (if pbuf_get_at q (u16 (start + i)) \<noteq> b then u16 (min (i + 1) 65535)
      else memcmp_loop q start (i + 1) s2)"

definition pbuf_memcmp :: "pbuf list \<Rightarrow> nat \<Rightarrow> byte list \<Rightarrow> nat" where
  "pbuf_memcmp ps off s2 =
     (if chain_tot ps < off + length s2 then 65535
      else let (q, start) = pbuf_skip ps off in memcmp_loop q start 0 s2)"

text \<open>
  \<^verbatim>\<open>pbuf_memfind\<close>.  The counter of its loop could only wrap with an empty pattern, which is found
  in the first round.
\<close>

definition pbuf_memfind :: "pbuf list \<Rightarrow> byte list \<Rightarrow> nat \<Rightarrow> nat" where
  "pbuf_memfind ps mem start =
     (let max_cmp_start = u16_sub (chain_tot ps) (length mem) in
      if chain_tot ps \<ge> length mem + start then
        case find (\<lambda>i. pbuf_memcmp ps i mem = 0) [start ..< max_cmp_start + 1] of
          Some i \<Rightarrow> i
        | None \<Rightarrow> 65535
      else 65535)"

text \<open>\<^verbatim>\<open>pbuf_realloc\<close> shrinks a chain; running past its end is \<^term>\<open>None\<close>.\<close>

fun realloc_loop :: "pbuf list \<Rightarrow> nat \<Rightarrow> nat \<Rightarrow> pbuf list option" where
  "realloc_loop [] rem_len shrink = None"
| "realloc_loop (q # qs) rem_len shrink =
     (if rem_len > plen q then
        map_option ((#) (q\<lparr>tot_len := u16_sub (tot_len q) shrink\<rparr>)) (realloc_loop qs (u16_sub rem_len (plen q)) shrink)
      else Some [q\<lparr>payload := take rem_len (payload q), tot_len := rem_len\<rparr>])"

definition pbuf_realloc :: "pbuf list \<Rightarrow> nat \<Rightarrow> pbuf list option" where
  "pbuf_realloc ps new_len =
     (if new_len \<ge> chain_tot ps then Some ps
      else realloc_loop ps new_len (u16_sub (chain_tot ps) new_len))"

section \<open>Well-formed chains\<close>

fun contents :: "pbuf list \<Rightarrow> byte list" where
  "contents [] = []"
| "contents (p # ps) = payload p @ contents ps"

text \<open>The invariant in the comment of \<^verbatim>\<open>struct pbuf\<close>, for a packet of at most 65535 bytes.\<close>

fun chain_ok :: "pbuf list \<Rightarrow> bool" where
  "chain_ok [] \<longleftrightarrow> True"
| "chain_ok (p # ps) \<longleftrightarrow> tot_len p = plen p + length (contents ps) \<and> tot_len p < 65536 \<and> chain_ok ps"

lemma contents_append [simp]: "contents (ps @ qs) = contents ps @ contents qs"
  by (induction ps) simp_all

lemma chain_tot_ok: "chain_ok ps \<Longrightarrow> chain_tot ps = length (contents ps)"
  by (cases ps) (simp_all add: chain_tot_def)

lemma chain_ok_len: "chain_ok ps \<Longrightarrow> length (contents ps) < 65536"
  by (cases ps) simp_all

lemma u16_sub_id [simp]: "b \<le> a \<Longrightarrow> a < 65536 \<Longrightarrow> u16_sub a b = a - b"
  using mod_add_self2 [of "a - b" 65536] by (simp add: u16_sub_def)

lemma u16_id [simp]: "n < 65536 \<Longrightarrow> u16 n = n"
  by (simp add: u16_def)

text \<open>A chain behind a prefix, and a chain whose payloads are rewritten in place.\<close>

lemma chain_ok_rewrite:
  assumes "chain_ok (ps @ qs)" "chain_ok qs'" "length (contents qs') = length (contents qs)"
  shows "chain_ok (ps @ qs')"
  using assms by (induction ps) simp_all

lemma chain_ok_suffix: "chain_ok (ps @ qs) \<Longrightarrow> chain_ok qs"
  by (induction ps) simp_all

lemma free_header_ok:
  assumes "chain_ok ps" "n < 65536"
  shows "contents (pbuf_free_header ps n) = drop n (contents ps) \<and> chain_ok (pbuf_free_header ps n)"
  using assms by (induction ps n rule: pbuf_free_header.induct) (auto simp: pbuf_remove_header_def)

lemma cat_ok:
  assumes "chain_ok h" "chain_ok t" "h \<noteq> []" "length (contents h) + length (contents t) < 65536"
  shows "contents (pbuf_cat h t) = contents h @ contents t \<and> chain_ok (pbuf_cat h t)"
proof (cases "t = []")
  case False
  let ?f = "\<lambda>p. p\<lparr>tot_len := u16 (tot_len p + chain_tot t)\<rparr>"
  have "contents (map ?f h @ t) = contents h @ contents t" by (induction h) simp_all
  moreover have "chain_ok (map ?f h @ t)"
    using assms(1,2,4)
  proof (induction h)
    case (Cons p h)
    have "contents (map ?f h) = contents h" by (induction h) simp_all
    then show ?case using Cons by (simp add: chain_tot_ok)
  qed simp
  ultimately show ?thesis using False assms(3) by (simp add: pbuf_cat_def)
qed (use assms in \<open>simp add: pbuf_cat_def\<close>)

lemma copy_partial_ok:
  assumes "chain_ok ps" "n < 65536" "off < 65536"
  shows "copy_partial_loop ps n off = take n (drop off (contents ps))"
  using assms
proof (induction ps n off rule: copy_partial_loop.induct)
  case (2 p q len off)
  show ?case
  proof (cases "len = 0 \<or> off \<noteq> 0 \<and> off \<ge> plen p")
    case True
    then show ?thesis using 2 by auto
  next
    case False
    then have off: "off \<le> plen p" by auto
    let ?n = "min (plen p - off) len"
    have "copy_partial_loop (p # q) len off = take ?n (drop off (payload p)) @ take (len - ?n) (contents q)"
      using False 2 off by (simp add: Let_def)
    then show ?thesis using off by (simp add: min_def)
  qed
qed simp

lemma skip_ok:
  assumes "chain_ok ps" "off < 65536" "pbuf_skip ps off = (q, i)"
  shows "ps = skipped ps q @ q \<and> drop off (contents ps) = drop i (contents q) \<and> (q = [] \<or> i < plen (hd q)) \<and>
    (q = [] \<longleftrightarrow> length (contents ps) \<le> off) \<and> (q \<noteq> [] \<longrightarrow> off = length (contents (skipped ps q)) + i)"
  using assms
proof (induction ps off rule: pbuf_skip.induct)
  case (2 p ps off)
  show ?case
  proof (cases "plen p \<le> off")
    case True
    have "off - plen p < 65536" using 2(3) by simp
    then have IH: "ps = skipped ps q @ q \<and> drop (off - plen p) (contents ps) = drop i (contents q) \<and> (q = [] \<or> i < plen (hd q)) \<and>
      (q = [] \<longleftrightarrow> length (contents ps) \<le> off - plen p) \<and> (q \<noteq> [] \<longrightarrow> off - plen p = length (contents (skipped ps q)) + i)"
      using 2 True by auto
    then have "length q \<le> length ps" by (metis le_add2 length_append)
    then have "skipped (p # ps) q = p # skipped ps q" by (simp add: skipped_def Suc_diff_le)
    then show ?thesis using IH True by auto
  next
    case False
    then show ?thesis using 2 by (auto simp: skipped_def)
  qed
qed (simp add: skipped_def)

lemma take_loop_ok:
  assumes "chain_ok ps" "length bs \<le> length (contents ps)"
  shows "\<exists>qs. take_loop ps bs = Some qs \<and> chain_ok qs \<and> contents qs = bs @ drop (length bs) (contents ps)"
  using assms
proof (induction ps bs rule: take_loop.induct)
  case (3 p ps b bs)
  let ?bs = "b # bs" let ?n = "min (length ?bs) (plen p)"
  have "length (drop ?n ?bs) \<le> length (contents ps)" "chain_ok ps" using 3(2,3) by (auto simp: min_def)
  then obtain qs where qs: "take_loop ps (drop ?n ?bs) = Some qs" "chain_ok qs"
    "contents qs = drop ?n ?bs @ drop (length (drop ?n ?bs)) (contents ps)"
    using 3(1) [OF refl] by blast
  have "length (contents qs) = length (contents ps)" using 3(3) qs(3) by (auto simp: min_def)
  moreover have "?bs @ drop (length ?bs) (payload p @ contents ps) =
      take ?n ?bs @ drop ?n (payload p) @ drop ?n ?bs @ drop (length (drop ?n ?bs)) (contents ps)"
    by (cases "length ?bs \<le> plen p") (simp_all add: min_def)
  ultimately show ?case using qs 3(2) by (simp add: Let_def)
qed simp_all

text \<open>Storing bytes at an offset of a list of bytes.\<close>

definition store_at :: "nat \<Rightarrow> byte list \<Rightarrow> byte list \<Rightarrow> byte list" where
  "store_at off bs xs = take off xs @ bs @ drop (off + length bs) xs"

lemma take_at_ok:
  assumes "chain_ok ps" "off < 65536" "length bs < 65536"
  shows "\<exists>qs. pbuf_take_at ps bs off = Some (if off < length (contents ps) \<and> off + length bs \<le> length (contents ps)
      then (qs, ERR_OK) else (ps, ERR_MEM)) \<and>
    (off < length (contents ps) \<and> off + length bs \<le> length (contents ps) \<longrightarrow> chain_ok qs \<and> contents qs = store_at off bs (contents ps))"
proof -
  obtain q i where s: "pbuf_skip ps off = (q, i)" by fastforce
  note k = skip_ok [OF assms(1,2) s]
  show ?thesis
  proof (cases q)
    case Nil
    then show ?thesis using s k by (auto simp: pbuf_take_at_def)
  next
    case (Cons p r)
    let ?pre = "skipped ps q"
    have sp: "ps = ?pre @ p # r" and i: "i < plen p" and off: "off = length (contents ?pre) + i"
      using k Cons by auto
    have ok: "chain_ok (p # r)" using assms(1) chain_ok_suffix [of ?pre "p # r"] sp by simp
    have len: "length (contents ps) = length (contents ?pre) + plen p + length (contents r)" by (subst sp) simp
    show ?thesis
    proof (cases "tot_len p \<ge> i + length bs")
      case False
      then show ?thesis using s Cons ok off len by (simp add: pbuf_take_at_def)
    next
      case True
      let ?n = "min (plen p - i) (length bs)"
      let ?p1 = "p\<lparr>payload := take i (payload p) @ take ?n bs @ drop (i + ?n) (payload p)\<rparr>"
      have fits: "off < length (contents ps)" "off + length bs \<le> length (contents ps)" using True ok off len i by auto
      have p1: "plen ?p1 = plen p" using i by simp
      have "\<exists>r1. chain_ok r1 \<and> contents r1 = drop ?n bs @ drop (length (drop ?n bs)) (contents r) \<and>
          pbuf_take_at ps bs off = Some (?pre @ ?p1 # r1, ERR_OK)"
      proof (cases "length bs - ?n > 0")
        case more: True
        then have "length (drop ?n bs) \<le> length (contents r)" "r \<noteq> []" using True ok by (auto simp: min_def split: if_splits)
        moreover have "chain_ok r" using ok by simp
        ultimately show ?thesis using take_loop_ok [of r "drop ?n bs"] s Cons True more
          by (auto simp: pbuf_take_at_def pbuf_take_def Let_def chain_tot_ok)
      next
        case False
        then show ?thesis using s Cons True ok by (intro exI [of _ r]) (simp add: pbuf_take_at_def Let_def)
      qed
      then obtain r1 where r1: "chain_ok r1" "contents r1 = drop ?n bs @ drop (length (drop ?n bs)) (contents r)"
        "pbuf_take_at ps bs off = Some (?pre @ ?p1 # r1, ERR_OK)" by blast
      have l1: "length (contents r1) = length (contents r)" using r1(2) True ok by (auto simp: min_def split: if_splits)
      have "chain_ok (?p1 # r1)" using ok r1(1) l1 p1 by simp
      moreover have "length (contents (?p1 # r1)) = length (contents (p # r))" using l1 p1 by simp
      ultimately have "chain_ok (?pre @ ?p1 # r1)" using chain_ok_rewrite [of ?pre "p # r"] assms(1) sp by metis
      moreover have "contents (?pre @ ?p1 # r1) = store_at off bs (contents ps)"
      proof -
        have "store_at off bs (contents ps) = contents ?pre @ take i (payload p) @ bs @ drop (i + length bs) (payload p @ contents r)"
          unfolding store_at_def by (subst (1 2) sp) (use i off in simp)
        moreover have "bs @ drop (i + length bs) (payload p @ contents r) =
            take ?n bs @ drop (i + ?n) (payload p) @ drop ?n bs @ drop (length (drop ?n bs)) (contents r)"
          using i append_take_drop_id [of "plen p - i" bs]
          by (cases "length bs \<le> plen p - i") (auto simp: min_def add.commute simp flip: append_assoc)
        ultimately show ?thesis using r1(2) by simp
      qed
      ultimately show ?thesis using r1(3) fits by auto
    qed
  qed
qed

lemma put_at_ok:
  assumes "chain_ok ps" "off < 65536"
  shows "chain_ok (pbuf_put_at ps off b) \<and> contents (pbuf_put_at ps off b) = (contents ps)[off := b]"
proof -
  obtain q i where s: "pbuf_skip ps off = (q, i)" by fastforce
  note k = skip_ok [OF assms(1,2) s]
  show ?thesis
  proof (cases q)
    case Nil
    then have "length (contents ps) \<le> off" using k by simp
    then show ?thesis using s Nil assms(1) by (simp add: pbuf_put_at_def list_update_beyond)
  next
    case (Cons p r)
    let ?pre = "skipped ps q"
    have sp: "ps = ?pre @ p # r" and i: "i < plen p" and off: "off = length (contents ?pre) + i"
      using k Cons by auto
    have ok: "chain_ok (p # r)" using assms(1) chain_ok_suffix [of ?pre "p # r"] sp by simp
    then have "chain_ok (p\<lparr>payload := (payload p)[i := b]\<rparr> # r)" by simp
    then have "chain_ok (?pre @ p\<lparr>payload := (payload p)[i := b]\<rparr> # r)"
      using chain_ok_rewrite [of ?pre "p # r"] assms(1) sp by (metis contents.simps(2) length_append length_list_update select_convs(1) update_convs(1) surjective)
    moreover have "contents (?pre @ p\<lparr>payload := (payload p)[i := b]\<rparr> # r) = (contents ps)[off := b]"
      by (subst (2) sp) (use i off in \<open>simp add: list_update_append\<close>)
    ultimately show ?thesis using s Cons i by (simp add: pbuf_put_at_def)
  qed
qed

lemma realloc_loop_ok:
  assumes "chain_ok ps" "rem_len < length (contents ps)" "shrink = length (contents ps) - rem_len"
  shows "\<exists>qs. realloc_loop ps rem_len shrink = Some qs \<and> chain_ok qs \<and> contents qs = take rem_len (contents ps)"
  using assms
proof (induction ps rem_len shrink rule: realloc_loop.induct)
  case (2 q qs rem_len shrink)
  show ?case
  proof (cases "rem_len > plen q")
    case True
    then obtain rs where rs: "realloc_loop qs (rem_len - plen q) shrink = Some rs" "chain_ok rs"
      "contents rs = take (rem_len - plen q) (contents qs)"
      using 2 by fastforce
    then show ?thesis using True 2(2-4) by (auto simp: min_def)
  qed (use 2 in auto)
qed simp

lemma realloc_ok:
  assumes "chain_ok ps"
  shows "\<exists>qs. pbuf_realloc ps n = Some qs \<and> chain_ok qs \<and> contents qs = take n (contents ps)"
  using assms realloc_loop_ok [OF assms, of n] chain_ok_len [OF assms] by (auto simp: pbuf_realloc_def chain_tot_ok)

lemma get_at_ok:
  assumes "chain_ok ps" "off < 65536"
  shows "pbuf_try_get_at ps off = (if off < length (contents ps) then int (unat (contents ps ! off)) else - 1)"
    "pbuf_get_at ps off = (if off < length (contents ps) then contents ps ! off else 0)"
proof -
  obtain q i where s: "pbuf_skip ps off = (q, i)" by fastforce
  note k = skip_ok [OF assms s]
  show get: "pbuf_try_get_at ps off = (if off < length (contents ps) then int (unat (contents ps ! off)) else - 1)"
  proof (cases q)
    case Nil
    then show ?thesis using s k by (simp add: pbuf_try_get_at_def)
  next
    case (Cons p r)
    then have lt: "off < length (contents ps)" using k by auto
    have "contents ps ! off = hd (drop off (contents ps))" using lt by (simp add: hd_drop_conv_nth)
    also have "\<dots> = hd (drop i (payload p) @ drop (i - plen p) (contents r))"
      using arg_cong [OF conjunct1 [OF conjunct2 [OF k]], of hd] Cons by simp
    also have "\<dots> = payload p ! i" using k Cons by (simp add: hd_drop_conv_nth)
    finally show ?thesis using s k Cons lt by (simp add: pbuf_try_get_at_def)
  qed
  show "pbuf_get_at ps off = (if off < length (contents ps) then contents ps ! off else 0)"
    by (simp add: pbuf_get_at_def get Let_def)
qed

lemma memcmp_loop_ok:
  assumes "chain_ok q" "start + i + length s2 \<le> length (contents q)"
  shows "memcmp_loop q start i s2 = 0 \<longleftrightarrow> take (length s2) (drop (start + i) (contents q)) = s2"
  using assms(2)
proof (induction s2 arbitrary: i)
  case (Cons b s2)
  have lt: "start + i < length (contents q)" "start + i < 65536" using Cons.prems chain_ok_len [OF assms(1)] by auto
  have "u16 (min (i + 1) 65535) \<noteq> 0" by (simp add: u16_def min_def)
  moreover have "drop (start + i) (contents q) = contents q ! (start + i) # drop (Suc (start + i)) (contents q)"
    by (rule Cons_nth_drop_Suc [symmetric]) (rule lt)
  ultimately show ?case using Cons.IH [of "i + 1"] Cons.prems lt by (auto simp: get_at_ok(2) [OF assms(1)])
qed simp

lemma memcmp_ok:
  assumes "chain_ok ps" "off < 65536"
  shows "pbuf_memcmp ps off s2 = 0 \<longleftrightarrow> off + length s2 \<le> length (contents ps) \<and> take (length s2) (drop off (contents ps)) = s2"
proof -
  obtain q i where s: "pbuf_skip ps off = (q, i)" by fastforce
  note k = skip_ok [OF assms s]
  have q: "chain_ok q" using k assms(1) chain_ok_suffix by metis
  show ?thesis
  proof (cases "off + length s2 \<le> length (contents ps)")
    case True
    have "length (drop off (contents ps)) = length (drop i (contents q))" using k by metis
    then have "length s2 \<le> length (contents q) - i" using True by simp
    then have "i + 0 + length s2 \<le> length (contents q) \<or> s2 = []" by (cases s2) auto
    then show ?thesis using True s assms(1) memcmp_loop_ok [OF q, of i 0 s2] k
      by (auto simp: pbuf_memcmp_def chain_tot_ok)
  qed (use assms(1) in \<open>simp add: pbuf_memcmp_def chain_tot_ok\<close>)
qed

section \<open>Sequences of operations\<close>

text \<open>The operations that change a chain, as commands; appending is what the receive handler of a session does.\<close>

datatype pbuf_cmd =
    PcAppend "pbuf list"
  | PcDrop nat
  | PcTrim nat
  | PcStore "byte list" nat
  | PcPut nat byte

fun pbuf_exec :: "pbuf list \<Rightarrow> pbuf_cmd \<Rightarrow> pbuf list option" where
  "pbuf_exec ps (PcAppend t) = Some (if ps = [] then t else pbuf_cat ps t)"
| "pbuf_exec ps (PcDrop n) = Some (pbuf_free_header ps n)"
| "pbuf_exec ps (PcTrim n) = pbuf_realloc ps n"
| "pbuf_exec ps (PcStore bs off) = map_option fst (pbuf_take_at ps bs off)"
| "pbuf_exec ps (PcPut off b) = Some (pbuf_put_at ps off b)"

fun pbuf_run :: "pbuf list \<Rightarrow> pbuf_cmd list \<Rightarrow> pbuf list option" where
  "pbuf_run ps [] = Some ps"
| "pbuf_run ps (c # cs) = Option.bind (pbuf_exec ps c) (\<lambda>qs. pbuf_run qs cs)"

text \<open>The same on the bytes; an append past 65535 bytes or an argument outside its C type is no command.\<close>

fun bytes_exec :: "byte list \<Rightarrow> pbuf_cmd \<Rightarrow> byte list option" where
  "bytes_exec xs (PcAppend t) =
     (if chain_ok t \<and> length xs + length (contents t) < 65536 then Some (xs @ contents t) else None)"
| "bytes_exec xs (PcDrop n) = (if n < 65536 then Some (drop n xs) else None)"
| "bytes_exec xs (PcTrim n) = (if n < 65536 then Some (take n xs) else None)"
| "bytes_exec xs (PcStore bs off) =
     (if off < 65536 \<and> length bs < 65536
      then Some (if off < length xs \<and> off + length bs \<le> length xs then store_at off bs xs else xs) else None)"
| "bytes_exec xs (PcPut off b) = (if off < 65536 then Some (xs[off := b]) else None)"

fun bytes_run :: "byte list \<Rightarrow> pbuf_cmd list \<Rightarrow> byte list option" where
  "bytes_run xs [] = Some xs"
| "bytes_run xs (c # cs) = Option.bind (bytes_exec xs c) (\<lambda>ys. bytes_run ys cs)"

lemma pbuf_exec_ok:
  assumes "chain_ok ps" "bytes_exec (contents ps) c = Some ys"
  shows "\<exists>qs. pbuf_exec ps c = Some qs \<and> chain_ok qs \<and> contents qs = ys"
proof (cases c)
  case (PcAppend t)
  then show ?thesis using assms cat_ok [OF assms(1), of t] by (auto split: if_splits)
next
  case (PcDrop n)
  then show ?thesis using assms free_header_ok [OF assms(1), of n] by (auto split: if_splits)
next
  case (PcTrim n)
  then show ?thesis using assms realloc_ok [OF assms(1), of n] by (auto split: if_splits)
next
  case (PcStore bs off)
  then have "off < 65536" "length bs < 65536" using assms(2) by (auto split: if_splits)
  from take_at_ok [OF assms(1) this] show ?thesis using assms PcStore by (auto split: if_splits)
next
  case (PcPut off b)
  then show ?thesis using assms put_at_ok [OF assms(1), of off b] by (auto split: if_splits)
qed

definition matches_at :: "byte list \<Rightarrow> byte list \<Rightarrow> nat \<Rightarrow> bool" where
  "matches_at mem xs i \<longleftrightarrow> i + length mem \<le> length xs \<and> take (length mem) (drop i xs) = mem"

section \<open>Properties\<close>

text \<open>
  C15: A chain of packet buffers is its bytes: every sequence of appending received chains, dropping
  from the front, trimming, storing at an offset and storing single bytes does to the contents of the
  chain what it does to a list of bytes, however the bytes are cut into buffers, and it keeps every
  \<^verbatim>\<open>tot_len\<close> the sum of the lengths behind it.
\<close>

theorem pbuf_run_refines:
  assumes "chain_ok ps" "bytes_run (contents ps) cs = Some ys"
  shows "\<exists>qs. pbuf_run ps cs = Some qs \<and> chain_ok qs \<and> contents qs = ys"
  using assms
proof (induction cs arbitrary: ps)
  case (Cons c cs)
  obtain zs where z: "bytes_exec (contents ps) c = Some zs" "bytes_run zs cs = Some ys"
    using Cons.prems(2) by (auto simp: bind_eq_Some_conv)
  obtain qs where "pbuf_exec ps c = Some qs" "chain_ok qs" "contents qs = zs"
    using pbuf_exec_ok [OF Cons.prems(1) z(1)] by blast
  then show ?case using Cons.IH [of qs] z(2) by simp
qed simp

definition chain_demo :: "pbuf list" where
  "chain_demo = [\<lparr>payload = [1, 2], tot_len = 5, pref = 1\<rparr>, \<lparr>payload = [3, 4, 5], tot_len = 3, pref = 1\<rparr>]"

theorem pbuf_run_refines_witness:
  "\<exists>qs. pbuf_run chain_demo [PcAppend [\<lparr>payload = [6], tot_len = 1, pref = 1\<rparr>], PcDrop 1, PcStore [7, 8] 0, PcTrim 4] = Some qs \<and>
     chain_ok qs \<and> contents qs = [7, 8, 4, 5]"
  by (rule pbuf_run_refines) (simp_all add: chain_demo_def store_at_def)

text \<open>
  C31: Searching a chain finds the first occurrence: \<^verbatim>\<open>pbuf_memfind\<close> returns the least position from the
  start offset on at which the pattern stands in the bytes of the chain, across the borders of its
  buffers, and 0xFFFF when there is none.
\<close>

theorem pbuf_memfind_first:
  assumes "chain_ok ps" "start < 65536" "length mem < 65536"
  shows "(\<exists>i. pbuf_memfind ps mem start = i \<and> start \<le> i \<and> matches_at mem (contents ps) i \<and>
      (\<forall>j. start \<le> j \<and> j < i \<longrightarrow> \<not> matches_at mem (contents ps) j)) \<or>
    pbuf_memfind ps mem start = 65535 \<and> (\<forall>j. start \<le> j \<longrightarrow> \<not> matches_at mem (contents ps) j)"
proof -
  let ?xs = "contents ps" and ?n = "length mem"
  let ?r = "find (\<lambda>i. pbuf_memcmp ps i mem = 0) [start ..< length ?xs - ?n + 1]"
  have len: "length ?xs < 65536" by (rule chain_ok_len [OF assms(1)])
  have hit: "pbuf_memcmp ps i mem = 0 \<longleftrightarrow> matches_at mem ?xs i" if "i < length ?xs - ?n + 1" for i
    using memcmp_ok [OF assms(1), of i mem] len that by (auto simp: matches_at_def)
  show ?thesis
  proof (cases "?n + start \<le> length ?xs")
    case False
    then show ?thesis using assms(1) by (auto simp: pbuf_memfind_def chain_tot_ok matches_at_def)
  next
    case True
    have run: "pbuf_memfind ps mem start = (case ?r of Some i \<Rightarrow> i | None \<Rightarrow> 65535)"
      using True assms(1) len by (simp add: pbuf_memfind_def chain_tot_ok Let_def)
    show ?thesis
    proof (cases ?r)
      case None
      then have "\<not> matches_at mem ?xs j" if "start \<le> j" for j
        using hit [of j] that by (cases "j < length ?xs - ?n + 1") (auto simp: find_None_iff matches_at_def simp del: upt_Suc)
      then show ?thesis using None run by simp
    next
      case (Some i)
      then obtain k where k: "k < length ?xs - ?n + 1 - start" "i = start + k" "pbuf_memcmp ps i mem = 0"
        "\<And>j. j < k \<Longrightarrow> pbuf_memcmp ps (start + j) mem \<noteq> 0"
        by (auto simp: find_Some_iff simp del: upt_Suc)
      have "\<not> matches_at mem ?xs j" if "start \<le> j" "j < i" for j
        using that k(1,2) k(4) [of "j - start"] hit [of j] by auto
      moreover have "matches_at mem ?xs i" using k hit [of i] by auto
      ultimately show ?thesis using run Some k(2) by auto
    qed
  qed
qed

theorem pbuf_memfind_first_witness: "pbuf_memfind chain_demo [2, 3] 0 = 1"
proof -
  have "chain_ok chain_demo" "matches_at [2, 3] (contents chain_demo) 1" "\<not> matches_at [2, 3] (contents chain_demo) 0"
    by (simp_all add: chain_demo_def matches_at_def)
  moreover from this(1) have "(\<exists>i. pbuf_memfind chain_demo [2, 3] 0 = i \<and> 0 \<le> i \<and> matches_at [2, 3] (contents chain_demo) i \<and>
      (\<forall>j. 0 \<le> j \<and> j < i \<longrightarrow> \<not> matches_at [2, 3] (contents chain_demo) j)) \<or>
    pbuf_memfind chain_demo [2, 3] 0 = 65535 \<and> (\<forall>j. 0 \<le> j \<longrightarrow> \<not> matches_at [2, 3] (contents chain_demo) j)"
    by (rule pbuf_memfind_first) simp_all
  ultimately show ?thesis by (metis One_nat_def le0 less_one linorder_neqE_nat)
qed

text \<open>
  The count of freed buffers is a \<^verbatim>\<open>u8_t\<close>: taking the first buffer off a chain with 256 further
  buffers, each with one reference, gives all of these back and counts zero of them, so that
  \<^verbatim>\<open>pbuf_dechain\<close> returns a pointer to freed memory instead of \<^verbatim>\<open>NULL\<close>; with fewer buffers it does not.
\<close>

theorem pbuf_dechain_dangling:
  assumes "\<forall>x \<in> set q. pref x = 1" "q \<noteq> []" "length q \<le> 256"
  shows "snd (pbuf_dechain p q) = (if length q = 256 then Some [] else None)"
proof -
  have free: "pbuf_free q = ([], length q mod 256)" if "\<forall>x \<in> set q. pref x = 1" for q
    using that by (induction q) (simp_all add: mod_Suc_eq)
  obtain q0 qs where q: "q = q0 # qs" using assms(2) by (cases q) auto
  let ?q1 = "q0\<lparr>tot_len := u16_sub (tot_len p) (plen p)\<rparr> # qs"
  have "pbuf_free ?q1 = ([], length q mod 256)" using free [of ?q1] assms(1) q by simp
  then show ?thesis using assms(3) q by (auto simp: pbuf_dechain_def)
qed

theorem pbuf_dechain_dangling_witness:
  "snd (pbuf_dechain (chain_demo ! 0) (replicate 256 (chain_demo ! 1))) = Some []"
  using pbuf_dechain_dangling [of "replicate 256 (chain_demo ! 1)"] by (simp add: chain_demo_def)

end
