(* ===== verification/SessionSet.thy ===== *)
theory SessionSet
  imports HevList
begin

text \<open>
  The registry of the live sessions in \<^verbatim>\<open>src/hev-socks5-tunnel.c\<close>: the list \<^verbatim>\<open>session_set\<close>, ordered by
  the last activity, and \<^verbatim>\<open>session_count\<close>.  A session is its list node.  Terminating a session
  (\<^verbatim>\<open>hev_socks5_session_terminate\<close>) asks its task to end; the registry records the requests in order.
\<close>

section \<open>The registry and its operations\<close>

record sessions =
  session_set :: "nat hev_list"
  session_count :: int
  asked :: "nat list"

definition sessions_empty :: sessions where
  "sessions_empty = \<lparr>session_set = hev_list_empty, session_count = 0, asked = []\<rparr>"

text \<open>The first node of an empty list would be dereferenced: \<^term>\<open>None\<close>.\<close>

definition hev_socks5_tunnel_insert_session :: "int \<Rightarrow> nat \<Rightarrow> sessions \<Rightarrow> sessions option" where
  "hev_socks5_tunnel_insert_session max_session_count node s =
     (let s1 = s\<lparr>session_set := hev_list_add_tail (session_set s) node, session_count := session_count s + 1\<rparr> in
      if max_session_count = 0 \<or> session_count s1 < max_session_count then Some s1
      else case hev_list_first (session_set s1) of
        None \<Rightarrow> None
      | Some first \<Rightarrow> Some (s1\<lparr>asked := asked s1 @ [first]\<rparr>))"

definition hev_socks5_tunnel_delete_session :: "nat \<Rightarrow> sessions \<Rightarrow> sessions" where
  "hev_socks5_tunnel_delete_session node s =
     s\<lparr>session_set := hev_list_del (session_set s) node, session_count := session_count s - 1\<rparr>"

definition hev_socks5_tunnel_update_session :: "int \<Rightarrow> nat \<Rightarrow> sessions \<Rightarrow> sessions" where
  "hev_socks5_tunnel_update_session max_session_count node s =
     (if max_session_count = 0 then s
      else s\<lparr>session_set := hev_list_add_tail (hev_list_del (session_set s) node) node\<rparr>)"

text \<open>The loop of \<^verbatim>\<open>event_task_entry\<close> over all sessions; a cyclic list would never end.\<close>

definition terminate_sessions :: "sessions \<Rightarrow> sessions option" where
  "terminate_sessions s =
     map_option (\<lambda>ns. s\<lparr>asked := asked s @ ns\<rparr>) (hev_list_walk (session_set s) (hev_list_first (session_set s)) [])"

section \<open>Sequences of operations\<close>

datatype session_cmd = ScInsert nat | ScDelete nat | ScUpdate nat | ScTerminate

fun session_exec :: "int \<Rightarrow> session_cmd \<Rightarrow> sessions \<Rightarrow> sessions option" where
  "session_exec m (ScInsert n) s = hev_socks5_tunnel_insert_session m n s"
| "session_exec m (ScDelete n) s = Some (hev_socks5_tunnel_delete_session n s)"
| "session_exec m (ScUpdate n) s = Some (hev_socks5_tunnel_update_session m n s)"
| "session_exec m ScTerminate s = terminate_sessions s"

fun session_run :: "int \<Rightarrow> session_cmd list \<Rightarrow> sessions \<Rightarrow> sessions option" where
  "session_run m [] s = Some s"
| "session_run m (c # cs) s = Option.bind (session_exec m c s) (session_run m cs)"

text \<open>
  The specification: the sessions from the least to the most recently active one, and who was asked
  to end.  A session is inserted once, and updated and deleted only while it is there.
\<close>

fun lru_exec :: "int \<Rightarrow> session_cmd \<Rightarrow> nat list \<times> nat list \<Rightarrow> (nat list \<times> nat list) option" where
  "lru_exec m (ScInsert n) (xs, as) =
     (if n \<in> set xs then None
      else Some (xs @ [n], if m \<noteq> 0 \<and> m \<le> int (length xs) + 1 then as @ [hd (xs @ [n])] else as))"
| "lru_exec m (ScDelete n) (xs, as) = (if n \<in> set xs then Some (remove1 n xs, as) else None)"
| "lru_exec m (ScUpdate n) (xs, as) =
     (if n \<in> set xs then Some (if m = 0 then xs else remove1 n xs @ [n], as) else None)"
| "lru_exec m ScTerminate (xs, as) = Some (xs, as @ xs)"

fun lru_run :: "int \<Rightarrow> session_cmd list \<Rightarrow> nat list \<times> nat list \<Rightarrow> (nat list \<times> nat list) option" where
  "lru_run m [] q = Some q"
| "lru_run m (c # cs) q = Option.bind (lru_exec m c q) (lru_run m cs)"

definition sessions_repr :: "sessions \<Rightarrow> nat list \<times> nat list \<Rightarrow> bool" where
  "sessions_repr s q \<longleftrightarrow> dlist (session_set s) (fst q) \<and> session_count s = int (length (fst q)) \<and> asked s = snd q"

lemma sessions_repr_empty: "sessions_repr sessions_empty ([], [])"
  by (simp add: sessions_repr_def sessions_empty_def dlist_empty)

lemma session_exec_refines:
  assumes "sessions_repr s q" "lru_exec m c q = Some q'"
  shows "\<exists>s'. session_exec m c s = Some s' \<and> sessions_repr s' q'"
proof -
  obtain xs as where q: "q = (xs, as)" by fastforce
  have r: "dlist (session_set s) xs" "session_count s = int (length xs)" "asked s = as"
    using assms(1) q by (auto simp: sessions_repr_def)
  show ?thesis
  proof (cases c)
    case (ScInsert n)
    then have "n \<notin> set xs" using assms(2) q by (auto split: if_splits)
    then have d: "dlist (hev_list_add_tail (session_set s) n) (xs @ [n])" using hl.repr_add_tail [OF r(1)] by simp
    have "hev_list_first (hev_list_add_tail (session_set s) n) = Some (hd (xs @ [n]))"
      using hl.repr_first [OF d] by (cases xs) simp_all
    then show ?thesis using assms(2) ScInsert q r d \<open>n \<notin> set xs\<close>
      by (auto simp: hev_socks5_tunnel_insert_session_def sessions_repr_def Let_def)
  next
    case (ScDelete n)
    then have n: "n \<in> set xs" and q': "q' = (remove1 n xs, as)" using assms(2) q by (auto split: if_splits)
    then have "length xs = Suc (length (remove1 n xs))" using length_pos_if_in_set [OF n] by (simp add: length_remove1)
    then have "session_count s - 1 = int (length (remove1 n xs))" using r(2) by linarith
    then show ?thesis using ScDelete q' r(3) hl.repr_del [OF r(1) n]
      by (simp add: hev_socks5_tunnel_delete_session_def sessions_repr_def)
  next
    case (ScUpdate n)
    then have n: "n \<in> set xs" using assms(2) q by (auto split: if_splits)
    then show ?thesis using assms(2) ScUpdate q r hl.repr_touch [OF r(1) n] hl.touch_set [OF r(1) n]
      by (auto simp: hev_socks5_tunnel_update_session_def sessions_repr_def)
  next
    case ScTerminate
    then show ?thesis using assms(2) q r walk_dlist [OF r(1)] by (auto simp: terminate_sessions_def sessions_repr_def)
  qed
qed

section \<open>Properties\<close>

text \<open>
  C14: The registry is a least-recently-used list: every sequence of insertions, deletions, activity
  updates and shutdowns keeps the doubly linked list intact and the counter equal to its length; a
  session moves to the end when it is active, an insertion that reaches the limit asks the session
  that was inactive for longest to end, and a shutdown asks every session exactly once.
\<close>

theorem session_set_is_lru:
  assumes "sessions_repr s q" "lru_run m cs q = Some q'"
  shows "\<exists>s'. session_run m cs s = Some s' \<and> sessions_repr s' q'"
  using assms
proof (induction cs arbitrary: s q)
  case (Cons c cs)
  obtain q1 where q1: "lru_exec m c q = Some q1" "lru_run m cs q1 = Some q'"
    using Cons.prems(2) by (auto simp: bind_eq_Some_conv)
  obtain s1 where "session_exec m c s = Some s1" "sessions_repr s1 q1"
    using session_exec_refines [OF Cons.prems(1) q1(1)] by blast
  then show ?case using Cons.IH [OF _ q1(2)] by simp
qed simp

theorem session_set_is_lru_witness:
  "\<exists>s'. session_run 3 [ScInsert 1, ScInsert 2, ScUpdate 1, ScInsert 3, ScDelete 2, ScTerminate] sessions_empty = Some s' \<and>
     sessions_repr s' ([1, 3], [2, 1, 3])"
  by (rule session_set_is_lru [OF sessions_repr_empty]) simp

text \<open>
  C32: The limit on the sessions is not enforced against a burst: sessions that arrive one after the
  other while the list is at the limit all ask the same session to end, the first one, so with it gone
  there are as many sessions as before plus all but one of the new ones.
\<close>

theorem session_burst_exceeds_limit:
  assumes "sessions_repr s (x # xs, as)" "distinct (x # xs @ ns)" "0 < m" "m \<le> int (length (x # xs)) + 1"
  shows "\<exists>s'. session_run m (map ScInsert ns) s = Some s' \<and> sessions_repr s' (x # xs @ ns, as @ replicate (length ns) x)"
  using assms
proof (induction ns arbitrary: s xs as)
  case (Cons n ns)
  have "lru_exec m (ScInsert n) (x # xs, as) = Some (x # (xs @ [n]), as @ [x])" using Cons.prems by auto
  from session_exec_refines [OF Cons.prems(1) this]
  obtain s1 where s1: "session_exec m (ScInsert n) s = Some s1" "sessions_repr s1 (x # (xs @ [n]), as @ [x])" by blast
  then show ?case using Cons.IH [OF s1(2)] Cons.prems by simp
qed simp

theorem session_burst_exceeds_limit_witness:
  "\<exists>s s'. session_run 2 [ScInsert 1] sessions_empty = Some s \<and> session_run 2 (map ScInsert [2, 3, 4, 5]) s = Some s' \<and>
     sessions_repr s' (1 # [] @ [2, 3, 4, 5], [] @ replicate (length [2 :: nat, 3, 4, 5]) 1)"
proof -
  obtain s where s: "session_run 2 [ScInsert 1] sessions_empty = Some s" "sessions_repr s ([1], [])"
    using session_exec_refines [OF sessions_repr_empty, of 2 "ScInsert 1"] by auto
  have "\<exists>s'. session_run 2 (map ScInsert [2, 3, 4, 5]) s = Some s' \<and>
      sessions_repr s' (1 # [] @ [2, 3, 4, 5], [] @ replicate (length [2 :: nat, 3, 4, 5]) 1)"
    by (rule session_burst_exceeds_limit) (use s in simp_all)
  then show ?thesis using s(1) by blast
qed

end
