(* ===== verification/Config.thy ===== *)
theory Config
  imports Prelude
begin

text \<open>
  The configuration, \<^verbatim>\<open>src/hev-config.c\<close>: the YAML document is read into the static variables of the
  file, here the fields of one record.  The parser of libyaml is outside; its result, the document, is
  the input.  A reference in a document is the index zero, an index without a node, or a node.
  A C string in the document is a string without zero bytes, so \<^verbatim>\<open>strcmp\<close> against a literal is equality,
  and \<^verbatim>\<open>strncpy\<close> into a zeroed array of \<open>n + 1\<close> bytes keeps the first \<open>n\<close>.
\<close>

section \<open>Documents and numbers\<close>

datatype yaml = YScalar string | YMapping "(yref \<times> yref) list" | YSequence "yref list"
and yref = YZero | YNull | YRef yaml

definition isspace :: "char \<Rightarrow> bool" where
  "isspace c \<longleftrightarrow> of_char c \<in> {9, 10, 11, 12, 13, 32 :: nat}"

definition digit_val :: "char \<Rightarrow> nat" where
  "digit_val c = (let n = of_char c :: nat in
     if 48 \<le> n \<and> n \<le> 57 then n - 48 else if 97 \<le> n \<and> n \<le> 122 then n - 87
     else if 65 \<le> n \<and> n \<le> 90 then n - 55 else 36)"

fun digits :: "nat \<Rightarrow> string \<Rightarrow> nat \<Rightarrow> nat" where
  "digits base [] acc = acc"
| "digits base (c # cs) acc = (if digit_val c < base then digits base cs (acc * base + digit_val c) else acc)"

text \<open>The sign and the magnitude that \<^verbatim>\<open>strtoul\<close> and \<^verbatim>\<open>strtol\<close> read; base zero looks at the prefix.\<close>

definition strto :: "nat \<Rightarrow> string \<Rightarrow> bool \<times> nat" where
  "strto base s =
     (let s1 = dropWhile isspace s;
          (neg, s2) = (case s1 of c # r \<Rightarrow> if c = CHR ''-'' then (True, r) else if c = CHR ''+'' then (False, r) else (False, s1)
                       | [] \<Rightarrow> (False, s1));
          hex = (case s2 of a # b # c # _ \<Rightarrow> a = CHR ''0'' \<and> (b = CHR ''x'' \<or> b = CHR ''X'') \<and> digit_val c < 16 | _ \<Rightarrow> False) in
      if base = 0 \<and> hex then (neg, digits 16 (drop 2 s2) 0)
      else if base = 0 \<and> (case s2 of a # _ \<Rightarrow> a = CHR ''0'' | _ \<Rightarrow> False) then (neg, digits 8 s2 0)
      else (neg, digits (if base = 0 then 10 else base) s2 0))"

definition strtoul :: "string \<Rightarrow> nat \<Rightarrow> nat" where
  "strtoul s base =
     (let (neg, v) = strto base s in
      if v \<ge> 2 ^ 64 then 2 ^ 64 - 1 else if neg then (2 ^ 64 - v) mod 2 ^ 64 else v)"

definition strtol :: "string \<Rightarrow> nat \<Rightarrow> int" where
  "strtol s base =
     (let (neg, v) = strto base s; x = (if neg then - int v else int v) in
      if x > 2 ^ 63 - 1 then 2 ^ 63 - 1 else if x < - (2 ^ 63) then - (2 ^ 63) else x)"

text \<open>An \<^verbatim>\<open>unsigned long\<close> stored in an \<^verbatim>\<open>int\<close>.\<close>

definition to_int :: "nat \<Rightarrow> int" where
  "to_int v = int32 (int v)"

definition lower :: "char \<Rightarrow> char" where
  "lower c = (if 65 \<le> (of_char c :: nat) \<and> (of_char c :: nat) \<le> 90 then char_of ((of_char c :: nat) + 32) else c)"

definition same_nocase :: "string \<Rightarrow> string \<Rightarrow> bool" where
  "same_nocase a b \<longleftrightarrow> map lower a = map lower b"

definition ntohl :: "u32 \<Rightarrow> u32" where
  "ntohl w = push_bit 24 (w AND 0xFF) OR push_bit 8 (w AND 0xFF00) OR drop_bit 8 (w AND 0xFF0000) OR drop_bit 24 w"

section \<open>The variables\<close>

record config_server =
  srv_user :: "string option"
  srv_pass :: "string option"
  srv_mark :: nat
  srv_udp_in_udp :: bool
  srv_port :: nat
  srv_pipeline :: bool
  srv_fastopen :: bool
  srv_udp_addr :: string
  srv_addr :: string

datatype log_level = HEV_LOGGER_DEBUG | HEV_LOGGER_INFO | HEV_LOGGER_WARN | HEV_LOGGER_ERROR

record config =
  tun_name :: string
  tun_mtu :: nat
  multi_queue :: bool
  icmp :: bool
  tun_ipv4_address :: string
  tun_ipv6_address :: string
  tun_post_up_script :: string
  tun_pre_down_script :: string
  srv :: config_server
  mapdns_address :: u32
  mapdns_port :: int
  mapdns_network :: u32
  mapdns_netmask :: u32
  mapdns_cache_size :: int
  log_file :: string
  pid_file :: string
  max_session_count :: int
  cfg_task_stack_size :: int
  tcp_buffer_size :: int
  cfg_udp_recv_buffer_size :: int
  cfg_udp_copy_buffer_nums :: int
  cfg_connect_timeout :: int
  tcp_read_write_timeout :: int
  udp_read_write_timeout :: int
  limit_nofile :: int
  log_level :: log_level

definition CFG_UDP_BUF_SIZE :: int where "CFG_UDP_BUF_SIZE = 1500"
definition TASK_STACK_SIZE :: int where "TASK_STACK_SIZE = 20480"
definition TCP_MSS :: int where "TCP_MSS = 8191"
definition TCP_SND_BUF :: int where "TCP_SND_BUF = 8 * TCP_MSS"

definition hev_config_reset :: config where
  "hev_config_reset =
     \<lparr>tun_name = [], tun_mtu = 8500, multi_queue = False, icmp = False, tun_ipv4_address = [], tun_ipv6_address = [],
      tun_post_up_script = [], tun_pre_down_script = [],
      srv = \<lparr>srv_user = None, srv_pass = None, srv_mark = 0, srv_udp_in_udp = False, srv_port = 0, srv_pipeline = False,
        srv_fastopen = False, srv_udp_addr = [], srv_addr = []\<rparr>,
      mapdns_address = 0, mapdns_port = 0, mapdns_network = 0, mapdns_netmask = 0, mapdns_cache_size = 0,
      log_file = [], pid_file = [], max_session_count = 0, cfg_task_stack_size = 86016, tcp_buffer_size = 65536,
      cfg_udp_recv_buffer_size = 524288, cfg_udp_copy_buffer_nums = 10, cfg_connect_timeout = 10000,
      tcp_read_write_timeout = 300000, udp_read_write_timeout = 60000, limit_nofile = 65535, log_level = HEV_LOGGER_WARN\<rparr>"

section \<open>The sections\<close>

text \<open>
  The loop over the pairs of a mapping that every section has: index zero is skipped, and a key or
  value that is no scalar ends it.
\<close>

fun scalar_pairs :: "(yref \<times> yref) list \<Rightarrow> (string \<times> string) list" where
  "scalar_pairs [] = []"
| "scalar_pairs ((k, v) # ps) =
     (if k = YZero \<or> v = YZero then scalar_pairs ps
      else case (k, v) of
        (YRef (YScalar key), YRef (YScalar val)) \<Rightarrow> (key, val) # scalar_pairs ps
      | _ \<Rightarrow> [])"

definition ipv4_scalar :: "string \<Rightarrow> string \<Rightarrow> config \<Rightarrow> config" where
  "ipv4_scalar key val c = (if key = ''address'' then c\<lparr>tun_ipv4_address := take 15 val\<rparr> else c)"

definition hev_config_parse_tunnel_ipv4 :: "yref \<Rightarrow> config \<Rightarrow> config \<times> int" where
  "hev_config_parse_tunnel_ipv4 base c =
     (case base of
        YRef (YMapping ps) \<Rightarrow>
          (fold (\<lambda>(key, val). ipv4_scalar key val) (scalar_pairs ps) c, 0)
      | _ \<Rightarrow> (c, - 1))"

definition ipv6_scalar :: "string \<Rightarrow> string \<Rightarrow> config \<Rightarrow> config" where
  "ipv6_scalar key val c = (if key = ''address'' then c\<lparr>tun_ipv6_address := take 63 val\<rparr> else c)"

definition hev_config_parse_tunnel_ipv6 :: "yref \<Rightarrow> config \<Rightarrow> config \<times> int" where
  "hev_config_parse_tunnel_ipv6 base c =
     (case base of
        YRef (YMapping ps) \<Rightarrow>
          (fold (\<lambda>(key, val). ipv6_scalar key val) (scalar_pairs ps) c, 0)
      | _ \<Rightarrow> (c, - 1))"

definition tunnel_scalar :: "string \<Rightarrow> string \<Rightarrow> config \<Rightarrow> config" where
  "tunnel_scalar key val c =
     (if key = ''name'' then c\<lparr>tun_name := take 63 val\<rparr>
      else if key = ''mtu'' then c\<lparr>tun_mtu := strtoul val 10 mod 2 ^ 32\<rparr>
      else if key = ''multi-queue'' then c\<lparr>multi_queue := \<not> same_nocase val ''false''\<rparr>
      else if key = ''ipv4'' then c\<lparr>tun_ipv4_address := take 15 val\<rparr>
      else if key = ''ipv6'' then c\<lparr>tun_ipv6_address := take 63 val\<rparr>
      else if key = ''icmp'' then c\<lparr>icmp := same_nocase val ''reply''\<rparr>
      else if key = ''post-up-script'' then c\<lparr>tun_post_up_script := take 1023 val\<rparr>
      else if key = ''pre-down-script'' then c\<lparr>tun_pre_down_script := take 1023 val\<rparr>
      else c)"

fun tunnel_pairs :: "(yref \<times> yref) list \<Rightarrow> config \<Rightarrow> config" where
  "tunnel_pairs [] c = c"
| "tunnel_pairs ((k, v) # ps) c =
     (if k = YZero \<or> v = YZero then tunnel_pairs ps c
      else case k of
        YRef (YScalar key) \<Rightarrow>
          (case v of
             YRef (YScalar val) \<Rightarrow> tunnel_pairs ps (tunnel_scalar key val c)
           | YRef _ \<Rightarrow>
               tunnel_pairs ps
                 (if key = ''ipv4'' then fst (hev_config_parse_tunnel_ipv4 v c)
                  else if key = ''ipv6'' then fst (hev_config_parse_tunnel_ipv6 v c) else c)
           | _ \<Rightarrow> c)
      | _ \<Rightarrow> c)"

definition hev_config_parse_tunnel :: "yref \<Rightarrow> config \<Rightarrow> config \<times> int" where
  "hev_config_parse_tunnel base c =
     (case base of YRef (YMapping ps) \<Rightarrow> (tunnel_pairs ps c, 0) | _ \<Rightarrow> (c, - 1))"

text \<open>The local variables of \<^verbatim>\<open>hev_config_parse_socks5\<close>: each key has the value given last.\<close>

definition given :: "string \<Rightarrow> (string \<times> string) list \<Rightarrow> string option" where
  "given key kvs = map_of (rev kvs) key"

definition hev_config_parse_socks5 :: "yref \<Rightarrow> config \<Rightarrow> config \<times> int" where
  "hev_config_parse_socks5 base c =
     (case base of
        YRef (YMapping ps) \<Rightarrow>
          let kvs = scalar_pairs ps; user = given ''username'' kvs; pass = given ''password'' kvs in
          (case (given ''port'' kvs, given ''address'' kvs) of
             (Some port, Some addr) \<Rightarrow>
               if (user \<noteq> None \<and> pass = None) \<or> (user = None \<and> pass \<noteq> None) then (c, - 1)
               else
                 let s1 = (srv c)\<lparr>srv_addr := take 255 addr, srv_port := strtoul port 10 mod 2 ^ 16\<rparr>;
                     s2 = (case given ''pipeline'' kvs of Some v \<Rightarrow> if same_nocase v ''true'' then s1\<lparr>srv_pipeline := True\<rparr> else s1 | None \<Rightarrow> s1);
                     s3 = (case given ''udp'' kvs of Some v \<Rightarrow> if same_nocase v ''udp'' then s2\<lparr>srv_udp_in_udp := True\<rparr> else s2 | None \<Rightarrow> s2);
                     s4 = (case given ''udp-address'' kvs of Some v \<Rightarrow> s3\<lparr>srv_udp_addr := take 255 v\<rparr> | None \<Rightarrow> s3);
                     s5 = (case (user, pass) of (Some u, Some p) \<Rightarrow> s4\<lparr>srv_user := Some (take 255 u), srv_pass := Some (take 255 p)\<rparr> | _ \<Rightarrow> s4);
                     s6 = (case given ''mark'' kvs of Some v \<Rightarrow> s5\<lparr>srv_mark := strtoul v 0 mod 2 ^ 32\<rparr> | None \<Rightarrow> s5);
                     s7 = (case given ''tcp-fastopen'' kvs of Some v \<Rightarrow> s6\<lparr>srv_fastopen := same_nocase v ''true''\<rparr> | None \<Rightarrow> s6) in
                 (c\<lparr>srv := s7\<rparr>, 0)
           | _ \<Rightarrow> (c, - 1))
      | _ \<Rightarrow> (c, - 1))"

text \<open>\<^verbatim>\<open>inet_pton\<close> is a parameter: the address as it stands in memory, or nothing stored.\<close>

definition mapdns_scalar :: "(string \<Rightarrow> u32 option) \<Rightarrow> string \<Rightarrow> string \<Rightarrow> config \<Rightarrow> config" where
  "mapdns_scalar pton key val c =
     (if key = ''address'' then (case pton val of Some a \<Rightarrow> c\<lparr>mapdns_address := a\<rparr> | None \<Rightarrow> c)
      else if key = ''port'' then c\<lparr>mapdns_port := to_int (strtoul val 10)\<rparr>
      else if key = ''network'' then (case pton val of Some a \<Rightarrow> c\<lparr>mapdns_network := a\<rparr> | None \<Rightarrow> c)
      else if key = ''netmask'' then (case pton val of Some a \<Rightarrow> c\<lparr>mapdns_netmask := a\<rparr> | None \<Rightarrow> c)
      else if key = ''cache-size'' then c\<lparr>mapdns_cache_size := to_int (strtoul val 10)\<rparr>
      else c)"

definition hev_config_parse_mapdns :: "(string \<Rightarrow> u32 option) \<Rightarrow> yref \<Rightarrow> config \<Rightarrow> config \<times> int" where
  "hev_config_parse_mapdns pton base c =
     (case base of
        YRef (YMapping ps) \<Rightarrow>
          let c1 = fold (\<lambda>(key, val). mapdns_scalar pton key val) (scalar_pairs ps) c in
          (c1\<lparr>mapdns_network := ntohl (mapdns_network c1), mapdns_netmask := ntohl (mapdns_netmask c1)\<rparr>, 0)
      | _ \<Rightarrow> (c, - 1))"

definition hev_config_parse_log_level :: "string \<Rightarrow> log_level" where
  "hev_config_parse_log_level val =
     (if val = ''debug'' then HEV_LOGGER_DEBUG else if val = ''info'' then HEV_LOGGER_INFO
      else if val = ''error'' then HEV_LOGGER_ERROR else HEV_LOGGER_WARN)"

definition misc_scalar :: "string \<Rightarrow> string \<Rightarrow> config \<Rightarrow> config" where
  "misc_scalar key val c =
     (if key = ''task-stack-size'' then c\<lparr>cfg_task_stack_size := to_int (strtoul val 10)\<rparr>
      else if key = ''tcp-buffer-size'' then c\<lparr>tcp_buffer_size := to_int (strtoul val 10)\<rparr>
      else if key = ''udp-recv-buffer-size'' then c\<lparr>cfg_udp_recv_buffer_size := to_int (strtoul val 10)\<rparr>
      else if key = ''udp-copy-buffer-nums'' then c\<lparr>cfg_udp_copy_buffer_nums := to_int (strtoul val 10)\<rparr>
      else if key = ''max-session-count'' then c\<lparr>max_session_count := to_int (strtoul val 10)\<rparr>
      else if key = ''connect-timeout'' then c\<lparr>cfg_connect_timeout := to_int (strtoul val 10)\<rparr>
      else if key = ''pid-file'' then c\<lparr>pid_file := take 1023 val\<rparr>
      else if key = ''log-file'' then c\<lparr>log_file := take 1023 val\<rparr>
      else if key = ''log-level'' then c\<lparr>log_level := hev_config_parse_log_level val\<rparr>
      else if key = ''limit-nofile'' then c\<lparr>limit_nofile := int32 (strtol val 10)\<rparr>
      else c)"

definition given_int :: "string \<Rightarrow> (string \<times> string) list \<Rightarrow> int" where
  "given_int key kvs = (case given key kvs of None \<Rightarrow> - 1 | Some v \<Rightarrow> to_int (strtoul v 10))"

definition hev_config_parse_misc :: "yref \<Rightarrow> config \<Rightarrow> config \<times> int" where
  "hev_config_parse_misc base c =
     (case base of
        YRef (YMapping ps) \<Rightarrow>
          let kvs = scalar_pairs ps;
              c1 = fold (\<lambda>(key, val). misc_scalar key val) kvs c;
              rw = given_int ''read-write-timeout'' kvs;
              tcp0 = given_int ''tcp-read-write-timeout'' kvs; udp0 = given_int ''udp-read-write-timeout'' kvs;
              tcp = (if tcp0 \<le> 0 then rw else tcp0); udp = (if udp0 \<le> 0 then rw else udp0);
              c2 = (if tcp > 0 then c1\<lparr>tcp_read_write_timeout := tcp\<rparr> else c1) in
          (if udp > 0 then c2\<lparr>udp_read_write_timeout := udp\<rparr> else c2, 0)
      | _ \<Rightarrow> (c, - 1))"

section \<open>The document\<close>

definition parse_section :: "(string \<Rightarrow> u32 option) \<Rightarrow> string \<Rightarrow> yref \<Rightarrow> config \<Rightarrow> config \<times> int" where
  "parse_section pton key v c =
     (if key = ''tunnel'' then hev_config_parse_tunnel v c
      else if key = ''socks5'' then hev_config_parse_socks5 v c
      else if key = ''mapdns'' then hev_config_parse_mapdns pton v c
      else if key = ''misc'' then hev_config_parse_misc v c
      else (c, 0))"

fun doc_pairs :: "(string \<Rightarrow> u32 option) \<Rightarrow> (yref \<times> yref) list \<Rightarrow> config \<Rightarrow> config \<times> int" where
  "doc_pairs pton [] c = (c, 0)"
| "doc_pairs pton ((k, v) # ps) c =
     (if k = YZero \<or> v = YZero then doc_pairs pton ps c
      else case k of
        YRef (YScalar key) \<Rightarrow>
          let (c1, res) = parse_section pton key v c in if res < 0 then (c1, - 1) else doc_pairs pton ps c1
      | _ \<Rightarrow> (c, 0))"

text \<open>The product is an \<^verbatim>\<open>int\<close>; it wraps as the machine's multiplication does.\<close>

definition fit_sizes :: "config \<Rightarrow> config" where
  "fit_sizes c =
     (let c1 = (if tcp_buffer_size c > TCP_SND_BUF then c\<lparr>tcp_buffer_size := TCP_SND_BUF\<rparr> else c);
          udp_buffer_size = int32 (CFG_UDP_BUF_SIZE * cfg_udp_copy_buffer_nums c1);
          min_task_stack_size = int32 (TASK_STACK_SIZE +
            (if tcp_buffer_size c1 > udp_buffer_size then tcp_buffer_size c1 else udp_buffer_size)) in
      if cfg_task_stack_size c1 < min_task_stack_size then c1\<lparr>cfg_task_stack_size := min_task_stack_size\<rparr> else c1)"

definition hev_config_parse_doc :: "(string \<Rightarrow> u32 option) \<Rightarrow> yref \<Rightarrow> config \<Rightarrow> config \<times> int" where
  "hev_config_parse_doc pton root c =
     (case root of
        YRef (YMapping ps) \<Rightarrow> let (c1, res) = doc_pairs pton ps c in if res < 0 then (c1, - 1) else (fit_sizes c1, 0)
      | _ \<Rightarrow> (c, - 1))"

text \<open>
  \<^verbatim>\<open>hev_config_init_from_str\<close> and \<^verbatim>\<open>hev_config_init_from_file\<close>: \<^term>\<open>None\<close> is a document the parser could
  not load, or a file that could not be opened.
\<close>

definition hev_config_init :: "(string \<Rightarrow> u32 option) \<Rightarrow> yref option \<Rightarrow> config \<times> int" where
  "hev_config_init pton doc =
     (case doc of None \<Rightarrow> (hev_config_reset, - 1) | Some root \<Rightarrow> hev_config_parse_doc pton root hev_config_reset)"

section \<open>The accessors that compute\<close>

definition set_or_null :: "string \<Rightarrow> string option" where
  "set_or_null s = (if s = [] then None else Some s)"

definition hev_config_get_tunnel_name :: "config \<Rightarrow> string option" where
  "hev_config_get_tunnel_name c = set_or_null (tun_name c)"

definition hev_config_get_tunnel_ipv4_address :: "config \<Rightarrow> string option" where
  "hev_config_get_tunnel_ipv4_address c = set_or_null (tun_ipv4_address c)"

definition hev_config_get_tunnel_ipv6_address :: "config \<Rightarrow> string option" where
  "hev_config_get_tunnel_ipv6_address c = set_or_null (tun_ipv6_address c)"

definition hev_config_get_tunnel_post_up_script :: "config \<Rightarrow> string option" where
  "hev_config_get_tunnel_post_up_script c = set_or_null (tun_post_up_script c)"

definition hev_config_get_tunnel_pre_down_script :: "config \<Rightarrow> string option" where
  "hev_config_get_tunnel_pre_down_script c = set_or_null (tun_pre_down_script c)"

definition hev_config_get_misc_pid_file :: "config \<Rightarrow> string option" where
  "hev_config_get_misc_pid_file c = set_or_null (pid_file c)"

definition hev_config_get_misc_log_file :: "config \<Rightarrow> string option" where
  "hev_config_get_misc_log_file c = (if log_file c = [] \<or> log_file c = ''null'' then None else Some (log_file c))"

section \<open>Well-typed configurations\<close>

definition int_range :: "int \<Rightarrow> bool" where
  "int_range x \<longleftrightarrow> - (2 ^ 31) \<le> x \<and> x < 2 ^ 31"

text \<open>Every variable within the bounds of its C type and its array, and what the parser promises of it.\<close>

definition server_typed :: "config_server \<Rightarrow> bool" where
  "server_typed s \<longleftrightarrow> (srv_user s = None \<longleftrightarrow> srv_pass s = None) \<and>
     (\<forall>u. srv_user s = Some u \<longrightarrow> length u < 256) \<and> (\<forall>p. srv_pass s = Some p \<longrightarrow> length p < 256) \<and>
     srv_mark s < 2 ^ 32 \<and> srv_port s < 2 ^ 16 \<and> length (srv_udp_addr s) < 256 \<and> length (srv_addr s) < 256"

definition config_typed :: "config \<Rightarrow> bool" where
  "config_typed c \<longleftrightarrow> length (tun_name c) < 64 \<and> tun_mtu c < 2 ^ 32 \<and> length (tun_ipv4_address c) < 16 \<and>
     length (tun_ipv6_address c) < 64 \<and> length (tun_post_up_script c) < 1024 \<and> length (tun_pre_down_script c) < 1024 \<and>
     server_typed (srv c) \<and> int_range (mapdns_port c) \<and> int_range (mapdns_cache_size c) \<and>
     length (log_file c) < 1024 \<and> length (pid_file c) < 1024 \<and> int_range (max_session_count c) \<and>
     int_range (cfg_task_stack_size c) \<and> int_range (tcp_buffer_size c) \<and> int_range (cfg_udp_recv_buffer_size c) \<and>
     int_range (cfg_udp_copy_buffer_nums c) \<and> int_range (cfg_connect_timeout c) \<and>
     int_range (tcp_read_write_timeout c) \<and> 0 < tcp_read_write_timeout c \<and>
     int_range (udp_read_write_timeout c) \<and> 0 < udp_read_write_timeout c \<and> int_range (limit_nofile c)"

text \<open>The buffers fit the TCP stack and the stack of a task, for any number of UDP buffers whose size is an \<^verbatim>\<open>int\<close>.\<close>

definition config_fits :: "config \<Rightarrow> bool" where
  "config_fits c \<longleftrightarrow> tcp_buffer_size c \<le> 65528 \<and>
     (0 \<le> cfg_udp_copy_buffer_nums c \<and> cfg_udp_copy_buffer_nums c \<le> 1000000 \<longrightarrow>
       TASK_STACK_SIZE + tcp_buffer_size c \<le> cfg_task_stack_size c \<and>
       TASK_STACK_SIZE + CFG_UDP_BUF_SIZE * cfg_udp_copy_buffer_nums c \<le> cfg_task_stack_size c)"

lemma int_range_conv [simp]: "int_range (to_int v)" "int_range (int32 x)"
  using int32_bounds by (simp_all add: int_range_def to_int_def)

lemma fold_pairs:
  assumes "P c" "\<And>k v c. P c \<Longrightarrow> P (f k v c)"
  shows "P (fold (\<lambda>(k, v). f k v) kvs c)"
  using assms(1) by (induction kvs arbitrary: c) (auto intro: assms(2))

lemma typed_reset: "config_typed hev_config_reset"
  by (simp add: config_typed_def hev_config_reset_def server_typed_def int_range_def)

lemma take_less [simp]: "n < m \<Longrightarrow> length (take n s) < m"
  by simp

lemma typed_upd:
  assumes "config_typed c"
  shows "length s < 64 \<Longrightarrow> config_typed (c\<lparr>tun_name := s\<rparr>)" "config_typed (c\<lparr>tun_mtu := n mod 2 ^ 32\<rparr>)"
    "config_typed (c\<lparr>multi_queue := q\<rparr>)" "config_typed (c\<lparr>icmp := q\<rparr>)"
    "length s < 16 \<Longrightarrow> config_typed (c\<lparr>tun_ipv4_address := s\<rparr>)" "length s < 64 \<Longrightarrow> config_typed (c\<lparr>tun_ipv6_address := s\<rparr>)"
    "length s < 1024 \<Longrightarrow> config_typed (c\<lparr>tun_post_up_script := s\<rparr>)" "length s < 1024 \<Longrightarrow> config_typed (c\<lparr>tun_pre_down_script := s\<rparr>)"
    "server_typed x \<Longrightarrow> config_typed (c\<lparr>srv := x\<rparr>)" "config_typed (c\<lparr>mapdns_address := w\<rparr>)" "int_range i \<Longrightarrow> config_typed (c\<lparr>mapdns_port := i\<rparr>)"
    "config_typed (c\<lparr>mapdns_network := w\<rparr>)" "config_typed (c\<lparr>mapdns_netmask := w\<rparr>)"
    "int_range i \<Longrightarrow> config_typed (c\<lparr>mapdns_cache_size := i\<rparr>)"
    "length s < 1024 \<Longrightarrow> config_typed (c\<lparr>log_file := s\<rparr>)" "length s < 1024 \<Longrightarrow> config_typed (c\<lparr>pid_file := s\<rparr>)"
    "int_range i \<Longrightarrow> config_typed (c\<lparr>max_session_count := i\<rparr>)" "int_range i \<Longrightarrow> config_typed (c\<lparr>cfg_task_stack_size := i\<rparr>)"
    "int_range i \<Longrightarrow> config_typed (c\<lparr>tcp_buffer_size := i\<rparr>)" "int_range i \<Longrightarrow> config_typed (c\<lparr>cfg_udp_recv_buffer_size := i\<rparr>)"
    "int_range i \<Longrightarrow> config_typed (c\<lparr>cfg_udp_copy_buffer_nums := i\<rparr>)" "int_range i \<Longrightarrow> config_typed (c\<lparr>cfg_connect_timeout := i\<rparr>)"
    "int_range i \<Longrightarrow> 0 < i \<Longrightarrow> config_typed (c\<lparr>tcp_read_write_timeout := i\<rparr>)"
    "int_range i \<Longrightarrow> 0 < i \<Longrightarrow> config_typed (c\<lparr>udp_read_write_timeout := i\<rparr>)"
    "int_range i \<Longrightarrow> config_typed (c\<lparr>limit_nofile := i\<rparr>)" "config_typed (c\<lparr>log_level := l\<rparr>)"
  using assms by (simp_all add: config_typed_def)

lemma server_upd:
  assumes "server_typed s"
  shows "server_typed (s\<lparr>srv_addr := take 255 x, srv_port := n mod 2 ^ 16\<rparr>)" "server_typed (s\<lparr>srv_pipeline := q\<rparr>)"
    "server_typed (s\<lparr>srv_udp_in_udp := q\<rparr>)" "server_typed (s\<lparr>srv_udp_addr := take 255 x\<rparr>)"
    "server_typed (s\<lparr>srv_user := Some (take 255 x), srv_pass := Some (take 255 y)\<rparr>)"
    "server_typed (s\<lparr>srv_mark := n mod 2 ^ 32\<rparr>)" "server_typed (s\<lparr>srv_fastopen := q\<rparr>)"
  using assms by (simp_all add: server_typed_def min_def)

lemma keep_case:
  "P s \<Longrightarrow> (\<And>v. P (f v)) \<Longrightarrow> P (case x of Some v \<Rightarrow> f v | None \<Rightarrow> s)"
  by (cases x) auto

lemma keep_if: "P x \<Longrightarrow> P y \<Longrightarrow> P (if b then x else y)"
  by simp

lemma typed_scalar:
  assumes "config_typed c"
  shows "config_typed (ipv4_scalar k v c)" "config_typed (ipv6_scalar k v c)" "config_typed (tunnel_scalar k v c)"
    "config_typed (mapdns_scalar pton k v c)" "config_typed (misc_scalar k v c)"
  unfolding ipv4_scalar_def ipv6_scalar_def tunnel_scalar_def mapdns_scalar_def misc_scalar_def
  by (intro keep_if [where P = config_typed] keep_case [where P = config_typed] typed_upd assms take_less int_range_conv; simp)+

lemmas typed_fold = fold_pairs [where P = config_typed, OF _ typed_scalar(1)] fold_pairs [where P = config_typed, OF _ typed_scalar(2)]
  fold_pairs [where P = config_typed, OF _ typed_scalar(4)] fold_pairs [where P = config_typed, OF _ typed_scalar(5)]

lemma typed_ipv4: "config_typed c \<Longrightarrow> config_typed (fst (hev_config_parse_tunnel_ipv4 r c))"
  by (auto simp: hev_config_parse_tunnel_ipv4_def typed_fold split: yref.splits yaml.splits)

lemma typed_ipv6: "config_typed c \<Longrightarrow> config_typed (fst (hev_config_parse_tunnel_ipv6 r c))"
  by (auto simp: hev_config_parse_tunnel_ipv6_def typed_fold split: yref.splits yaml.splits)

lemma typed_tunnel_pairs: "config_typed c \<Longrightarrow> config_typed (tunnel_pairs ps c)"
proof (induction ps arbitrary: c)
  case (Cons p ps)
  then show ?case by (cases p) (auto split: yref.splits yaml.splits simp: typed_scalar typed_ipv4 typed_ipv6)
qed simp

lemma typed_mapdns:
  assumes "config_typed c"
  shows "config_typed (fst (hev_config_parse_mapdns pton r c))"
  using assms by (auto simp: hev_config_parse_mapdns_def Let_def typed_fold typed_upd split: yref.splits yaml.splits)

lemma given_int_range: "int_range (given_int k kvs)"
proof (cases "given k kvs")
  case None
  then show ?thesis by (simp add: given_int_def int_range_def)
qed (simp add: given_int_def)

lemma typed_misc:
  assumes "config_typed c"
  shows "config_typed (fst (hev_config_parse_misc r c))"
proof (cases "\<exists>ps. r = YRef (YMapping ps)")
  case True
  then obtain ps where r: "r = YRef (YMapping ps)" by blast
  define d where "d = fold (\<lambda>(key, val). misc_scalar key val) (scalar_pairs ps) c"
  have "config_typed d" unfolding d_def by (rule typed_fold(4) [OF assms])
  then show ?thesis
    by (auto simp: r hev_config_parse_misc_def Let_def given_int_range d_def [symmetric] intro!: typed_upd)
qed (use assms in \<open>auto simp: hev_config_parse_misc_def split: yref.splits yaml.splits\<close>)

lemma typed_socks5:
  assumes "config_typed c"
  shows "config_typed (fst (hev_config_parse_socks5 r c))"
proof -
  have s: "server_typed (srv c)" using assms by (simp add: config_typed_def)
  have pair: "server_typed (case (x, y) of (Some u, Some p) \<Rightarrow> q\<lparr>srv_user := Some (take 255 u), srv_pass := Some (take 255 p)\<rparr> | _ \<Rightarrow> q)"
    if "server_typed q" for x y q using that server_upd(5) [OF that] by (cases x; cases y) simp_all
  show ?thesis
  proof (cases "\<exists>ps port addr. r = YRef (YMapping ps) \<and> given ''port'' (scalar_pairs ps) = Some port \<and>
      given ''address'' (scalar_pairs ps) = Some addr")
    case True
    then obtain ps port addr where r: "r = YRef (YMapping ps)" "given ''port'' (scalar_pairs ps) = Some port"
      "given ''address'' (scalar_pairs ps) = Some addr" by blast
    show ?thesis
      unfolding hev_config_parse_socks5_def Let_def r yref.case yaml.case option.case prod.case if_distrib [of fst] fst_conv
      by (intro keep_if [where P = config_typed] typed_upd(9) assms keep_case [where P = server_typed] keep_if [where P = server_typed]
          server_upd pair s)
  next
    case False
    have "fst (hev_config_parse_socks5 r c) = c"
    proof (cases "\<exists>ps. r = YRef (YMapping ps)")
      case True
      then obtain ps where r: "r = YRef (YMapping ps)" by blast
      have "given ''port'' (scalar_pairs ps) = None \<or> given ''address'' (scalar_pairs ps) = None" using False r by auto
      then show ?thesis unfolding hev_config_parse_socks5_def Let_def r yref.case yaml.case
        by (cases "given ''port'' (scalar_pairs ps)"; cases "given ''address'' (scalar_pairs ps)") simp_all
    qed (auto simp: hev_config_parse_socks5_def split: yref.splits yaml.splits)
    then show ?thesis using assms by simp
  qed
qed

lemma typed_section: "config_typed c \<Longrightarrow> config_typed (fst (parse_section pton key v c))"
  by (auto simp: parse_section_def typed_socks5 typed_misc typed_mapdns hev_config_parse_tunnel_def typed_tunnel_pairs
      split: yref.splits yaml.splits)

lemma typed_doc_pairs: "config_typed c \<Longrightarrow> config_typed (fst (doc_pairs pton ps c))"
proof (induction pton ps c rule: doc_pairs.induct)
  case (2 pton k v ps c)
  then show ?case using typed_section [of c pton _ v] by (auto split: yref.splits yaml.splits prod.splits) (metis fst_conv)+
qed simp

lemma fit_sizes_ok:
  assumes "config_typed c"
  shows "config_typed (fit_sizes c)" "config_fits (fit_sizes c)"
proof -
  define d where "d = (if tcp_buffer_size c > TCP_SND_BUF then c\<lparr>tcp_buffer_size := TCP_SND_BUF\<rparr> else c)"
  define u where "u = int32 (CFG_UDP_BUF_SIZE * cfg_udp_copy_buffer_nums d)"
  define m where "m = int32 (TASK_STACK_SIZE + (if tcp_buffer_size d > u then tcp_buffer_size d else u))"
  have f: "fit_sizes c = (if cfg_task_stack_size d < m then d\<lparr>cfg_task_stack_size := m\<rparr> else d)"
    unfolding fit_sizes_def Let_def d_def u_def m_def by (rule refl)
  have d: "config_typed d" using assms by (simp add: d_def typed_upd int_range_def TCP_SND_BUF_def TCP_MSS_def)
  have m: "int_range m" by (simp add: m_def)
  show "config_typed (fit_sizes c)" using d m by (simp add: f typed_upd)
  have t: "tcp_buffer_size d \<le> 65528" "- (2 ^ 31) \<le> tcp_buffer_size d"
    using d by (auto simp: d_def TCP_SND_BUF_def TCP_MSS_def config_typed_def int_range_def)
  have "TASK_STACK_SIZE + tcp_buffer_size d \<le> m \<and> TASK_STACK_SIZE + CFG_UDP_BUF_SIZE * cfg_udp_copy_buffer_nums d \<le> m"
    if n: "0 \<le> cfg_udp_copy_buffer_nums d" "cfg_udp_copy_buffer_nums d \<le> 1000000"
  proof -
    have u: "u = 1500 * cfg_udp_copy_buffer_nums d" using n by (simp add: u_def CFG_UDP_BUF_SIZE_def int32_id)
    have "m = 20480 + (if tcp_buffer_size d > u then tcp_buffer_size d else u)"
      unfolding m_def TASK_STACK_SIZE_def by (rule int32_id) (use n u t in auto)
    then show ?thesis using u by (simp add: TASK_STACK_SIZE_def CFG_UDP_BUF_SIZE_def)
  qed
  then show "config_fits (fit_sizes c)" using t by (auto simp: f config_fits_def)
qed

section \<open>Acceptance\<close>

text \<open>The sections the loop over the document sees, and when one is accepted.\<close>

fun doc_sections :: "(yref \<times> yref) list \<Rightarrow> (string \<times> yref) list" where
  "doc_sections [] = []"
| "doc_sections ((k, v) # ps) =
     (if k = YZero \<or> v = YZero then doc_sections ps
      else case k of YRef (YScalar key) \<Rightarrow> (key, v) # doc_sections ps | _ \<Rightarrow> [])"

definition is_mapping :: "yref \<Rightarrow> bool" where
  "is_mapping v = (case v of YRef (YMapping _) \<Rightarrow> True | _ \<Rightarrow> False)"

definition section_ok :: "string \<Rightarrow> yref \<Rightarrow> bool" where
  "section_ok key v \<longleftrightarrow>
     (key \<in> {''tunnel'', ''socks5'', ''mapdns'', ''misc''} \<longrightarrow> is_mapping v) \<and>
     (key = ''socks5'' \<longrightarrow> (\<forall>ps. v = YRef (YMapping ps) \<longrightarrow>
        (let kvs = scalar_pairs ps in given ''port'' kvs \<noteq> None \<and> given ''address'' kvs \<noteq> None \<and>
          (given ''username'' kvs = None \<longleftrightarrow> given ''password'' kvs = None))))"

lemma mapping_cases: "is_mapping v \<longleftrightarrow> (\<exists>ps. v = YRef (YMapping ps))"
  by (auto simp: is_mapping_def split: yref.splits yaml.splits)

lemma socks5_result:
  "snd (hev_config_parse_socks5 v c) = (if section_ok ''socks5'' v then 0 else - 1)"
proof (cases "is_mapping v")
  case True
  then obtain ps where v: "v = YRef (YMapping ps)" by (auto simp: mapping_cases)
  show ?thesis
    unfolding hev_config_parse_socks5_def Let_def v yref.case yaml.case
    by (cases "given ''port'' (scalar_pairs ps)"; cases "given ''address'' (scalar_pairs ps)")
      (auto simp: section_ok_def is_mapping_def Let_def)
next
  case False
  then show ?thesis by (auto simp: hev_config_parse_socks5_def section_ok_def is_mapping_def split: yref.splits yaml.splits)
qed

lemma section_result: "snd (parse_section pton key v c) = (if section_ok key v then 0 else - 1)"
proof (cases "key = ''socks5''")
  case True
  then show ?thesis using socks5_result [of v c] by (simp add: parse_section_def)
next
  case False
  then show ?thesis
    by (cases "is_mapping v") (auto simp: parse_section_def section_ok_def mapping_cases hev_config_parse_tunnel_def
        hev_config_parse_mapdns_def hev_config_parse_misc_def Let_def split: yref.splits yaml.splits)
qed

lemma doc_pairs_result:
  "snd (doc_pairs pton ps c) = (if \<forall>(k, v) \<in> set (doc_sections ps). section_ok k v then 0 else - 1)"
proof (induction ps arbitrary: c)
  case (Cons p ps)
  obtain k v where p: "p = (k, v)" by fastforce
  show ?case
  proof (cases "\<exists>key. k = YRef (YScalar key) \<and> v \<noteq> YZero")
    case True
    then obtain key where key: "k = YRef (YScalar key)" "v \<noteq> YZero" by blast
    obtain d r where d: "parse_section pton key v c = (d, r)" by fastforce
    have "r = (if section_ok key v then 0 else - 1)" using section_result [of pton key v c] d by simp
    then show ?thesis using Cons.IH [of d] d key by (simp add: p)
  qed (use Cons.IH [of c] in \<open>auto simp: p split: yref.splits yaml.splits\<close>)
qed simp

text \<open>
  A number above the range of an \<^verbatim>\<open>int\<close> is taken modulo \<open>2 ^ 32\<close>: the size of the TCP buffer may come
  out negative, and the bound from above keeps it.
\<close>

lemma tcp_buffer_size_negative:
  "tcp_buffer_size (fit_sizes (misc_scalar ''tcp-buffer-size'' ''4294967295'' hev_config_reset)) = - 1"
  by (simp add: misc_scalar_def fit_sizes_def to_int_def strtoul_def strto_def isspace_def digit_val_def int32_def
      hev_config_reset_def TCP_SND_BUF_def TCP_MSS_def CFG_UDP_BUF_SIZE_def TASK_STACK_SIZE_def Let_def)

lemma config_init_ok:
  assumes "hev_config_init pton doc = (c, r)"
  shows "config_typed c \<and> (r = 0 \<longrightarrow> config_fits c)"
proof (cases "\<exists>ps. doc = Some (YRef (YMapping ps))")
  case True
  then obtain ps where doc: "doc = Some (YRef (YMapping ps))" by blast
  obtain d q where d: "doc_pairs pton ps hev_config_reset = (d, q)" by fastforce
  have "config_typed d" using typed_doc_pairs [OF typed_reset, of pton ps] d by simp
  then show ?thesis using assms d fit_sizes_ok [of d]
    by (auto simp: hev_config_init_def hev_config_parse_doc_def doc split: if_splits)
next
  case False
  then show ?thesis using assms typed_reset
    by (auto simp: hev_config_init_def hev_config_parse_doc_def split: option.splits yref.splits yaml.splits)
qed

lemma config_init_fits: "hev_config_init pton doc = (c, 0) \<Longrightarrow> config_fits c"
  using config_init_ok by blast

section \<open>Properties\<close>

text \<open>
  C16: Reading a configuration leaves every variable well typed, whatever document it is given, also
  when it is rejected: each string within its array, each number within its C type, user and password
  both set or both not, the read-write timeouts positive.  When the document is accepted the TCP buffer
  is at most the send buffer of the TCP stack and, for a number of UDP buffers whose size is no
  overflow, the stack of a task is big enough for either kind of buffer.
\<close>

theorem config_is_well_typed:
  assumes "hev_config_init pton doc = (c, r)"
  shows "config_typed c \<and> (r = 0 \<longrightarrow> config_fits c)"
  by (rule config_init_ok [OF assms])

theorem config_is_well_typed_witness:
  "\<exists>c. hev_config_init (\<lambda>_. None) (Some (YRef (YMapping
       [(YRef (YScalar ''socks5''), YRef (YMapping
           [(YRef (YScalar ''port''), YRef (YScalar ''1080'')), (YRef (YScalar ''address''), YRef (YScalar ''::1''))])),
        (YRef (YScalar ''misc''), YRef (YMapping [(YRef (YScalar ''tcp-buffer-size''), YRef (YScalar ''99999''))]))]))) = (c, 0)
     \<and> config_typed c \<and> config_fits c"
  (is "\<exists>c. hev_config_init ?pton (Some (YRef (YMapping ?ps))) = (c, 0) \<and> _")
proof -
  obtain d q where d: "doc_pairs ?pton ?ps hev_config_reset = (d, q)" by fastforce
  then have "q = 0" using doc_pairs_result [of ?pton ?ps hev_config_reset]
    by (simp add: section_ok_def is_mapping_def given_def split: if_splits)
  then have "hev_config_init ?pton (Some (YRef (YMapping ?ps))) = (fit_sizes d, 0)"
    using d by (simp add: hev_config_init_def hev_config_parse_doc_def)
  with config_is_well_typed [OF this] show ?thesis by blast
qed

text \<open>
  C35: A configuration is accepted exactly when the parser loaded a mapping in which every section the
  loop sees is good: the four known sections are mappings, and the server's section has an address, a
  port, and a user and a password or neither.
\<close>

theorem config_accepted_iff:
  "snd (hev_config_init pton doc) = 0 \<longleftrightarrow>
     (\<exists>ps. doc = Some (YRef (YMapping ps)) \<and> list_all (\<lambda>(k, v). section_ok k v) (doc_sections ps))"
proof (cases "\<exists>ps. doc = Some (YRef (YMapping ps))")
  case True
  then obtain ps where doc: "doc = Some (YRef (YMapping ps))" by blast
  show ?thesis using doc_pairs_result [of pton ps hev_config_reset]
    by (auto simp: hev_config_init_def hev_config_parse_doc_def doc list_all_iff split: prod.splits if_splits)
next
  case False
  then show ?thesis
    by (auto simp: hev_config_init_def hev_config_parse_doc_def split: option.splits yref.splits yaml.splits)
qed

end
