(* ===== verification/SessionTCP.thy ===== *)
theory SessionTCP
  imports TaskSplice Socks5Client Pbuf RingBuffer SessionSet Config
begin

text \<open>
  A TCP session of the tunnel, \<^verbatim>\<open>src/hev-socks5-session.c\<close> and \<^verbatim>\<open>src/hev-socks5-session-tcp.c\<close>: it carries
  the bytes between a connection of the lwIP stack and one to the SOCKS5 server.  What lwIP received
  waits in a chain of packet buffers, what the server sent in a ring buffer that lwIP reads in place.

  The lwIP side of the connection is a record of scripts like the kernel.  The callbacks of lwIP are run
  by other tasks, so they come in batches, one whenever the session gives up the processor: when it
  yields and when it waits for the mutex.  Of lwIP the scripts assume what its interface promises: it
  delivers at most what the window allows and nothing after the end of the stream, it acknowledges at
  most what it accepted, and it calls nothing once it has reported an error.
\<close>

section \<open>The lwIP side\<close>

datatype lw_event = LwRecv "pbuf list" | LwEof | LwSent nat | LwErr

record lwip =
  lw_events :: "lw_event list list"
  lw_write :: "bool list"
  lw_output :: "bool list"
  lw_got :: "byte list"
  lw_eof :: bool
  lw_wnd :: nat
  lw_sent :: "byte list"
  lw_ackd :: nat
  lw_refused :: bool
  lw_fin :: bool

record session_tcp = client_tcp +
  ts_pcb :: bool
  ts_queue :: "pbuf list"
  ts_eof :: bool
  ts_buffer :: "ring option"
  ts_node :: nat
  ts_tunnel :: sessions
  ts_lwip :: lwip

definition TCP_WND :: nat where "TCP_WND = 8 * 8191"

definition lw_upd :: "(lwip \<Rightarrow> lwip) \<Rightarrow> session_tcp \<Rightarrow> session_tcp" where
  "lw_upd f self = self\<lparr>ts_lwip := f (ts_lwip self)\<rparr>"

text \<open>\<^verbatim>\<open>tcp_recved\<close> opens the window, \<^verbatim>\<open>tcp_write\<close> queues bytes or refuses them, \<^verbatim>\<open>tcp_output\<close> may fail.\<close>

definition tcp_recved :: "nat \<Rightarrow> session_tcp \<Rightarrow> session_tcp" where
  "tcp_recved n = lw_upd (\<lambda>w. w\<lparr>lw_wnd := min TCP_WND (lw_wnd w + n)\<rparr>)"

definition tcp_write :: "byte list \<Rightarrow> session_tcp \<Rightarrow> session_tcp \<times> bool" where
  "tcp_write bs self =
     (let ok = (case lw_write (ts_lwip self) of [] \<Rightarrow> True | r # _ \<Rightarrow> r) in
      (lw_upd (\<lambda>w. w\<lparr>lw_write := tl (lw_write w), lw_sent := (if ok then lw_sent w @ bs else lw_sent w),
         lw_refused := lw_refused w \<or> \<not> ok\<rparr>) self, ok))"

definition tcp_output :: "session_tcp \<Rightarrow> session_tcp \<times> bool" where
  "tcp_output self =
     (lw_upd (\<lambda>w. w\<lparr>lw_output := tl (lw_output w)\<rparr>) self, case lw_output (ts_lwip self) of [] \<Rightarrow> True | r # _ \<Rightarrow> r)"

definition tcp_shutdown :: "session_tcp \<Rightarrow> session_tcp" where
  "tcp_shutdown = lw_upd (\<lambda>w. w\<lparr>lw_fin := True\<rparr>)"

section \<open>The callbacks\<close>

text \<open>Waking the session's task is what ends its wait in the script of the kernel.\<close>

definition hev_socks5_session_terminate :: "'a socks5_scheme \<Rightarrow> 'a socks5_scheme" where
  "hev_socks5_session_terminate self = hev_socks5_set_timeout 0 self"

definition tcp_recv_handler :: "pbuf list \<Rightarrow> session_tcp \<Rightarrow> session_tcp" where
  "tcp_recv_handler p self =
     (if p \<noteq> [] then self\<lparr>ts_queue := if ts_queue self \<noteq> [] then pbuf_cat (ts_queue self) p else p\<rparr>
      else self\<lparr>ts_eof := True\<rparr>)"

text \<open>\<^term>\<open>None\<close> is an access through a \<^verbatim>\<open>NULL\<close> pointer.\<close>

definition tcp_sent_handler :: "nat \<Rightarrow> session_tcp \<Rightarrow> session_tcp option" where
  "tcp_sent_handler len self =
     map_option (\<lambda>b. self\<lparr>ts_buffer := Some (hev_ring_buffer_read_release b len)\<rparr>) (ts_buffer self)"

definition tcp_err_handler :: "session_tcp \<Rightarrow> session_tcp" where
  "tcp_err_handler self = hev_socks5_session_terminate (self\<lparr>ts_pcb := False\<rparr>)"

fun lw_step :: "lw_event \<Rightarrow> session_tcp \<Rightarrow> session_tcp option" where
  "lw_step (LwRecv p) self =
     (let w = ts_lwip self; n = length (contents p) in
      if ts_pcb self \<and> \<not> lw_eof w \<and> p \<noteq> [] \<and> chain_ok p \<and> n \<le> lw_wnd w
      then Some (tcp_recv_handler p (lw_upd (\<lambda>w. w\<lparr>lw_got := lw_got w @ contents p, lw_wnd := lw_wnd w - n\<rparr>) self))
      else Some self)"
| "lw_step LwEof self =
     Some (if ts_pcb self then tcp_recv_handler [] (lw_upd (\<lambda>w. w\<lparr>lw_eof := True\<rparr>) self) else self)"
| "lw_step (LwSent n) self =
     (let w = ts_lwip self; k = min n (min 65535 (length (lw_sent w) - lw_ackd w)) in
      if ts_pcb self \<and> k \<noteq> 0 then tcp_sent_handler k (lw_upd (\<lambda>w. w\<lparr>lw_ackd := lw_ackd w + k\<rparr>) self) else Some self)"
| "lw_step LwErr self = Some (if ts_pcb self then tcp_err_handler self else self)"

fun lw_steps :: "lw_event list \<Rightarrow> session_tcp \<Rightarrow> session_tcp option" where
  "lw_steps [] self = Some self"
| "lw_steps (e # es) self = Option.bind (lw_step e self) (lw_steps es)"

definition others_run :: "session_tcp \<Rightarrow> session_tcp option" where
  "others_run self =
     (case lw_events (ts_lwip self) of
        [] \<Rightarrow> Some self
      | es # r \<Rightarrow> lw_steps es (lw_upd (\<lambda>w. w\<lparr>lw_events := r\<rparr>) self))"

section \<open>The two directions\<close>

text \<open>A yield lets the other tasks run, but a sleep of zero returns at once.\<close>

definition session_tcp_yielder :: "int \<Rightarrow> session_tcp yielder" where
  "session_tcp_yielder maxc ty st =
     do {
       (st1, res) \<leftarrow> hev_socks5_task_io_yielder ty st;
       self \<leftarrow> (if ty = HEV_TASK_WAITIO \<and> s5_timeout (fst st) = 0 then Some (fst st1) else others_run (fst st1));
       Some ((self\<lparr>ts_tunnel := hev_socks5_tunnel_update_session maxc (ts_node self) (ts_tunnel self)\<rparr>,
         snd st1), res)
     }"

definition tcp_splice_f :: "session_tcp \<times> os \<Rightarrow> ((session_tcp \<times> os) \<times> int) option" where
  "tcp_splice_f st =
     (let self = fst st in
      if ts_queue self \<noteq> [] then
        let (os1, s) = sys_send (s5_fd self) (concat (map payload (take 64 (ts_queue self)))) (snd st) in
        (case s of
           SysAgain \<Rightarrow> Some ((self, os1), 0)
         | SysErr \<Rightarrow> Some ((self, os1), - 1)
         | SysOk n \<Rightarrow>
             if n = 0 then Some ((self, os1), - 1)
             else do {
               self1 \<leftarrow> others_run self;
               let self2 = self1\<lparr>ts_queue := pbuf_free_header (ts_queue self1) (u16 n)\<rparr>;
               Some ((if ts_pcb self2 then tcp_recved (u16 n) self2 else self2, os1), 1)
             })
      else if ts_eof self then Some ((self, sys_shutdown (s5_fd self) (snd st)), - 1)
      else Some (st, 0))"

text \<open>The loop of \<^verbatim>\<open>tcp_write\<close> over the vector; the length of a block is passed as a \<^verbatim>\<open>u16_t\<close>.\<close>

fun write_blocks :: "byte list \<Rightarrow> iovec list \<Rightarrow> session_tcp \<Rightarrow> session_tcp \<times> bool" where
  "write_blocks d [] self = (self, True)"
| "write_blocks d ((off, len) # iov) self =
     (let (self1, ok) = tcp_write (mem_get d off (u16 len)) self; (self2, oks) = write_blocks d iov self1
      in (self2, ok \<and> oks))"

text \<open>The first half of \<^verbatim>\<open>tcp_splice_b\<close> fills the ring buffer.\<close>

definition splice_b_read :: "ring \<Rightarrow> int \<Rightarrow> os \<Rightarrow> ring \<times> os \<times> int" where
  "splice_b_read b fd os =
     (let iov = hev_ring_buffer_writing b in
      if iov \<noteq> [] then
        let (os1, s) = sys_recv fd (iov_len iov) os in
        case s of
          SysAgain \<Rightarrow> (b, os1, 0)
        | SysErr \<Rightarrow> (b, os1, - 1)
        | SysOk bs \<Rightarrow>
            if bs = [] then (b, os1, - 1)
            else (hev_ring_buffer_write_finish (b\<lparr>rdata := iov_store (rdata b) iov bs\<rparr>) (length bs), os1, 1)
      else (b, os, 0))"

text \<open>The second half, with the mutex held, hands what is readable to lwIP.\<close>

definition splice_b_out :: "session_tcp \<Rightarrow> os \<Rightarrow> int \<Rightarrow> ((session_tcp \<times> os) \<times> int) option" where
  "splice_b_out self1 os1 res =
     (if ts_pcb self1 then do {
         b2 \<leftarrow> ts_buffer self1;
         let iov = hev_ring_buffer_reading b2;
         if iov \<noteq> [] then
           let (self2, ok) = write_blocks (rdata b2) iov self1;
               (self3, out) = tcp_output (self2\<lparr>ts_buffer := Some (hev_ring_buffer_read_finish b2 (iov_len iov))\<rparr>) in
           Some ((self3, os1), if ok \<and> out then 1 else - 1)
         else Some ((if res < 0 then tcp_shutdown self1 else self1, os1), res)
       }
       else Some ((self1, os1), - 1))"

definition tcp_splice_b :: "session_tcp \<times> os \<Rightarrow> ((session_tcp \<times> os) \<times> int) option" where
  "tcp_splice_b st =
     do {
       b \<leftarrow> ts_buffer (fst st);
       let (b1, os1, res) = splice_b_read b (s5_fd (fst st)) (snd st);
       self1 \<leftarrow> others_run ((fst st)\<lparr>ts_buffer := Some b1\<rparr>);
       splice_b_out self1 os1 res
     }"

section \<open>The relay\<close>

partial_function (option) session_splice_loop ::
    "int \<Rightarrow> session_tcp \<times> os \<Rightarrow> int \<Rightarrow> int \<Rightarrow> (session_tcp \<times> os) option" where
  "session_splice_loop maxc st res_f res_b =
     Option.bind (if res_f \<ge> 0 then tcp_splice_f st else Some (st, res_f)) (\<lambda>(st1, res_f1).
     Option.bind (if res_b \<ge> 0 then tcp_splice_b st1 else Some (st1, res_b)) (\<lambda>(st2, res_b1).
       case yield_choice res_f1 res_b1 of
         None \<Rightarrow> Some st2
       | Some ty \<Rightarrow> Option.bind (session_tcp_yielder maxc ty st2) (\<lambda>(st3, y).
           if y < 0 then Some st3 else session_splice_loop maxc st3 res_f1 res_b1)))"

text \<open>The second loop waits until lwIP has acknowledged what it still reads from the ring buffer.\<close>

partial_function (option) drain_loop :: "int \<Rightarrow> session_tcp \<times> os \<Rightarrow> (session_tcp \<times> os) option" where
  "drain_loop maxc st =
     (if \<not> ts_pcb (fst st) then Some st
      else Option.bind (ts_buffer (fst st)) (\<lambda>b.
        if hev_ring_buffer_get_use_size b = 0 then Some st
        else Option.bind (session_tcp_yielder maxc HEV_TASK_WAITIO st) (\<lambda>(st1, y).
          if y < 0 then Some st1 else drain_loop maxc st1)))"

declare session_splice_loop.simps [code] drain_loop.simps [code]

text \<open>The array of the ring buffer is on the stack of the task; its contents are an input.\<close>

definition hev_socks5_session_tcp_splice :: "int \<Rightarrow> byte list \<Rightarrow> session_tcp \<times> os \<Rightarrow> (session_tcp \<times> os) option" where
  "hev_socks5_session_tcp_splice maxc mem st =
     (if \<not> ts_pcb (fst st) then Some st
      else do {
        st1 \<leftarrow> session_splice_loop maxc ((fst st)\<lparr>ts_buffer := Some (hev_ring_buffer_alloca mem)\<rparr>, snd st) 1 1;
        drain_loop maxc st1
      })"

section \<open>The session\<close>

definition c_str :: "string \<Rightarrow> cstring" where
  "c_str s = map of_char s"

definition set_sock_mark :: "int \<Rightarrow> nat \<Rightarrow> os \<Rightarrow> os \<times> int" where
  "set_sock_mark fd mark os = sys_setsockopt fd SO_MARK (int mark) os"

definition set_sock_tcp_fastopen :: "int \<Rightarrow> bool \<Rightarrow> os \<Rightarrow> os" where
  "set_sock_tcp_fastopen fd enable os = (if \<not> enable then os else fst (sys_setsockopt fd TCP_FASTOPEN_CONNECT 1 os))"

definition hev_socks5_session_bind :: "config_server \<Rightarrow> int \<Rightarrow> sockaddr6 \<Rightarrow> os \<Rightarrow> os \<times> int" where
  "hev_socks5_session_bind s fd dest os =
     (let (os1, res) = (if srv_mark s \<noteq> 0 then set_sock_mark fd (srv_mark s) os else (os, 0)) in
      if res < 0 then (os1, - 1) else (set_sock_tcp_fastopen fd (srv_fastopen s) os1, 0))"

definition hev_socks5_session_run ::
    "socks5_conf \<Rightarrow> resolver \<Rightarrow> config_server \<Rightarrow> 'a socks5_client_scheme client_class \<Rightarrow>
     ('a socks5_client_scheme \<times> os \<Rightarrow> ('a socks5_client_scheme \<times> os) option) \<Rightarrow>
     'a socks5_client_scheme \<times> os \<Rightarrow> ('a socks5_client_scheme \<times> os) option" where
  "hev_socks5_session_run conf rsv s klass splicer st =
     do {
       (st1, res) \<leftarrow> hev_socks5_client_connect conf rsv klass (c_str (srv_addr s)) (int (srv_port s)) st;
       if res < 0 then Some st1
       else do {
         let st2 = (case (srv_user s, srv_pass s) of
           (Some user, Some pass) \<Rightarrow> (hev_socks5_client_set_auth (Some (c_str user)) (Some (c_str pass)) (fst st1), snd st1)
         | _ \<Rightarrow> st1);
         (st3, res) \<leftarrow> hev_socks5_client_handshake conf klass (srv_pipeline s) st2;
         if res < 0 then Some st3 else splicer st3
       }
     }"

text \<open>What lwIP delivered while the session was connecting is in its queue when the relay starts.\<close>

definition session_tcp_run ::
    "socks5_conf \<Rightarrow> resolver \<Rightarrow> config \<Rightarrow> byte list \<Rightarrow> session_tcp \<times> os \<Rightarrow> (session_tcp \<times> os) option" where
  "session_tcp_run conf rsv cfg mem =
     hev_socks5_session_run conf rsv (srv cfg) (hev_socks5_client_tcp_class (hev_socks5_session_bind (srv cfg)))
       (\<lambda>st. do { self \<leftarrow> others_run (fst st); hev_socks5_session_tcp_splice (max_session_count cfg) mem (self, snd st) })"

text \<open>The address is a variable on the stack; its contents before the call are an input.\<close>

definition hev_socks5_session_tcp_construct ::
    "mapped_dns option \<Rightarrow> socks5_addr \<Rightarrow> ip_addr \<Rightarrow> u16 \<Rightarrow> session_tcp \<times> os \<Rightarrow>
     (mapped_dns option \<times> (session_tcp \<times> os) \<times> int) option" where
  "hev_socks5_session_tcp_construct dns addr local_ip local_port st =
     do {
       (dns1, addr1, res) \<leftarrow> hev_socks5_addr_from_lwip dns addr local_ip local_port;
       if res < 0 then Some (dns1, st, - 1)
       else
         let (st1, res) = hev_socks5_client_tcp_construct addr1 st in
         if res < 0 then Some (dns1, st1, - 1) else Some (dns1, ((fst st1)\<lparr>ts_pcb := True\<rparr>, snd st1), 0)
     }"

text \<open>The zeroed object of a connection of lwIP.\<close>

definition session_tcp_zero :: "nat \<Rightarrow> sessions \<Rightarrow> lwip \<Rightarrow> session_tcp" where
  "session_tcp_zero node tunnel w = client_tcp.extend client_tcp_zero
     \<lparr>ts_pcb = False, ts_queue = [], ts_eof = False, ts_buffer = None, ts_node = node, ts_tunnel = tunnel, ts_lwip = w\<rparr>"

definition hev_socks5_session_tcp_new ::
    "nat \<Rightarrow> sessions \<Rightarrow> lwip \<Rightarrow> mapped_dns option \<Rightarrow> socks5_addr \<Rightarrow> ip_addr \<Rightarrow> u16 \<Rightarrow> os \<Rightarrow>
     (mapped_dns option \<times> os \<times> session_tcp option) option" where
  "hev_socks5_session_tcp_new node tunnel w dns addr local_ip local_port os =
     (let (os1, ok) = sys_malloc os in
      if \<not> ok then Some (dns, os1, None)
      else do {
        (dns1, st, res) \<leftarrow> hev_socks5_session_tcp_construct dns addr local_ip local_port (session_tcp_zero node tunnel w, os1);
        Some (if res < 0 then (dns1, sys_free (snd st), None) else (dns1, snd st, Some (fst st)))
      })"

text \<open>The connection is aborted after its callbacks are removed, so that none of them runs again.\<close>

definition hev_socks5_session_tcp_destruct :: "session_tcp \<times> os \<Rightarrow> (session_tcp \<times> os) option" where
  "hev_socks5_session_tcp_destruct st =
     do {
       self \<leftarrow> others_run (fst st);
       let self1 = self\<lparr>ts_pcb := False, ts_queue := fst (pbuf_free (ts_queue self))\<rparr>;
       Some (self1, hev_socks5_client_tcp_destruct self1 (snd st))
     }"

text \<open>The task of a TCP session in \<^verbatim>\<open>hev-socks5-tunnel.c\<close>; the session holds the only reference.\<close>

definition hev_socks5_session_task_entry ::
    "socks5_conf \<Rightarrow> resolver \<Rightarrow> config \<Rightarrow> byte list \<Rightarrow> session_tcp \<times> os \<Rightarrow> (session_tcp \<times> os) option" where
  "hev_socks5_session_task_entry conf rsv cfg mem st =
     do {
       st1 \<leftarrow> session_tcp_run conf rsv cfg mem st;
       let self = (fst st1)\<lparr>ts_tunnel := hev_socks5_tunnel_delete_session (ts_node (fst st1)) (ts_tunnel (fst st1))\<rparr>;
       hev_socks5_session_tcp_destruct (self, snd st1)
     }"

text \<open>
  \<^verbatim>\<open>tcp_accept_handler\<close> of \<^verbatim>\<open>hev-socks5-tunnel.c\<close>, a callback of lwIP: the task that runs it holds the
  mutex.  When the new task cannot be made the session is released at once, and its destructor waits
  for the mutex that its own task holds: \<^term>\<open>None\<close>.
\<close>

definition tcp_accept_handler ::
    "bool \<Rightarrow> config \<Rightarrow> nat \<Rightarrow> lwip \<Rightarrow> mapped_dns option \<Rightarrow> socks5_addr \<Rightarrow> ip_addr \<Rightarrow> u16 \<Rightarrow> int \<Rightarrow> sessions \<times> os \<Rightarrow>
     (mapped_dns option \<times> (sessions \<times> os) \<times> session_tcp option \<times> int) option" where
  "tcp_accept_handler run cfg node w dns addr local_ip local_port err st =
     (if err \<noteq> 0 then Some (dns, st, None, err)
      else if \<not> run then Some (dns, st, None, - 14)
      else do {
        (dns1, os1, tcp) \<leftarrow> hev_socks5_session_tcp_new node (fst st) w dns addr local_ip local_port (snd st);
        (case tcp of
           None \<Rightarrow> Some (dns1, (fst st, os1), None, - 1)
         | Some self \<Rightarrow>
             let (os2, ok) = sys_malloc os1 in
             if \<not> ok then None
             else do {
               tunnel \<leftarrow> hev_socks5_tunnel_insert_session (max_session_count cfg) node (fst st);
               Some (dns1, (tunnel, os2), Some (self\<lparr>ts_tunnel := tunnel\<rparr>), 0)
             })
      })"

section \<open>The invariant\<close>

lemma lw_upd_sel [simp]:
  "s5_fd (lw_upd f s) = s5_fd s" "s5_timeout (lw_upd f s) = s5_timeout s" "ts_pcb (lw_upd f s) = ts_pcb s"
  "ts_queue (lw_upd f s) = ts_queue s" "ts_eof (lw_upd f s) = ts_eof s" "ts_buffer (lw_upd f s) = ts_buffer s"
  "ts_node (lw_upd f s) = ts_node s" "ts_tunnel (lw_upd f s) = ts_tunnel s" "ts_lwip (lw_upd f s) = f (ts_lwip s)"
  by (simp_all add: lw_upd_def)

lemma set_timeout_session [simp]:
  "ts_pcb (hev_socks5_set_timeout t s) = ts_pcb s" "ts_queue (hev_socks5_set_timeout t s) = ts_queue s"
  "ts_eof (hev_socks5_set_timeout t s) = ts_eof s" "ts_buffer (hev_socks5_set_timeout t s) = ts_buffer s"
  "ts_node (hev_socks5_set_timeout t s) = ts_node s" "ts_tunnel (hev_socks5_set_timeout t s) = ts_tunnel s"
  "ts_lwip (hev_socks5_set_timeout t s) = ts_lwip s"
  by (simp_all add: hev_socks5_set_timeout_def)

text \<open>
  Towards the server: what was sent and what waits is what lwIP delivered; the window of lwIP and the
  bytes that wait share a fixed amount; and the end of the stream is passed on behind the last byte.
\<close>

definition fwd_inv :: "byte list \<Rightarrow> session_tcp \<Rightarrow> os \<Rightarrow> bool" where
  "fwd_inv F0 self a \<longleftrightarrow> chain_ok (ts_queue self) \<and>
     os_out a (s5_fd self) @ contents (ts_queue self) = F0 @ lw_got (ts_lwip self) \<and>
     lw_wnd (ts_lwip self) + length (contents (ts_queue self)) \<le> TCP_WND \<and>
     (ts_pcb self \<longrightarrow> lw_wnd (ts_lwip self) + length (contents (ts_queue self)) = TCP_WND) \<and>
     ts_eof self = lw_eof (ts_lwip self) \<and>
     (s5_fd self \<in> set (os_shut a) \<longrightarrow> ts_queue self = [] \<and> ts_eof self)"

text \<open>
  From the server: as long as lwIP refused nothing, what it accepted, what the ring buffer holds for it
  and what is still to come is the stream of the server, and the part of the ring buffer that lwIP may
  still read holds the bytes it has not acknowledged.
\<close>

definition bwd_ring :: "byte list \<Rightarrow> ring \<Rightarrow> lwip \<Rightarrow> byte list \<Rightarrow> bool" where
  "bwd_ring B0 b w rx \<longleftrightarrow> ring_inv b \<and> lw_ackd w \<le> length (lw_sent w) \<and>
     length (lw_sent w) \<le> lw_ackd w + length (unacked b) \<and> (lw_fin w \<longrightarrow> readable b = []) \<and>
     (\<not> lw_refused w \<longrightarrow> lw_sent w @ readable b @ rx = B0 \<and> unacked b = drop (lw_ackd w) (lw_sent w))"

definition bwd_inv :: "nat \<Rightarrow> byte list \<Rightarrow> session_tcp \<Rightarrow> os \<Rightarrow> bool" where
  "bwd_inv M B0 self a \<longleftrightarrow> (\<exists>b. ts_buffer self = Some b \<and> max_size b = M \<and>
     bwd_ring B0 b (ts_lwip self) (rx_bytes (os_rx a (s5_fd self))))"

definition ev_bytes :: "lw_event \<Rightarrow> nat" where
  "ev_bytes e = (case e of LwRecv p \<Rightarrow> length (contents p) | _ \<Rightarrow> 0)"

text \<open>What the callbacks leave alone.\<close>

definition cb_frame :: "session_tcp \<Rightarrow> session_tcp \<Rightarrow> bool" where
  "cb_frame s s' \<longleftrightarrow> s5_fd s' = s5_fd s \<and> (0 \<le> s5_timeout s \<longrightarrow> 0 \<le> s5_timeout s') \<and>
     map_option readable (ts_buffer s') = map_option readable (ts_buffer s) \<and>
     lw_fin (ts_lwip s') = lw_fin (ts_lwip s) \<and> (\<exists>later. contents (ts_queue s') = contents (ts_queue s) @ later)"

lemma cb_frame_refl [simp]: "cb_frame s s"
  by (simp add: cb_frame_def)

lemma cb_frame_trans: "cb_frame s s1 \<Longrightarrow> cb_frame s1 s2 \<Longrightarrow> cb_frame s s2"
  by (auto simp: cb_frame_def)

lemma recv_queue:
  assumes "fwd_inv F0 self a" "p \<noteq> []" "chain_ok p" "length (contents p) \<le> lw_wnd (ts_lwip self)"
  defines "q \<equiv> (if ts_queue self \<noteq> [] then pbuf_cat (ts_queue self) p else p)"
  shows "chain_ok q" "contents q = contents (ts_queue self) @ contents p"
proof -
  have "length (contents (ts_queue self)) + length (contents p) < 65536"
    using assms(1,4) by (auto simp: fwd_inv_def TCP_WND_def)
  then show "chain_ok q" "contents q = contents (ts_queue self) @ contents p"
    using cat_ok [of "ts_queue self" p] assms(1,3) by (auto simp: q_def fwd_inv_def)
qed

lemma sent_ring:
  assumes "bwd_ring B0 b w rx" "k \<le> length (lw_sent w) - lw_ackd w"
  shows "bwd_ring B0 (hev_ring_buffer_read_release b k) (w\<lparr>lw_ackd := lw_ackd w + k\<rparr>) rx"
    "readable (hev_ring_buffer_read_release b k) = readable b" "max_size (hev_ring_buffer_read_release b k) = max_size b"
proof -
  have k: "k \<le> length (unacked b)" using assms by (auto simp: bwd_ring_def)
  have inv: "ring_inv b" using assms(1) by (simp add: bwd_ring_def)
  note law = rg.rel_law [OF inv k]
  show "readable (hev_ring_buffer_read_release b k) = readable b" "max_size (hev_ring_buffer_read_release b k) = max_size b"
    using law by blast+
  show "bwd_ring B0 (hev_ring_buffer_read_release b k) (w\<lparr>lw_ackd := lw_ackd w + k\<rparr>) rx"
    using law assms k by (auto simp: bwd_ring_def add.commute simp del: length_unacked)
qed

lemma lw_step_inv:
  assumes "fwd_inv F0 self a" "bwd_inv M B0 self a"
  shows "\<exists>self'. lw_step e self = Some self' \<and> fwd_inv F0 self' a \<and> bwd_inv M B0 self' a \<and> cb_frame self self' \<and>
    length (contents (ts_queue self')) \<le> length (contents (ts_queue self)) + ev_bytes e \<and>
    lw_events (ts_lwip self') = lw_events (ts_lwip self)"
proof (cases e)
  case (LwRecv p)
  show ?thesis
  proof (cases "ts_pcb self \<and> \<not> lw_eof (ts_lwip self) \<and> p \<noteq> [] \<and> chain_ok p \<and> length (contents p) \<le> lw_wnd (ts_lwip self)")
    case True
    let ?q = "if ts_queue self \<noteq> [] then pbuf_cat (ts_queue self) p else p"
    have q: "chain_ok ?q" "contents ?q = contents (ts_queue self) @ contents p" using recv_queue [OF assms(1), of p] True by auto
    let ?s = "tcp_recv_handler p (lw_upd (\<lambda>w. w\<lparr>lw_got := lw_got w @ contents p, lw_wnd := lw_wnd w - length (contents p)\<rparr>) self)"
    have "fwd_inv F0 ?s a" using assms(1) q True by (auto simp: fwd_inv_def tcp_recv_handler_def)
    moreover have "bwd_inv M B0 ?s a" using assms(2) by (simp add: bwd_inv_def bwd_ring_def tcp_recv_handler_def)
    moreover have "cb_frame self ?s" using q True by (auto simp: cb_frame_def tcp_recv_handler_def)
    moreover have "ts_queue ?s = ?q" using True by (simp add: tcp_recv_handler_def)
    then have "contents (ts_queue ?s) = contents (ts_queue self) @ contents p" using q(2) by (simp only:)
    moreover have "lw_events (ts_lwip ?s) = lw_events (ts_lwip self)" by (simp add: tcp_recv_handler_def)
    moreover have "lw_step e self = Some ?s" using True LwRecv by (simp only: lw_step.simps Let_def) simp
    ultimately show ?thesis using LwRecv by (intro exI [of _ ?s]) (simp add: ev_bytes_def)
  next
    case False
    then have "lw_step e self = Some self" unfolding LwRecv lw_step.simps Let_def by (simp only: if_False)
    then show ?thesis using assms by simp
  qed
next
  case LwEof
  then show ?thesis using assms by (auto simp: tcp_recv_handler_def fwd_inv_def bwd_inv_def bwd_ring_def cb_frame_def)
next
  case (LwSent n)
  let ?k = "min n (min 65535 (length (lw_sent (ts_lwip self)) - lw_ackd (ts_lwip self)))"
  obtain b where b: "ts_buffer self = Some b" "max_size b = M" "bwd_ring B0 b (ts_lwip self) (rx_bytes (os_rx a (s5_fd self)))"
    using assms(2) by (auto simp: bwd_inv_def)
  note r = sent_ring [OF b(3), of ?k]
  show ?thesis
  proof (cases "ts_pcb self \<and> ?k \<noteq> 0")
    case True
    then show ?thesis using LwSent b r assms(1)
      by (auto simp: tcp_sent_handler_def fwd_inv_def bwd_inv_def cb_frame_def Let_def)
  next
    case False
    then have "lw_step e self = Some self" using LwSent by (auto simp: Let_def)
    then show ?thesis using assms by simp
  qed
next
  case LwErr
  then show ?thesis using assms set_timeout_nonneg [of "self\<lparr>ts_pcb := False\<rparr>" 0]
    by (auto simp: tcp_err_handler_def hev_socks5_session_terminate_def fwd_inv_def bwd_inv_def cb_frame_def)
qed

lemma lw_steps_inv:
  assumes "fwd_inv F0 self a" "bwd_inv M B0 self a"
  shows "\<exists>self'. lw_steps es self = Some self' \<and> fwd_inv F0 self' a \<and> bwd_inv M B0 self' a \<and> cb_frame self self' \<and>
    length (contents (ts_queue self')) \<le> length (contents (ts_queue self)) + sum_list (map ev_bytes es) \<and>
    lw_events (ts_lwip self') = lw_events (ts_lwip self)"
  using assms
proof (induction es arbitrary: self)
  case (Cons e es)
  obtain s1 where 1: "lw_step e self = Some s1" "fwd_inv F0 s1 a" "bwd_inv M B0 s1 a" "cb_frame self s1"
    "length (contents (ts_queue s1)) \<le> length (contents (ts_queue self)) + ev_bytes e"
    "lw_events (ts_lwip s1) = lw_events (ts_lwip self)"
    using lw_step_inv [OF Cons.prems] by blast
  then show ?case using Cons.IH [OF 1(2,3)] cb_frame_trans [OF 1(4)] by fastforce
qed simp

text \<open>The bytes on their way to the server.\<close>

definition pending :: "session_tcp \<Rightarrow> nat" where
  "pending self = length (contents (ts_queue self)) + sum_list (map ev_bytes (concat (lw_events (ts_lwip self))))"

lemma others_run_inv:
  assumes "fwd_inv F0 self a" "bwd_inv M B0 self a"
  shows "\<exists>self'. others_run self = Some self' \<and> fwd_inv F0 self' a \<and> bwd_inv M B0 self' a \<and> cb_frame self self' \<and>
    pending self' \<le> pending self"
proof (cases "lw_events (ts_lwip self)")
  case Nil
  then show ?thesis using assms by (simp add: others_run_def)
next
  case (Cons es r)
  let ?s = "lw_upd (\<lambda>w. w\<lparr>lw_events := r\<rparr>) self"
  have s: "fwd_inv F0 ?s a" "bwd_inv M B0 ?s a" "cb_frame self ?s"
    using assms by (auto simp: fwd_inv_def bwd_inv_def bwd_ring_def cb_frame_def)
  obtain s1 where 1: "lw_steps es ?s = Some s1" "fwd_inv F0 s1 a" "bwd_inv M B0 s1 a" "cb_frame ?s s1"
    "length (contents (ts_queue s1)) \<le> length (contents (ts_queue ?s)) + sum_list (map ev_bytes es)"
    "lw_events (ts_lwip s1) = lw_events (ts_lwip ?s)"
    using lw_steps_inv [OF s(1,2)] by blast
  have "pending s1 \<le> pending self" using 1(5,6) Cons by (simp add: pending_def)
  then show ?thesis using 1(1-3) cb_frame_trans [OF s(3) 1(4)] Cons by (simp add: others_run_def)
qed

section \<open>The steps of the relay\<close>

definition sess_inv :: "nat \<Rightarrow> byte list \<Rightarrow> byte list \<Rightarrow> os \<Rightarrow> session_tcp \<Rightarrow> os \<Rightarrow> bool" where
  "sess_inv M F0 B0 a0 self a \<longleftrightarrow> fwd_inv F0 self a \<and> bwd_inv M B0 self a \<and> io_only a0 a"

definition sess_work :: "session_tcp \<Rightarrow> os \<Rightarrow> nat" where
  "sess_work self a = pending self + 2 * length (rx_bytes (os_rx a (s5_fd self))) +
     (case ts_buffer self of None \<Rightarrow> 0 | Some b \<Rightarrow> rda_size b) + length (os_waits a)"

lemma cb_frame_work:
  assumes "cb_frame s s'" "pending s' \<le> pending s"
  shows "sess_work s' a \<le> sess_work s a"
proof -
  have "(case ts_buffer s' of None \<Rightarrow> 0 | Some b \<Rightarrow> rda_size b) = (case ts_buffer s of None \<Rightarrow> 0 | Some b \<Rightarrow> rda_size b)"
    using assms(1) length_readable unfolding cb_frame_def
    by (cases "ts_buffer s"; cases "ts_buffer s'") (simp, simp, simp, metis option.map(2) option.inject option.case(2))
  then show ?thesis using assms by (simp add: sess_work_def cb_frame_def)
qed

lemma first_blocks: "\<exists>k. concat (map payload (take n q)) = take k (contents q)"
proof (induction q arbitrary: n)
  case (Cons p q)
  show ?case
  proof (cases n)
    case (Suc m)
    obtain k where "concat (map payload (take m q)) = take k (contents q)" using Cons.IH by blast
    then show ?thesis using Suc by (intro exI [of _ "plen p + k"]) simp
  qed (auto intro: exI [of _ 0])
qed simp

lemma take_drop_later [simp]: "take n q @ drop n q @ r = q @ r"
  by (simp flip: append_assoc)

lemma fwd_sent:
  assumes "fwd_inv F0 self1 a" "contents (ts_queue self1) = q @ later" "n \<le> length q"
    and "os_out a1 = (os_out a)(s5_fd self1 := os_out a (s5_fd self1) @ take n q)" "s5_fd self1 \<notin> set (os_shut a1)"
  defines "self2 \<equiv> self1\<lparr>ts_queue := pbuf_free_header (ts_queue self1) (u16 n)\<rparr>"
  shows "fwd_inv F0 (if ts_pcb self2 then tcp_recved (u16 n) self2 else self2) a1"
    "contents (ts_queue (if ts_pcb self2 then tcp_recved (u16 n) self2 else self2)) = drop n (q @ later)"
proof -
  have ok: "chain_ok (ts_queue self1)" using assms(1) by (simp add: fwd_inv_def)
  have n: "n < 65536" using chain_ok_len [OF ok] assms(2,3) by simp
  note fh = free_header_ok [OF ok n]
  have c: "contents (ts_queue self2) = drop n (q @ later)" "chain_ok (ts_queue self2)" using fh n assms(2) by (simp_all add: self2_def)
  then show "contents (ts_queue (if ts_pcb self2 then tcp_recved (u16 n) self2 else self2)) = drop n (q @ later)"
    by (simp add: tcp_recved_def)
  show "fwd_inv F0 (if ts_pcb self2 then tcp_recved (u16 n) self2 else self2) a1"
    using assms(1-5) c n by (auto simp: fwd_inv_def tcp_recved_def self2_def)
qed

text \<open>What a step keeps: the invariant, the deadline, the mark that the stream to lwIP is closed, and progress.\<close>

definition step_ok :: "nat \<Rightarrow> byte list \<Rightarrow> byte list \<Rightarrow> os \<Rightarrow> session_tcp \<Rightarrow> os \<Rightarrow> session_tcp \<Rightarrow> os \<Rightarrow> bool" where
  "step_ok M F0 B0 a0 self a self' a' \<longleftrightarrow> sess_inv M F0 B0 a0 self' a' \<and> s5_fd self' = s5_fd self \<and>
     (0 \<le> s5_timeout self \<longrightarrow> 0 \<le> s5_timeout self') \<and> sess_work self' a' \<le> sess_work self a"

lemma tcp_splice_f_ok:
  assumes "sess_inv M F0 B0 a0 self a"
  shows "\<exists>self' a' r. tcp_splice_f (self, a) = Some ((self', a'), r) \<and> step_ok M F0 B0 a0 self a self' a' \<and>
    lw_fin (ts_lwip self') = lw_fin (ts_lwip self) \<and> r \<in> {- 1, 0, 1} \<and> (r = 1 \<longrightarrow> sess_work self' a' < sess_work self a)"
proof (cases "ts_queue self = []")
  case True
  have f: "fwd_inv F0 self a" "bwd_inv M B0 self a" "io_only a0 a" using assms by (auto simp: sess_inv_def)
  have "fwd_inv F0 self (sys_shutdown (s5_fd self) a)" if "ts_eof self" using f(1) that True by (simp add: fwd_inv_def)
  moreover have "bwd_inv M B0 self (sys_shutdown (s5_fd self) a)" using f(2) by (simp add: bwd_inv_def)
  moreover have "sess_work self (sys_shutdown (s5_fd self) a) = sess_work self a" by (simp add: sess_work_def)
  ultimately show ?thesis using True f io_only_trans [OF f(3), of "sys_shutdown (s5_fd self) a"]
    by (auto simp: tcp_splice_f_def step_ok_def sess_inv_def)
next
  case False
  let ?fd = "s5_fd self" and ?q = "contents (ts_queue self)"
  have f: "fwd_inv F0 self a" "bwd_inv M B0 self a" "io_only a0 a" using assms by (auto simp: sess_inv_def)
  obtain k where k: "concat (map payload (take 64 (ts_queue self))) = take k ?q" using first_blocks by blast
  obtain a1 s where s: "sys_send ?fd (take k ?q) a = (a1, s)" by fastforce
  note io = sys_send_io [OF s] and out = sys_send_out [OF s] and sh = sys_io_shut(2) [OF s]
  have shut: "?fd \<notin> set (os_shut a1)" using f(1) False sh by (auto simp: fwd_inv_def)
  have io1: "io_only a0 a1" using io_only_trans [OF f(3) io(1)] .
  have b1: "bwd_inv M B0 self' a1 = bwd_inv M B0 self' a" for self' using io(2) by (simp add: bwd_inv_def)
  have w1: "sess_work self' a1 = sess_work self' a" for self' using io(2,3) by (simp add: sess_work_def)
  show ?thesis
  proof (cases "\<exists>n. s = SysOk n \<and> n \<noteq> 0")
    case False
    then have "os_out a1 = os_out a" using out by (cases s) auto
    then have "step_ok M F0 B0 a0 self a self a1"
      using f io1 shut \<open>ts_queue self \<noteq> []\<close> b1 w1 sh by (simp add: step_ok_def sess_inv_def fwd_inv_def)
    then show ?thesis using s k False \<open>ts_queue self \<noteq> []\<close> by (cases s) (auto simp: tcp_splice_f_def)
  next
    case True
    then obtain n where n: "s = SysOk n" "n \<noteq> 0" by blast
    have nq: "n \<le> length ?q" "n \<le> k" using sys_send_ok(1) [of ?fd "take k ?q" a a1 n] s n by auto
    obtain self1 where 1: "others_run self = Some self1" "fwd_inv F0 self1 a" "bwd_inv M B0 self1 a" "cb_frame self self1"
      "pending self1 \<le> pending self" using others_run_inv [OF f(1,2)] by blast
    obtain later where q1: "contents (ts_queue self1) = ?q @ later" and fd1: "s5_fd self1 = ?fd"
      using 1(4) by (auto simp: cb_frame_def)
    let ?s2 = "self1\<lparr>ts_queue := pbuf_free_header (ts_queue self1) (u16 n)\<rparr>"
    let ?s3 = "if ts_pcb ?s2 then tcp_recved (u16 n) ?s2 else ?s2"
    have o1: "os_out a1 = (os_out a)(s5_fd self1 := os_out a (s5_fd self1) @ take n ?q)" using out n nq(2) fd1 by (simp add: min_def)
    note fs = fwd_sent [OF 1(2) q1 nq(1) o1 shut [folded fd1]]
    have same: "s5_fd ?s3 = ?fd" "s5_timeout ?s3 = s5_timeout self1" "ts_buffer ?s3 = ts_buffer self1"
      "lw_fin (ts_lwip ?s3) = lw_fin (ts_lwip self)" "lw_events (ts_lwip ?s3) = lw_events (ts_lwip self1)"
      using fd1 1(4) by (auto simp: tcp_recved_def cb_frame_def)
    have "bwd_inv M B0 ?s3 a1" using 1(3) same(1) fd1 io(2) by (auto simp: bwd_inv_def bwd_ring_def tcp_recved_def)
    moreover have "pending ?s3 + n = pending self1" using fs(2) q1 nq(1) same(5) by (simp add: pending_def)
    then have "sess_work ?s3 a1 < sess_work self1 a" using n(2) same fd1 io(2,3) by (simp add: sess_work_def)
    then have "sess_work ?s3 a1 < sess_work self a" using cb_frame_work [OF 1(4,5), of a] by simp
    moreover have "tcp_splice_f (self, a) = Some ((?s3, a1), 1)"
      using s k n 1(1) \<open>ts_queue self \<noteq> []\<close> by (simp add: tcp_splice_f_def Let_def)
    ultimately show ?thesis using fs(1) io1 same 1(4) by (auto simp: step_ok_def sess_inv_def cb_frame_def)
  qed
qed

lemma splice_b_read_ok:
  assumes "splice_b_read b fd a = (b1, a1, r)" "bwd_ring B0 b w (rx_bytes (os_rx a fd))" "\<not> lw_fin w"
  shows "bwd_ring B0 b1 w (rx_bytes (os_rx a1 fd))" "max_size b1 = max_size b" "os_out a1 = os_out a"
    "os_waits a1 = os_waits a" "os_shut a1 = os_shut a" "io_only a a1" "r \<in> {- 1, 0, 1}"
    "2 * length (rx_bytes (os_rx a1 fd)) + rda_size b1 \<le> 2 * length (rx_bytes (os_rx a fd)) + rda_size b"
    "r = 1 \<Longrightarrow> rda_size b1 \<noteq> 0"
proof -
  have inv: "ring_inv b" using assms(2) by (simp add: bwd_ring_def)
  have "bwd_ring B0 b1 w (rx_bytes (os_rx a1 fd)) \<and> max_size b1 = max_size b \<and> os_out a1 = os_out a \<and>
    os_waits a1 = os_waits a \<and> os_shut a1 = os_shut a \<and> io_only a a1 \<and> r \<in> {- 1, 0, 1} \<and>
    2 * length (rx_bytes (os_rx a1 fd)) + rda_size b1 \<le> 2 * length (rx_bytes (os_rx a fd)) + rda_size b \<and>
    (r = 1 \<longrightarrow> rda_size b1 \<noteq> 0)"
  proof (cases "hev_ring_buffer_writing b = []")
    case True
    then show ?thesis using assms by (simp add: splice_b_read_def)
  next
    case False
    obtain a2 s where s: "sys_recv fd (free_space b) a = (a2, s)" by fastforce
    note io = sys_recv_io [OF s] and byt = sys_recv_bytes [OF s] and sh = sys_io_shut(1) [OF s]
    have run: "splice_b_read b fd a = (case s of SysAgain \<Rightarrow> (b, a2, 0) | SysErr \<Rightarrow> (b, a2, - 1)
        | SysOk bs \<Rightarrow> if bs = [] then (b, a2, - 1) else (ring_put b bs, a2, 1))"
      using False s writing_len [OF inv] by (cases s) (simp_all add: splice_b_read_def ring_put_def)
    show ?thesis
    proof (cases "\<exists>bs. s = SysOk bs \<and> bs \<noteq> []")
      case True
      then obtain bs where bs: "s = SysOk bs" "bs \<noteq> []" by blast
      have "length bs \<le> free_space b" using sys_recv_ok(1) [OF s [unfolded bs(1)]] .
      note put = ring_put_refines [OF inv this]
      have rda: "rda_size (ring_put b bs) = rda_size b + length bs" using arg_cong [OF put(3), of length] by simp
      have "bwd_ring B0 (ring_put b bs) w (rx_bytes (os_rx a2 fd))"
        using assms(2,3) put(1-3) byt bs(1) arg_cong [OF put(2), of length] by (simp add: bwd_ring_def)
      then show ?thesis using assms(1) run bs put(4) io sh byt rda by auto
    next
      case False
      then have "b1 = b" "a1 = a2" "r \<in> {- 1, 0}" using assms(1) run by (auto split: sysres.splits if_splits)
      moreover have "rx_bytes (os_rx a2 fd) = rx_bytes (os_rx a fd)" using byt False by (cases s) auto
      ultimately show ?thesis using assms(2) io sh by auto
    qed
  qed
  then show "bwd_ring B0 b1 w (rx_bytes (os_rx a1 fd))" "max_size b1 = max_size b" "os_out a1 = os_out a"
    "os_waits a1 = os_waits a" "os_shut a1 = os_shut a" "io_only a a1" "r \<in> {- 1, 0, 1}"
    "2 * length (rx_bytes (os_rx a1 fd)) + rda_size b1 \<le> 2 * length (rx_bytes (os_rx a fd)) + rda_size b"
    "r = 1 \<Longrightarrow> rda_size b1 \<noteq> 0" by blast+
qed

text \<open>The blocks handed to lwIP; what it accepts is a part of the bytes, and all of them when nothing is refused.\<close>

lemma write_blocks_ok:
  assumes "\<forall>(off, len) \<in> set iov. len < 65536"
  shows "\<exists>acc ws ok. write_blocks d iov self = (lw_upd (\<lambda>w. w\<lparr>lw_write := ws, lw_sent := lw_sent w @ acc,
      lw_refused := lw_refused w \<or> \<not> ok\<rparr>) self, ok) \<and> length acc \<le> length (iov_fetch d iov) \<and> (ok \<longrightarrow> acc = iov_fetch d iov)"
  using assms
proof (induction iov arbitrary: self)
  case Nil
  have "self = lw_upd (\<lambda>w. w\<lparr>lw_write := lw_write (ts_lwip self), lw_sent := lw_sent w @ [], lw_refused := lw_refused w \<or> \<not> True\<rparr>) self"
    by (simp add: lw_upd_def)
  then show ?case by (intro exI [of _ "[]"] exI [of _ "lw_write (ts_lwip self)"] exI [of _ True]) (simp add: iov_fetch_def)
next
  case (Cons x iov)
  obtain off len where x: "x = (off, len)" by fastforce
  let ?bs = "mem_get d off len" and ?ok1 = "case lw_write (ts_lwip self) of [] \<Rightarrow> True | r # _ \<Rightarrow> r"
  let ?s1 = "fst (tcp_write ?bs self)"
  obtain acc ws ok where IH: "write_blocks d iov ?s1 = (lw_upd (\<lambda>w. w\<lparr>lw_write := ws, lw_sent := lw_sent w @ acc,
      lw_refused := lw_refused w \<or> \<not> ok\<rparr>) ?s1, ok)" "length acc \<le> length (iov_fetch d iov)" "ok \<longrightarrow> acc = iov_fetch d iov"
    using Cons.IH [of ?s1] Cons.prems by auto
  have "write_blocks d (x # iov) self = (lw_upd (\<lambda>w. w\<lparr>lw_write := ws, lw_sent := lw_sent w @ ((if ?ok1 then ?bs else []) @ acc),
      lw_refused := lw_refused w \<or> \<not> (?ok1 \<and> ok)\<rparr>) self, ?ok1 \<and> ok)"
    using IH(1) Cons.prems x by (simp add: tcp_write_def lw_upd_def Let_def)
  then show ?case using IH(2,3) x
    by (intro exI [of _ "(if ?ok1 then ?bs else []) @ acc"] exI [of _ ws] exI [of _ "?ok1 \<and> ok"]) (simp add: iov_fetch_def)
qed

lemma bwd_write:
  assumes "bwd_ring B0 b (ts_lwip self) rx" "max_size b < 65536" "\<not> lw_fin (ts_lwip self)"
    and "write_blocks (rdata b) (hev_ring_buffer_reading b) self = (self2, ok)"
  defines "b3 \<equiv> hev_ring_buffer_read_finish b (iov_len (hev_ring_buffer_reading b))"
  shows "\<exists>f. self2 = lw_upd f self \<and> lw_wnd (f (ts_lwip self)) = lw_wnd (ts_lwip self) \<and> lw_got (f (ts_lwip self)) = lw_got (ts_lwip self) \<and>
      lw_eof (f (ts_lwip self)) = lw_eof (ts_lwip self) \<and> lw_events (f (ts_lwip self)) = lw_events (ts_lwip self) \<and>
      lw_fin (f (ts_lwip self)) = lw_fin (ts_lwip self) \<and> bwd_ring B0 b3 (f (ts_lwip self)) rx"
    "readable b3 = []" "max_size b3 = max_size b"
proof -
  have inv: "ring_inv b" using assms(1) by (simp add: bwd_ring_def)
  have "\<forall>(off, len) \<in> set (hev_ring_buffer_reading b). len \<le> rda_size b"
    unfolding reading_window [OF inv] by (auto simp: window_def)
  moreover have "rda_size b < 65536" using inv assms(2) by (simp add: ring_inv_def)
  ultimately have lens: "\<forall>(off, len) \<in> set (hev_ring_buffer_reading b). len < 65536" by fastforce
  note fin = read_finish_refines [OF inv, of "rda_size b"]
  have b3: "ring_inv b3" "unacked b3 = unacked b @ readable b" "readable b3 = []" "max_size b3 = max_size b"
    using fin by (simp_all add: b3_def reading_len [OF inv])
  then show "readable b3 = []" "max_size b3 = max_size b" by blast+
  obtain acc ws where w: "self2 = lw_upd (\<lambda>w. w\<lparr>lw_write := ws, lw_sent := lw_sent w @ acc, lw_refused := lw_refused w \<or> \<not> ok\<rparr>) self"
    "length acc \<le> length (readable b)" "ok \<longrightarrow> acc = readable b"
    using write_blocks_ok [OF lens, of "rdata b" self] assms(4) reading_fetch [OF inv] by auto
  have len: "length (unacked b3) = length (unacked b) + length (readable b)" unfolding b3(2) by (rule length_append)
  have "bwd_ring B0 b3 ((\<lambda>w. w\<lparr>lw_write := ws, lw_sent := lw_sent w @ acc, lw_refused := lw_refused w \<or> \<not> ok\<rparr>) (ts_lwip self)) rx"
    using assms(1) b3 w(2,3) len unfolding bwd_ring_def by (auto simp del: length_unacked length_readable)
  then show "\<exists>f. self2 = lw_upd f self \<and> lw_wnd (f (ts_lwip self)) = lw_wnd (ts_lwip self) \<and> lw_got (f (ts_lwip self)) = lw_got (ts_lwip self) \<and>
      lw_eof (f (ts_lwip self)) = lw_eof (ts_lwip self) \<and> lw_events (f (ts_lwip self)) = lw_events (ts_lwip self) \<and>
      lw_fin (f (ts_lwip self)) = lw_fin (ts_lwip self) \<and> bwd_ring B0 b3 (f (ts_lwip self)) rx"
    using w(1) by (intro exI [of _ "\<lambda>w. w\<lparr>lw_write := ws, lw_sent := lw_sent w @ acc, lw_refused := lw_refused w \<or> \<not> ok\<rparr>"]) simp
qed

lemma splice_b_out_ok:
  assumes "sess_inv M F0 B0 a0 self a" "M < 65536" "\<not> lw_fin (ts_lwip self)" "res \<in> {- 1, 0, 1}"
    and "ts_buffer self = Some b" "res = 1 \<Longrightarrow> rda_size b \<noteq> 0"
  shows "\<exists>self' r. splice_b_out self a res = Some ((self', a), r) \<and> step_ok M F0 B0 a0 self a self' a \<and>
    r \<in> {- 1, 0, 1} \<and> (r = 1 \<longrightarrow> sess_work self' a < sess_work self a) \<and> (lw_fin (ts_lwip self') \<longrightarrow> r < 0)"
proof -
  have f: "fwd_inv F0 self a" "bwd_inv M B0 self a" "io_only a0 a" using assms(1) by (auto simp: sess_inv_def)
  have b: "max_size b = M" "bwd_ring B0 b (ts_lwip self) (rx_bytes (os_rx a (s5_fd self)))" "ring_inv b"
    using f(2) assms(5) by (auto simp: bwd_inv_def bwd_ring_def)
  have ne: "hev_ring_buffer_reading b \<noteq> [] \<longleftrightarrow> rda_size b \<noteq> 0" by (simp add: hev_ring_buffer_reading_def Let_def)
  show ?thesis
  proof (cases "ts_pcb self \<and> rda_size b \<noteq> 0")
    case True
    obtain self2 ok where w: "write_blocks (rdata b) (hev_ring_buffer_reading b) self = (self2, ok)" by fastforce
    let ?b3 = "hev_ring_buffer_read_finish b (iov_len (hev_ring_buffer_reading b))"
    note bw = bwd_write [OF b(2) _ assms(3) w]
    obtain g where g: "self2 = lw_upd g self" "lw_wnd (g (ts_lwip self)) = lw_wnd (ts_lwip self)" "lw_got (g (ts_lwip self)) = lw_got (ts_lwip self)"
      "lw_eof (g (ts_lwip self)) = lw_eof (ts_lwip self)" "lw_events (g (ts_lwip self)) = lw_events (ts_lwip self)"
      "lw_fin (g (ts_lwip self)) = lw_fin (ts_lwip self)" "bwd_ring B0 ?b3 (g (ts_lwip self)) (rx_bytes (os_rx a (s5_fd self)))"
      using bw(1) b(1) assms(2) by blast
    have rda: "rda_size ?b3 = 0" using bw(2) b(1) assms(2) length_readable [of ?b3] by simp
    obtain self3 out where o3: "tcp_output (self2\<lparr>ts_buffer := Some ?b3\<rparr>) = (self3, out)" by fastforce
    then have s3: "self3 = lw_upd (\<lambda>w. w\<lparr>lw_output := tl (lw_output w)\<rparr>) (self2\<lparr>ts_buffer := Some ?b3\<rparr>)"
      by (simp add: tcp_output_def)
    have "fwd_inv F0 self3 a" using f(1) g(1-4) by (auto simp: s3 fwd_inv_def)
    moreover have "bwd_inv M B0 self3 a" using g(1,7) bw(3) b(1) assms(2) by (simp add: s3 bwd_inv_def bwd_ring_def)
    moreover have "sess_work self3 a < sess_work self a" using True assms(5) g(1,5) rda by (simp add: s3 sess_work_def pending_def)
    moreover have "splice_b_out self a res = Some ((self3, a), if ok \<and> out then 1 else - 1)"
      using True assms(5) ne w o3 by (simp add: splice_b_out_def)
    ultimately show ?thesis using f(3) g(1,6) assms(3) by (auto simp: s3 step_ok_def sess_inv_def)
  next
    case False
    show ?thesis
    proof (cases "ts_pcb self")
      case True
      then have r0: "rda_size b = 0" using False by simp
      then have "readable b = []" by (simp add: readable_def)
      then have "bwd_inv M B0 (tcp_shutdown self) a" using b assms(5) by (simp add: bwd_inv_def bwd_ring_def tcp_shutdown_def)
      moreover have "fwd_inv F0 (tcp_shutdown self) a" using f(1) by (auto simp: fwd_inv_def tcp_shutdown_def)
      moreover have "sess_work (tcp_shutdown self) a = sess_work self a" by (simp add: sess_work_def pending_def tcp_shutdown_def)
      moreover have "splice_b_out self a res = Some ((if res < 0 then tcp_shutdown self else self, a), res)"
        using True assms(5) ne r0 by (simp add: splice_b_out_def)
      ultimately show ?thesis using f assms(3,4,6) r0 by (auto simp: step_ok_def sess_inv_def tcp_shutdown_def)
    next
      case False
      then show ?thesis using f assms(3) by (simp add: splice_b_out_def step_ok_def sess_inv_def)
    qed
  qed
qed

lemma tcp_splice_b_ok:
  assumes "sess_inv M F0 B0 a0 self a" "M < 65536" "\<not> lw_fin (ts_lwip self)"
  shows "\<exists>self' a' r. tcp_splice_b (self, a) = Some ((self', a'), r) \<and> step_ok M F0 B0 a0 self a self' a' \<and>
    r \<in> {- 1, 0, 1} \<and> (r = 1 \<longrightarrow> sess_work self' a' < sess_work self a) \<and> (lw_fin (ts_lwip self') \<longrightarrow> r < 0)"
proof -
  have f: "fwd_inv F0 self a" "bwd_inv M B0 self a" "io_only a0 a" using assms(1) by (auto simp: sess_inv_def)
  obtain b where b: "ts_buffer self = Some b" "max_size b = M" "bwd_ring B0 b (ts_lwip self) (rx_bytes (os_rx a (s5_fd self)))"
    using f(2) by (auto simp: bwd_inv_def)
  obtain b1 a1 res where rd: "splice_b_read b (s5_fd self) a = (b1, a1, res)" by (metis prod.exhaust)
  note r = splice_b_read_ok [OF rd b(3) assms(3)]
  let ?s = "self\<lparr>ts_buffer := Some b1\<rparr>"
  have s: "fwd_inv F0 ?s a1" "bwd_inv M B0 ?s a1" "io_only a0 a1"
    using f(1) r(1-3,5) b(2) io_only_trans [OF f(3) r(6)] by (auto simp: fwd_inv_def bwd_inv_def)
  have w: "sess_work ?s a1 \<le> sess_work self a" using r(4,8) b(1) by (simp add: sess_work_def pending_def)
  obtain s1 where 1: "others_run ?s = Some s1" "fwd_inv F0 s1 a1" "bwd_inv M B0 s1 a1" "cb_frame ?s s1" "pending s1 \<le> pending ?s"
    using others_run_inv [OF s(1,2)] by blast
  have w1: "sess_work s1 a1 \<le> sess_work self a" using cb_frame_work [OF 1(4,5), of a1] w by simp
  obtain b2 where b2: "ts_buffer s1 = Some b2" "readable b2 = readable b1" using 1(4) by (auto simp: cb_frame_def)
  have rda: "rda_size b2 = rda_size b1" using arg_cong [OF b2(2), of length] by simp
  have fr: "s5_fd s1 = s5_fd self" "0 \<le> s5_timeout self \<longrightarrow> 0 \<le> s5_timeout s1" "\<not> lw_fin (ts_lwip s1)"
    using 1(4) assms(3) by (auto simp: cb_frame_def)
  have "sess_inv M F0 B0 a0 s1 a1" using 1(2,3) s(3) by (simp add: sess_inv_def)
  from splice_b_out_ok [OF this assms(2) fr(3) r(7) b2(1)] r(9) rda
  obtain s' q where "splice_b_out s1 a1 res = Some ((s', a1), q)" "step_ok M F0 B0 a0 s1 a1 s' a1" "q \<in> {- 1, 0, 1}"
    "q = 1 \<longrightarrow> sess_work s' a1 < sess_work s1 a1" "lw_fin (ts_lwip s') \<longrightarrow> q < 0" by auto
  moreover from this(1) have "tcp_splice_b (self, a) = Some ((s', a1), q)" using b(1) rd 1(1) by (simp add: tcp_splice_b_def)
  ultimately show ?thesis using fr w1 by (fastforce simp: step_ok_def)
qed

section \<open>The loops\<close>

lemma base_yield_self:
  "hev_socks5_task_io_yielder ty (s, a) = Some ((s', a'), y) \<Longrightarrow> s' = s \<or> s' = hev_socks5_set_timeout 0 s"
  by (auto simp: hev_socks5_task_io_yielder_def Let_def split: if_splits list.splits)

lemma sess_inv_waits [simp]:
  "fwd_inv F0 s (a\<lparr>os_waits := ws\<rparr>) = fwd_inv F0 s a" "bwd_inv M B0 s (a\<lparr>os_waits := ws\<rparr>) = bwd_inv M B0 s a"
  "io_only a0 (a\<lparr>os_waits := ws\<rparr>) = io_only a0 a"
  by (simp_all add: fwd_inv_def bwd_inv_def io_only_def)

lemma sess_inv_timeout [simp]:
  "fwd_inv F0 (hev_socks5_set_timeout 0 s) a = fwd_inv F0 s a" "bwd_inv M B0 (hev_socks5_set_timeout 0 s) a = bwd_inv M B0 s a"
  by (simp_all add: fwd_inv_def bwd_inv_def)

lemma yielder_ok:
  assumes "sess_inv M F0 B0 a0 self a" "session_tcp_yielder maxc ty (self, a) = Some ((self', a'), y)"
  shows "step_ok M F0 B0 a0 self a self' a'" "lw_fin (ts_lwip self') = lw_fin (ts_lwip self)"
proof -
  obtain s1 r s2 where y: "hev_socks5_task_io_yielder ty (self, a) = Some ((s1, a'), r)"
    and o2: "(if ty = HEV_TASK_WAITIO \<and> s5_timeout self = 0 then Some s1 else others_run s1) = Some s2"
    and s': "self' = s2\<lparr>ts_tunnel := hev_socks5_tunnel_update_session maxc (ts_node s2) (ts_tunnel s2)\<rparr>"
    using assms(2) unfolding session_tcp_yielder_def by (auto simp: bind_eq_Some_conv cong: if_cong)
  obtain n where a': "a' = a\<lparr>os_waits := drop n (os_waits a)\<rparr>" using ry.relay_frame [OF y] by blast
  have s1: "s1 = self \<or> s1 = hev_socks5_set_timeout 0 self" using base_yield_self [OF y] .
  have f: "fwd_inv F0 s1 a'" "bwd_inv M B0 s1 a'" "io_only a0 a'" using assms(1) s1 a' by (auto simp: sess_inv_def)
  have fr: "cb_frame self s1" "pending s1 \<le> pending self" using s1 set_timeout_nonneg [of self 0] by (auto simp: cb_frame_def pending_def)
  have 2: "fwd_inv F0 s2 a'" "bwd_inv M B0 s2 a'" "cb_frame s1 s2" "pending s2 \<le> pending s1"
    using others_run_inv [OF f(1,2)] f o2 by (auto split: if_splits)
  have c: "cb_frame self s2" "pending s2 \<le> pending self" using cb_frame_trans [OF fr(1) 2(3)] 2(4) fr(2) by auto
  have "sess_work s2 a' \<le> sess_work self a'" by (rule cb_frame_work [OF c])
  also have "sess_work self a' \<le> sess_work self a" by (simp add: a' sess_work_def)
  finally have "sess_work self' a' \<le> sess_work self a" using s' by (simp add: sess_work_def pending_def)
  moreover have "fwd_inv F0 self' a'" "bwd_inv M B0 self' a'" using 2(1,2) s' by (auto simp: fwd_inv_def bwd_inv_def)
  ultimately show "step_ok M F0 B0 a0 self a self' a'" "lw_fin (ts_lwip self') = lw_fin (ts_lwip self)"
    using c f(3) s' by (auto simp: step_ok_def sess_inv_def cb_frame_def)
qed

lemma yielder_returns:
  assumes "sess_inv M F0 B0 a0 self a" "0 \<le> s5_timeout self"
  shows "\<exists>self' a' y. session_tcp_yielder maxc ty (self, a) = Some ((self', a'), y) \<and>
    (ty = HEV_TASK_WAITIO \<and> \<not> y < 0 \<longrightarrow> sess_work self' a' < sess_work self a)"
proof -
  obtain s1 a' y where y: "hev_socks5_task_io_yielder ty (self, a) = Some ((s1, a'), y)"
    and wt: "ty = HEV_TASK_WAITIO \<and> y = 0 \<longrightarrow> length (os_waits a') < length (os_waits a)"
    using ry.relay_comes_back [OF assms(2), of ty a] by blast
  have y0: "y = 0 \<or> y = - 1" using y by (auto simp: hev_socks5_task_io_yielder_def Let_def split: if_splits list.splits)
  obtain n where a': "a' = a\<lparr>os_waits := drop n (os_waits a)\<rparr>" using ry.relay_frame [OF y] by blast
  have s1: "s1 = self \<or> s1 = hev_socks5_set_timeout 0 self" using base_yield_self [OF y] .
  have f: "fwd_inv F0 s1 a'" "bwd_inv M B0 s1 a'" using assms(1) s1 a' by (auto simp: sess_inv_def)
  obtain s2 where o2: "(if ty = HEV_TASK_WAITIO \<and> s5_timeout self = 0 then Some s1 else others_run s1) = Some s2"
    using others_run_inv [OF f] by (cases "ty = HEV_TASK_WAITIO \<and> s5_timeout self = 0") auto
  let ?s = "s2\<lparr>ts_tunnel := hev_socks5_tunnel_update_session maxc (ts_node s2) (ts_tunnel s2)\<rparr>"
  have run: "session_tcp_yielder maxc ty (self, a) = Some ((?s, a'), y)"
    using y o2 unfolding session_tcp_yielder_def by (simp cong: if_cong)
  have "sess_work ?s a' < sess_work self a" if "ty = HEV_TASK_WAITIO" "\<not> y < 0"
  proof -
    have c: "cb_frame self s1" "pending s1 \<le> pending self" using s1 set_timeout_nonneg [of self 0] by (auto simp: cb_frame_def pending_def)
    have d: "cb_frame s1 s2 \<and> pending s2 \<le> pending s1" using others_run_inv [OF f] o2 by (auto split: if_splits)
    have "sess_work ?s a' = sess_work s2 a'" by (simp add: sess_work_def pending_def)
    also have "\<dots> \<le> sess_work self a'" using cb_frame_work [of s1 s2 a'] cb_frame_work [OF c, of a'] d by simp
    also have "\<dots> < sess_work self a" using wt that y0 by (auto simp: a' sess_work_def)
    finally show ?thesis .
  qed
  with run show ?thesis by blast
qed

text \<open>One round of the loop, up to the yield.\<close>

lemma round_ok:
  assumes "sess_inv M F0 B0 a0 self a" "M < 65536" "rf \<in> {- 1, 0, 1}" "rb \<in> {- 1, 0, 1}" "lw_fin (ts_lwip self) \<longrightarrow> rb < 0"
  shows "\<exists>s1 a1 rf1 s2 a2 rb1.
    (if rf \<ge> 0 then tcp_splice_f (self, a) else Some ((self, a), rf)) = Some ((s1, a1), rf1) \<and>
    (if rb \<ge> 0 then tcp_splice_b (s1, a1) else Some ((s1, a1), rb)) = Some ((s2, a2), rb1) \<and>
    step_ok M F0 B0 a0 self a s2 a2 \<and> rf1 \<in> {- 1, 0, 1} \<and> rb1 \<in> {- 1, 0, 1} \<and> (lw_fin (ts_lwip s2) \<longrightarrow> rb1 < 0) \<and>
    (rf1 = 1 \<or> rb1 = 1 \<longrightarrow> sess_work s2 a2 < sess_work self a)"
proof -
  obtain s1 a1 rf1 where 1: "(if rf \<ge> 0 then tcp_splice_f (self, a) else Some ((self, a), rf)) = Some ((s1, a1), rf1)"
    "step_ok M F0 B0 a0 self a s1 a1" "lw_fin (ts_lwip s1) = lw_fin (ts_lwip self)" "rf1 \<in> {- 1, 0, 1}"
    "rf1 = 1 \<longrightarrow> sess_work s1 a1 < sess_work self a"
    using tcp_splice_f_ok [OF assms(1)] assms(1,3) by (cases "rf \<ge> 0") (auto simp: step_ok_def)
  have i1: "sess_inv M F0 B0 a0 s1 a1" using 1(2) by (simp add: step_ok_def)
  obtain s2 a2 rb1 where 2: "(if rb \<ge> 0 then tcp_splice_b (s1, a1) else Some ((s1, a1), rb)) = Some ((s2, a2), rb1)"
    "step_ok M F0 B0 a0 s1 a1 s2 a2" "rb1 \<in> {- 1, 0, 1}" "lw_fin (ts_lwip s2) \<longrightarrow> rb1 < 0"
    "rb1 = 1 \<longrightarrow> sess_work s2 a2 < sess_work s1 a1"
    using tcp_splice_b_ok [OF i1 assms(2)] i1 assms(4,5) 1(3) by (cases "rb \<ge> 0") (auto simp: step_ok_def)
  have "step_ok M F0 B0 a0 self a s2 a2" using 1(2) 2(2) by (auto simp: step_ok_def)
  moreover have "rf1 = 1 \<or> rb1 = 1 \<longrightarrow> sess_work s2 a2 < sess_work self a" using 1(2,5) 2(2,5) by (auto simp: step_ok_def)
  ultimately show ?thesis using 1(1,4) 2(1,3,4) by blast
qed

lemma session_loop_sound:
  "session_splice_loop mx st rf rb = Some res \<Longrightarrow> sess_inv M F0 B0 a0 (fst st) (snd st) \<longrightarrow> M < 65536 \<longrightarrow>
   rf \<in> {- 1, 0, 1} \<longrightarrow> rb \<in> {- 1, 0, 1} \<longrightarrow> (lw_fin (ts_lwip (fst st)) \<longrightarrow> rb < 0) \<longrightarrow>
   sess_inv M F0 B0 a0 (fst res) (snd res) \<and> s5_fd (fst res) = s5_fd (fst st)"
  apply (erule session_splice_loop.raw_induct [where P = "\<lambda>mx st rf rb res. sess_inv M F0 B0 a0 (fst st) (snd st) \<longrightarrow> M < 65536 \<longrightarrow>
   rf \<in> {- 1, 0, 1} \<longrightarrow> rb \<in> {- 1, 0, 1} \<longrightarrow> (lw_fin (ts_lwip (fst st)) \<longrightarrow> rb < 0) \<longrightarrow>
   sess_inv M F0 B0 a0 (fst res) (snd res) \<and> s5_fd (fst res) = s5_fd (fst st)", rotated])
  subgoal premises prems for loop mx st rf rb res
  proof (intro impI)
    assume h: "sess_inv M F0 B0 a0 (fst st) (snd st)" "M < 65536" "rf \<in> {- 1, 0, 1}" "rb \<in> {- 1, 0, 1}"
      "lw_fin (ts_lwip (fst st)) \<longrightarrow> rb < 0"
    obtain self a where st: "st = (self, a)" by fastforce
    obtain s1 a1 rf1 s2 a2 rb1 where r: "(if rf \<ge> 0 then tcp_splice_f (self, a) else Some ((self, a), rf)) = Some ((s1, a1), rf1)"
      "(if rb \<ge> 0 then tcp_splice_b (s1, a1) else Some ((s1, a1), rb)) = Some ((s2, a2), rb1)"
      "step_ok M F0 B0 a0 self a s2 a2" "rf1 \<in> {- 1, 0, 1}" "rb1 \<in> {- 1, 0, 1}" "lw_fin (ts_lwip s2) \<longrightarrow> rb1 < 0"
      using round_ok [OF h(1) [unfolded st fst_conv snd_conv] h(2-4) h(5) [unfolded st fst_conv]] by blast
    have i2: "sess_inv M F0 B0 a0 s2 a2" "s5_fd s2 = s5_fd self" using r(3) by (auto simp: step_ok_def)
    have run: "(case yield_choice rf1 rb1 of None \<Rightarrow> Some (s2, a2)
        | Some ty \<Rightarrow> Option.bind (session_tcp_yielder mx ty (s2, a2)) (\<lambda>(st3, y). if y < 0 then Some st3 else loop mx st3 rf1 rb1)) = Some res"
      using prems(2) unfolding st r(1) bind.bind_lunit prod.case r(2) .
    show "sess_inv M F0 B0 a0 (fst res) (snd res) \<and> s5_fd (fst res) = s5_fd (fst st)"
    proof (cases "yield_choice rf1 rb1")
      case None
      then have "res = (s2, a2)" using run by simp
      then show ?thesis using i2 by (simp add: st)
    next
      case (Some ty)
      have "Option.bind (session_tcp_yielder mx ty (s2, a2)) (\<lambda>(st3, y). if y < 0 then Some st3 else loop mx st3 rf1 rb1) = Some res"
        using run unfolding Some by simp
      then obtain p where p: "session_tcp_yielder mx ty (s2, a2) = Some p"
        "(case p of (st3, y) \<Rightarrow> if y < 0 then Some st3 else loop mx st3 rf1 rb1) = Some res"
        unfolding bind_eq_Some_conv by blast
      obtain s3 a3 y where p3: "p = ((s3, a3), y)" by (metis prod.exhaust)
      have y: "session_tcp_yielder mx ty (s2, a2) = Some ((s3, a3), y)"
        and l: "(if y < 0 then Some (s3, a3) else loop mx (s3, a3) rf1 rb1) = Some res" using p p3 by simp_all
      note k = yielder_ok [OF i2(1) y]
      have i3: "sess_inv M F0 B0 a0 s3 a3" "s5_fd s3 = s5_fd self" using k(1) i2(2) by (auto simp: step_ok_def)
      show ?thesis
      proof (cases "y < 0")
        case True
        then show ?thesis using l i3 by (auto simp: st)
      next
        case False
        then have lr: "loop mx (s3, a3) rf1 rb1 = Some res" using l by simp
        have "lw_fin (ts_lwip s3) \<Longrightarrow> rb1 < 0" using r(6) k(2) by simp
        from prems(1) [OF lr, rule_format, unfolded fst_conv snd_conv, OF i3(1) h(2) r(4,5) this]
        show ?thesis using i3(2) by (simp add: st)
      qed
    qed
  qed
  done

lemma session_loop_returns:
  assumes "sess_inv M F0 B0 a0 self a" "M < 65536" "rf \<in> {- 1, 0, 1}" "rb \<in> {- 1, 0, 1}" "lw_fin (ts_lwip self) \<longrightarrow> rb < 0"
    and "0 \<le> s5_timeout self"
  shows "\<exists>self' a'. session_splice_loop mx (self, a) rf rb = Some (self', a') \<and> 0 \<le> s5_timeout self'"
  using assms
proof (induction "sess_work self a" arbitrary: self a rf rb rule: less_induct)
  case less
  obtain s1 a1 rf1 s2 a2 rb1 where r: "(if rf \<ge> 0 then tcp_splice_f (self, a) else Some ((self, a), rf)) = Some ((s1, a1), rf1)"
    "(if rb \<ge> 0 then tcp_splice_b (s1, a1) else Some ((s1, a1), rb)) = Some ((s2, a2), rb1)"
    "step_ok M F0 B0 a0 self a s2 a2" "rf1 \<in> {- 1, 0, 1}" "rb1 \<in> {- 1, 0, 1}" "lw_fin (ts_lwip s2) \<longrightarrow> rb1 < 0"
    "rf1 = 1 \<or> rb1 = 1 \<longrightarrow> sess_work s2 a2 < sess_work self a"
    using round_ok [OF less.prems(1-5)] by blast
  have i2: "sess_inv M F0 B0 a0 s2 a2" "0 \<le> s5_timeout s2" "sess_work s2 a2 \<le> sess_work self a"
    using r(3) less.prems(6) by (auto simp: step_ok_def)
  have unf: "session_splice_loop mx (self, a) rf rb = (case yield_choice rf1 rb1 of None \<Rightarrow> Some (s2, a2)
      | Some ty \<Rightarrow> Option.bind (session_tcp_yielder mx ty (s2, a2)) (\<lambda>(st3, y).
          if y < 0 then Some st3 else session_splice_loop mx st3 rf1 rb1))"
    by (subst session_splice_loop.simps) (simp only: r(1,2) bind.bind_lunit prod.case)
  show ?case
  proof (cases "yield_choice rf1 rb1")
    case None
    then show ?thesis using unf i2(2) by simp
  next
    case (Some ty)
    obtain s3 a3 y where y: "session_tcp_yielder mx ty (s2, a2) = Some ((s3, a3), y)"
      and w: "ty = HEV_TASK_WAITIO \<and> \<not> y < 0 \<longrightarrow> sess_work s3 a3 < sess_work s2 a2"
      using yielder_returns [OF i2(1,2), of mx ty] by blast
    note k = yielder_ok [OF i2(1) y]
    have i3: "sess_inv M F0 B0 a0 s3 a3" "0 \<le> s5_timeout s3" "sess_work s3 a3 \<le> sess_work s2 a2"
      using k(1) i2(2) by (auto simp: step_ok_def)
    show ?thesis
    proof (cases "y < 0")
      case True
      then show ?thesis using unf Some y i3(2) by simp
    next
      case False
      have "rf1 = 1 \<or> rb1 = 1 \<or> ty = HEV_TASK_WAITIO" using Some r(4,5) by (auto simp: yield_choice_def split: if_splits)
      then have "sess_work s3 a3 < sess_work self a" using r(7) i2(3) i3(3) w False by linarith
      from less.hyps [OF this i3(1) less.prems(2) r(4,5) _ i3(2)] show ?thesis using unf Some y False r(6) k(2) by simp
    qed
  qed
qed

lemma drain_loop_sound:
  "drain_loop mx st = Some res \<Longrightarrow> sess_inv M F0 B0 a0 (fst st) (snd st) \<longrightarrow>
   sess_inv M F0 B0 a0 (fst res) (snd res) \<and> s5_fd (fst res) = s5_fd (fst st)"
  apply (erule drain_loop.raw_induct [where P = "\<lambda>mx st res. sess_inv M F0 B0 a0 (fst st) (snd st) \<longrightarrow>
   sess_inv M F0 B0 a0 (fst res) (snd res) \<and> s5_fd (fst res) = s5_fd (fst st)", rotated])
  subgoal premises prems for loop mx st res
  proof
    assume h: "sess_inv M F0 B0 a0 (fst st) (snd st)"
    show "sess_inv M F0 B0 a0 (fst res) (snd res) \<and> s5_fd (fst res) = s5_fd (fst st)"
    proof (cases "res = st")
      case False
      then obtain b where "ts_buffer (fst st) = Some b" and
        bnd: "Option.bind (session_tcp_yielder mx HEV_TASK_WAITIO st) (\<lambda>(st1, y). if y < 0 then Some st1 else loop mx st1) = Some res"
        using prems(2) by (auto simp: bind_eq_Some_conv split: if_splits)
      then obtain p where p: "session_tcp_yielder mx HEV_TASK_WAITIO st = Some p"
        "(case p of (st1, y) \<Rightarrow> if y < 0 then Some st1 else loop mx st1) = Some res" unfolding bind_eq_Some_conv by blast
      obtain s3 a3 y where p3: "p = ((s3, a3), y)" by (metis prod.exhaust)
      have y: "session_tcp_yielder mx HEV_TASK_WAITIO (fst st, snd st) = Some ((s3, a3), y)"
        and l: "(if y < 0 then Some (s3, a3) else loop mx (s3, a3)) = Some res" using p p3 by simp_all
      have "sess_inv M F0 B0 a0 s3 a3" "s5_fd s3 = s5_fd (fst st)" using yielder_ok(1) [OF h y] by (auto simp: step_ok_def)
      then show ?thesis using l prems(1) [of mx "(s3, a3)" res] by (auto split: if_splits)
    qed (use h in simp)
  qed
  done

lemma drain_loop_returns:
  assumes "sess_inv M F0 B0 a0 self a" "0 \<le> s5_timeout self"
  shows "\<exists>self' a'. drain_loop mx (self, a) = Some (self', a') \<and> 0 \<le> s5_timeout self'"
  using assms
proof (induction "sess_work self a" arbitrary: self a rule: less_induct)
  case less
  obtain b where b: "ts_buffer self = Some b" using less.prems(1) by (auto simp: sess_inv_def bwd_inv_def)
  obtain s3 a3 y where y: "session_tcp_yielder mx HEV_TASK_WAITIO (self, a) = Some ((s3, a3), y)"
    and w: "\<not> y < 0 \<longrightarrow> sess_work s3 a3 < sess_work self a" using yielder_returns [OF less.prems, of mx HEV_TASK_WAITIO] by blast
  have i3: "sess_inv M F0 B0 a0 s3 a3" "0 \<le> s5_timeout s3"
    using yielder_ok(1) [OF less.prems(1) y] less.prems(2) by (auto simp: step_ok_def)
  show ?case
    by (subst drain_loop.simps) (use b y w i3 less.prems(2) less.hyps [OF _ i3] in \<open>auto\<close>)
qed

section \<open>The whole relay\<close>

text \<open>
  A session at the start of its relay: whatever lwIP delivered so far waits in its queue.  And what the
  relay has done when it is over, for the bytes of both directions.
\<close>

definition session_ready :: "session_tcp \<Rightarrow> bool" where
  "session_ready self \<longleftrightarrow> ts_pcb self \<and> chain_ok (ts_queue self) \<and> ts_eof self = lw_eof (ts_lwip self) \<and>
     lw_got (ts_lwip self) = contents (ts_queue self) \<and>
     lw_wnd (ts_lwip self) + length (contents (ts_queue self)) = TCP_WND \<and>
     lw_sent (ts_lwip self) = [] \<and> lw_ackd (ts_lwip self) = 0 \<and> \<not> lw_refused (ts_lwip self) \<and> \<not> lw_fin (ts_lwip self)"

definition session_relayed :: "nat \<Rightarrow> session_tcp \<Rightarrow> os \<Rightarrow> session_tcp \<Rightarrow> os \<Rightarrow> bool" where
  "session_relayed room self a self' a' \<longleftrightarrow>
     os_out a' (s5_fd self) @ contents (ts_queue self') = os_out a (s5_fd self) @ lw_got (ts_lwip self') \<and>
     (s5_fd self \<in> set (os_shut a') \<longrightarrow> ts_queue self' = [] \<and> lw_eof (ts_lwip self')) \<and>
     (ts_pcb self' \<longrightarrow> lw_wnd (ts_lwip self') + length (contents (ts_queue self')) = TCP_WND) \<and>
     (\<not> lw_refused (ts_lwip self') \<longrightarrow>
        (\<exists>kept. lw_sent (ts_lwip self') @ kept @ rx_bytes (os_rx a' (s5_fd self)) = rx_bytes (os_rx a (s5_fd self)) \<and>
           (lw_fin (ts_lwip self') \<longrightarrow> kept = []))) \<and>
     length (lw_sent (ts_lwip self')) \<le> lw_ackd (ts_lwip self') + room \<and> io_only a a'"

definition ring_size_ok :: "byte list \<Rightarrow> bool" where
  "ring_size_ok mem \<longleftrightarrow> mem \<noteq> [] \<and> length mem < 65536"

lemma session_start:
  assumes "session_ready self" "ring_size_ok mem" "s5_fd self \<notin> set (os_shut a)"
  shows "sess_inv (length mem) (os_out a (s5_fd self)) (rx_bytes (os_rx a (s5_fd self))) a
    (self\<lparr>ts_buffer := Some (hev_ring_buffer_alloca mem)\<rparr>) a"
proof -
  have "ring_inv (hev_ring_buffer_alloca mem)"
    using assms(2) ring_inv_alloca [of mem] by (simp add: ring_size_ok_def SIZE_MOD_def)
  moreover have "readable (hev_ring_buffer_alloca mem) = []" "unacked (hev_ring_buffer_alloca mem) = []"
    "max_size (hev_ring_buffer_alloca mem) = length mem"
    by (simp_all add: hev_ring_buffer_alloca_def readable_def unacked_def)
  ultimately show ?thesis using assms
    by (simp add: sess_inv_def session_ready_def fwd_inv_def bwd_inv_def bwd_ring_def)
qed

lemma session_end:
  assumes "sess_inv M (os_out a (s5_fd self)) (rx_bytes (os_rx a (s5_fd self))) a self' a'" "s5_fd self' = s5_fd self"
  shows "session_relayed M self a self' a'"
proof -
  have f: "fwd_inv (os_out a (s5_fd self)) self' a'" "io_only a a'" using assms(1) by (auto simp: sess_inv_def)
  obtain b where b: "max_size b = M" "bwd_ring (rx_bytes (os_rx a (s5_fd self))) b (ts_lwip self') (rx_bytes (os_rx a' (s5_fd self)))"
    using assms by (auto simp: sess_inv_def bwd_inv_def)
  have "length (unacked b) \<le> M" using b by (auto simp: bwd_ring_def ring_inv_def)
  moreover have "length (lw_sent (ts_lwip self')) \<le> lw_ackd (ts_lwip self') + length (unacked b)"
    using b(2) by (simp add: bwd_ring_def)
  ultimately have "length (lw_sent (ts_lwip self')) \<le> lw_ackd (ts_lwip self') + M" by linarith
  then show ?thesis using f b(2) assms(2) unfolding session_relayed_def fwd_inv_def bwd_ring_def by auto
qed

lemma session_splice_sound:
  assumes "hev_socks5_session_tcp_splice mx mem (self, a) = Some (self', a')"
    and "session_ready self" "ring_size_ok mem" "s5_fd self \<notin> set (os_shut a)"
  shows "session_relayed (length mem) self a self' a'"
proof -
  let ?s = "self\<lparr>ts_buffer := Some (hev_ring_buffer_alloca mem)\<rparr>"
  note i = session_start [OF assms(2-4)]
  obtain st1 where 1: "session_splice_loop mx (?s, a) 1 1 = Some st1" "drain_loop mx st1 = Some (self', a')"
    using assms(1,2) by (auto simp: hev_socks5_session_tcp_splice_def session_ready_def bind_eq_Some_conv)
  have m: "length mem < 65536" "lw_fin (ts_lwip ?s) \<longrightarrow> (1 :: int) < 0" using assms(2,3) by (auto simp: ring_size_ok_def session_ready_def)
  have 2: "sess_inv (length mem) (os_out a (s5_fd self)) (rx_bytes (os_rx a (s5_fd self))) a (fst st1) (snd st1)" "s5_fd (fst st1) = s5_fd self"
    using session_loop_sound [OF 1(1), of "length mem"] i m by simp_all
  from drain_loop_sound [OF 1(2), rule_format, OF 2(1)] 2(2) show ?thesis by (intro session_end) simp_all
qed

lemma session_splice_returns:
  assumes "session_ready self" "ring_size_ok mem" "s5_fd self \<notin> set (os_shut a)" "0 \<le> s5_timeout self"
  shows "\<exists>self' a'. hev_socks5_session_tcp_splice mx mem (self, a) = Some (self', a') \<and> 0 \<le> s5_timeout self'"
proof -
  let ?s = "self\<lparr>ts_buffer := Some (hev_ring_buffer_alloca mem)\<rparr>"
  note i = session_start [OF assms(1-3)]
  have m: "length mem < 65536" "lw_fin (ts_lwip ?s) \<longrightarrow> (1 :: int) < 0" "0 \<le> s5_timeout ?s" "ts_pcb self"
    using assms by (auto simp: ring_size_ok_def session_ready_def)
  obtain s1 a1 where 1: "session_splice_loop mx (?s, a) 1 1 = Some (s1, a1)" "0 \<le> s5_timeout s1"
    using session_loop_returns [OF i m(1) _ _ m(2,3), of 1 mx] by auto
  have "sess_inv (length mem) (os_out a (s5_fd self)) (rx_bytes (os_rx a (s5_fd self))) a s1 a1"
    using session_loop_sound [OF 1(1), of "length mem"] i m by simp
  from drain_loop_returns [OF this 1(2), of mx] show ?thesis using 1(1) m(4) by (auto simp: hev_socks5_session_tcp_splice_def)
qed

section \<open>New sessions\<close>

definition lwip_fresh :: "lwip \<Rightarrow> bool" where
  "lwip_fresh w \<longleftrightarrow> lw_got w = [] \<and> \<not> lw_eof w \<and> lw_wnd w = TCP_WND \<and> lw_sent w = [] \<and> lw_ackd w = 0 \<and>
     \<not> lw_refused w \<and> \<not> lw_fin w"

lemma construct_session:
  assumes "hev_socks5_session_tcp_construct dns addr ip port (self, a) = Some (dns', (self', a'), r)" "0 \<le> r"
  shows "ts_pcb self'" "ts_queue self' = ts_queue self" "ts_eof self' = ts_eof self" "ts_lwip self' = ts_lwip self"
    "ts_node self' = ts_node self" "s5_fd self' = - 1" "ct_addr self' \<noteq> None"
  using assms
  by (auto simp: hev_socks5_session_tcp_construct_def hev_socks5_client_tcp_construct_def hev_socks5_client_construct_def
      hev_socks5_construct_def Let_def bind_eq_Some_conv split: if_splits prod.splits)

lemma new_session:
  assumes "hev_socks5_session_tcp_new node tunnel w dns addr ip port a = Some (dns', a', Some self)" "lwip_fresh w"
  shows "session_ready self" "ts_node self = node" "s5_fd self = - 1"
proof -
  obtain a1 st r where c: "hev_socks5_session_tcp_construct dns addr ip port (session_tcp_zero node tunnel w, a1) = Some (dns', st, r)"
    "0 \<le> r" "self = fst st"
    using assms(1) by (auto simp: hev_socks5_session_tcp_new_def Let_def bind_eq_Some_conv split: if_splits prod.splits)
  have "hev_socks5_session_tcp_construct dns addr ip port (session_tcp_zero node tunnel w, a1) = Some (dns', (self, snd st), r)"
    using c by simp
  note k = construct_session [OF this c(2)]
  have z: "ts_queue (session_tcp_zero node tunnel w) = []" "ts_eof (session_tcp_zero node tunnel w) = False"
    "ts_lwip (session_tcp_zero node tunnel w) = w" "ts_node (session_tcp_zero node tunnel w) = node"
    by (simp_all add: session_tcp_zero_def client_tcp_zero_def client_tcp.extend_def)
  show "session_ready self" using k(1-4) z assms(2) by (simp add: session_ready_def lwip_fresh_def)
  show "ts_node self = node" "s5_fd self = - 1" using k(5,6) z by simp_all
qed

section \<open>Properties\<close>

text \<open>
  C2: The relay of a TCP session is faithful in both directions, for every behaviour of the server and
  of lwIP, every interleaving with the callbacks and however the session ends.  What was sent to the
  server followed by what still waits in the packet buffers is exactly what lwIP delivered; the end of
  the client's stream is passed on behind the last byte; and no part of the receive window is lost: what
  is open and what waits always make up the whole window.  What lwIP accepted, followed by the bytes left
  in the ring buffer and by what has not arrived yet, is the server's stream, as long as lwIP refused no
  write; its end is passed on only when the ring buffer is empty; and lwIP never has more bytes of the
  ring buffer in use than it holds.
\<close>

theorem session_tcp_faithful:
  assumes "hev_socks5_session_tcp_splice mx mem (self, a) = Some (self', a')"
    and "session_ready self" "ring_size_ok mem" "s5_fd self \<notin> set (os_shut a)"
  shows "session_relayed (length mem) self a self' a'"
  by (rule session_splice_sound [OF assms])

definition lwip_demo :: lwip where
  "lwip_demo = \<lparr>lw_events = [[], [LwRecv [\<lparr>payload = [7, 8], tot_len = 2, pref = 1\<rparr>]], [LwSent 2, LwEof]], lw_write = [], lw_output = [],
     lw_got = [], lw_eof = False, lw_wnd = TCP_WND, lw_sent = [], lw_ackd = 0, lw_refused = False, lw_fin = False\<rparr>"

definition session_demo :: session_tcp where
  "session_demo = (session_tcp_zero 1 sessions_empty lwip_demo)\<lparr>s5_fd := 3, s5_timeout := 10, ts_pcb := True\<rparr>"

definition os_session_demo :: os where
  "os_session_demo = os_idle\<lparr>os_waits := [Wait 5 False, Wait 5 False], os_rx := (\<lambda>_. [RxData [1, 2, 3], RxEof]), os_tx := (\<lambda>_. [TxRoom 9])\<rparr>"

lemma session_demo_ready:
  "session_ready session_demo" "ring_size_ok [0, 0]" "s5_fd session_demo \<notin> set (os_shut os_session_demo)" "0 \<le> s5_timeout session_demo"
  by (simp_all add: session_demo_def session_tcp_zero_def client_tcp_zero_def client_tcp.extend_def lwip_demo_def session_ready_def
      ring_size_ok_def os_session_demo_def os_idle_def)

theorem session_tcp_faithful_witness:
  "\<exists>self' a'. hev_socks5_session_tcp_splice 0 [0, 0] (session_demo, os_session_demo) = Some (self', a') \<and>
     session_relayed 2 session_demo os_session_demo self' a'"
proof -
  obtain self' a' where run: "hev_socks5_session_tcp_splice 0 [0, 0] (session_demo, os_session_demo) = Some (self', a')"
    using session_splice_returns [OF session_demo_ready, of 0] by blast
  from session_tcp_faithful [OF run session_demo_ready(1-3)] run show ?thesis by (auto simp: numeral_2_eq_2)
qed

text \<open>
  C36: A write to lwIP that is refused is not made up for: the two blocks of a ring buffer that wraps
  around are written one after the other, and when lwIP refuses the first and accepts the second, the
  client's stream has a hole, its bytes continue after the ones that were refused.  The relay in this
  direction then ends, but the connection of the client is not reset.
\<close>

theorem refused_block_leaves_hole:
  assumes "ts_pcb self" "ts_buffer self = Some b" "hev_ring_buffer_reading b = [(o1, l1), (o2, l2)]" "l1 < 65536" "l2 < 65536"
    and "lw_write (ts_lwip self) = False # True # ws"
  shows "\<exists>self'. splice_b_out self a res = Some ((self', a), - 1) \<and> ts_pcb self' \<and>
    lw_fin (ts_lwip self') = lw_fin (ts_lwip self) \<and> lw_sent (ts_lwip self') = lw_sent (ts_lwip self) @ mem_get (rdata b) o2 l2"
  using assms by (simp add: splice_b_out_def tcp_write_def tcp_output_def Let_def)

definition ring_wrapped :: ring where
  "ring_wrapped = \<lparr>rp = 2, wp = 1, rda_size = 2, use_size = 3, max_size = 3, rdata = [4, 2, 3]\<rparr>"

theorem refused_block_leaves_hole_witness:
  "\<exists>self'. splice_b_out (session_demo\<lparr>ts_buffer := Some ring_wrapped, ts_lwip := lwip_demo\<lparr>lw_sent := [1, 2], lw_write := [False, True]\<rparr>\<rparr>)
     os_session_demo 1 = Some ((self', os_session_demo), - 1) \<and> lw_sent (ts_lwip self') = [1, 2, 4] \<and> readable ring_wrapped = [3, 4]"
proof -
  let ?s = "session_demo\<lparr>ts_buffer := Some ring_wrapped, ts_lwip := lwip_demo\<lparr>lw_sent := [1, 2], lw_write := [False, True]\<rparr>\<rparr>"
  have "hev_ring_buffer_reading ring_wrapped = [(2, 1), (0, 1)]"
    by (simp add: ring_wrapped_def hev_ring_buffer_reading_def sz_sub_def SIZE_MOD_def)
  then obtain self' where "splice_b_out ?s os_session_demo 1 = Some ((self', os_session_demo), - 1)"
    "lw_sent (ts_lwip self') = lw_sent (ts_lwip ?s) @ mem_get (rdata ring_wrapped) 0 1"
    using refused_block_leaves_hole [of ?s ring_wrapped 2 1 0 1 "[]" os_session_demo 1] by (auto simp: session_demo_def)
  moreover have "readable ring_wrapped = [3, 4]" by (simp add: readable_def ring_wrapped_def circ_def numeral_2_eq_2)
  ultimately show ?thesis by (auto simp: ring_wrapped_def mem_get_def)
qed

text \<open>
  C17: A connection that lwIP accepts becomes a session that is ready for its relay: the handler
  allocates it, registers it as the most recently active one and asks the session that was inactive for
  longest to end when the limit is reached, and the receive window belongs to it as a whole.
\<close>

theorem accepted_session_ready:
  assumes "tcp_accept_handler running cfg node w dns addr ip port err (tunnel, a) = Some (dns', (tunnel', a'), Some self, r)"
    and "lwip_fresh w" "sessions_repr tunnel (xs, as)" "node \<notin> set xs"
  shows "r = 0 \<and> session_ready self \<and> ts_node self = node \<and> ts_tunnel self = tunnel' \<and>
    (\<exists>as'. sessions_repr tunnel' (xs @ [node], as') \<and>
      as' = (if max_session_count cfg \<noteq> 0 \<and> max_session_count cfg \<le> int (length xs) + 1 then as @ [hd (xs @ [node])] else as))"
proof -
  have run: "err = 0" running using assms(1) by (auto simp: tcp_accept_handler_def split: if_splits)
  obtain q where q: "hev_socks5_session_tcp_new node tunnel w dns addr ip port a = Some q"
    using assms(1) run by (cases "hev_socks5_session_tcp_new node tunnel w dns addr ip port a") (auto simp: tcp_accept_handler_def)
  obtain d1 a1 tcp where q3: "q = (d1, a1, tcp)" by (metis prod.exhaust)
  obtain a2 ok where m: "sys_malloc a1 = (a2, ok)" by fastforce
  obtain s where tcp: "tcp = Some s" ok using assms(1) run q q3 m by (cases tcp; cases ok) (auto simp: tcp_accept_handler_def)
  have n: "hev_socks5_session_tcp_new node tunnel w dns addr ip port a = Some (dns', a1, Some s)"
    and i: "hev_socks5_tunnel_insert_session (max_session_count cfg) node tunnel = Some tunnel'"
    and s: "self = s\<lparr>ts_tunnel := tunnel'\<rparr>" "r = 0"
    using assms(1) run q q3 m tcp by (auto simp: tcp_accept_handler_def bind_eq_Some_conv)
  have "session_ready self" "ts_node self = node" using new_session(1,2) [OF n assms(2)] s(1) by (simp_all add: session_ready_def)
  moreover have "\<exists>t. session_exec (max_session_count cfg) (ScInsert node) tunnel = Some t \<and> sessions_repr t (xs @ [node],
      if max_session_count cfg \<noteq> 0 \<and> max_session_count cfg \<le> int (length xs) + 1 then as @ [hd (xs @ [node])] else as)"
    by (rule session_exec_refines [OF assms(3)]) (use assms(4) in simp)
  ultimately show ?thesis using s i by auto
qed

definition ip_demo :: ip_addr where
  "ip_demo = \<lparr>ip_type = IPADDR_TYPE_V4, ip_bytes = [1, 2, 3, 4] @ replicate 12 0\<rparr>"

text \<open>A new session succeeds when the memory for the object and its address is there.\<close>

lemma new_demo:
  "\<exists>self. hev_socks5_session_tcp_new 1 sessions_empty lwip_demo None (replicate ADDR_SIZE 0) ip_demo 80
     (os_idle\<lparr>os_calls := 0 # 0 # r\<rparr>) = Some (None, os_idle\<lparr>os_calls := r, os_live := 2\<rparr>, Some self)"
proof -
  let ?a = "fst (hev_socks5_addr_from_ipv4 (replicate ADDR_SIZE 0) (ip_bytes ip_demo) (htons 80))"
  have "addr_is ?a (EpV4 (take 4 (ip_bytes ip_demo)) 80)" by (rule from_ipv4_is) (simp_all add: ip_demo_def)
  then have "hev_socks5_addr_len ?a \<ge> 0" by (simp add: addr_len_wire)
  moreover have "hev_socks5_addr_from_lwip None (replicate ADDR_SIZE 0) ip_demo 80 = Some (None, ?a, 0)"
    by (simp add: hev_socks5_addr_from_lwip_def ip_demo_def)
  ultimately show ?thesis
    by (simp add: hev_socks5_session_tcp_new_def hev_socks5_session_tcp_construct_def sys_malloc_def sys_call_def
        hev_socks5_client_tcp_construct_def Let_def os_idle_def)
qed

lemma accept_demo:
  "\<exists>t a' self. tcp_accept_handler True hev_config_reset 1 lwip_demo None (replicate ADDR_SIZE 0) ip_demo 80 0
     (sessions_empty, os_idle\<lparr>os_calls := [0, 0, 0]\<rparr>) = Some (None, (t, a'), Some self, 0)"
  using new_demo [of "[0]"]
  by (auto simp: tcp_accept_handler_def sys_malloc_def sys_call_def hev_socks5_tunnel_insert_session_def hev_config_reset_def Let_def)

theorem accepted_session_ready_witness:
  "\<exists>t a' self. tcp_accept_handler True hev_config_reset 1 lwip_demo None (replicate ADDR_SIZE 0) ip_demo 80 0
     (sessions_empty, os_idle\<lparr>os_calls := [0, 0, 0]\<rparr>) = Some (None, (t, a'), Some self, 0) \<and> session_ready self \<and>
     sessions_repr t ([1], [])"
proof -
  obtain t a' self where run: "tcp_accept_handler True hev_config_reset 1 lwip_demo None (replicate ADDR_SIZE 0) ip_demo 80 0
     (sessions_empty, os_idle\<lparr>os_calls := [0, 0, 0]\<rparr>) = Some (None, (t, a'), Some self, 0)" using accept_demo by blast
  have "lwip_fresh lwip_demo" by (simp add: lwip_fresh_def lwip_demo_def)
  from accepted_session_ready [OF run this sessions_repr_empty] have "session_ready self" "sessions_repr t ([1], [])"
    by (auto simp: hev_config_reset_def)
  with run show ?thesis by blast
qed

text \<open>
  A connection for which no task can be made stops the whole tunnel: the handler, run by the task
  that holds the mutex of lwIP, releases the new session at once, the destructor waits for that mutex,
  and the handler never returns.
\<close>

theorem accept_without_task_hangs:
  assumes "hev_socks5_session_tcp_new node tunnel w dns addr ip port a = Some (dns', a', Some self)" "\<not> snd (sys_malloc a')"
  shows "tcp_accept_handler True cfg node w dns addr ip port 0 (tunnel, a) = None"
  using assms by (cases "sys_malloc a'") (simp add: tcp_accept_handler_def)

theorem accept_without_task_hangs_witness:
  "tcp_accept_handler True hev_config_reset 1 lwip_demo None (replicate ADDR_SIZE 0) ip_demo 80 0
     (sessions_empty, os_idle\<lparr>os_calls := [0, 0, - 1]\<rparr>) = None"
proof -
  obtain self where "hev_socks5_session_tcp_new 1 sessions_empty lwip_demo None (replicate ADDR_SIZE 0) ip_demo 80
     (os_idle\<lparr>os_calls := [0, 0, - 1]\<rparr>) = Some (None, os_idle\<lparr>os_calls := [- 1], os_live := 2\<rparr>, Some self)"
    using new_demo [of "[- 1]"] by blast
  then show ?thesis by (rule accept_without_task_hangs) (simp add: sys_malloc_def sys_call_def)
qed

end
