(* ===== verification/Spec2Isabelle.thy ===== *)
theory Spec2Isabelle
  imports MappedDNSHandle Socks5ServerRun TunnelSync TaskSync SessionTCP
begin

text \<open>
  Verification of hev-socks5-tunnel, the native tunnel of Zero-VPN (\<^verbatim>\<open>src/hev-socks5-tunnel\<close>).  The
  tunnel takes the packets of a virtual network device, ends their TCP connections in a user-space stack
  (lwIP), and carries each connection to a SOCKS5 server.  File names below are relative to
  \<^verbatim>\<open>src/hev-socks5-tunnel\<close>.

  \<^bold>\<open>The parts and how they interact.\<close>
  The configuration (\<^verbatim>\<open>src/hev-config.c\<close>) fixes the server, the buffer sizes and the limits.  For each
  connection lwIP calls \<^verbatim>\<open>tcp_accept_handler\<close> of \<^verbatim>\<open>src/hev-socks5-tunnel.c\<close>, which makes a session,
  enters it in the registry and starts a task for it.  The task lets the SOCKS5 client
  (\<^verbatim>\<open>src/core/src/hev-socks5-client.c\<close>) connect and shake hands, and then copies bytes between the packet
  buffers of lwIP, a ring buffer and the socket.  Names are resolved by the mapped DNS
  (\<^verbatim>\<open>src/hev-mapped-dns.c\<close>), which hands out made-up addresses and maps them back when a connection to
  one of them is opened.  The core library also has the server side of the protocol.  All of it runs on the
  cooperative tasks of \<^verbatim>\<open>third-part/hev-task-system\<close>.  Another thread may stop the tunnel at any time.

  \<^bold>\<open>The theories.\<close>
  \<^item> \<open>Prelude\<close>: machine types, byte order, C strings and memory, shared lemmas.
  \<^item> \<open>HevList\<close> (\<^verbatim>\<open>src/misc/hev-list.c\<close>): the intrusive list on a heap of nodes; the locale
    \<open>node_list\<close> is what its clients rely on.
  \<^item> \<open>HevRBTree\<close>, \<open>HevRBTreeProofs\<close>, \<open>HevRBTreeInsert\<close>,
    \<open>HevRBTreeErase\<close>, \<open>HevRBTreeUnlink\<close> (\<^verbatim>\<open>src/core/src/hev-rbtree.c\<close>): the tree on a
    heap with parent pointers and packed colours.  Insertion and removal end without a bad access, keep
    the order and restore the red-black invariants.  \<open>RBSearch\<close>: the search loops of its
    clients over an arbitrary comparison (locale \<open>key_order\<close>).
  \<^item> \<open>RingBuffer\<close> (\<^verbatim>\<open>src/misc/hev-ring-buffer.c\<close>) and \<open>CircularBuffer\<close>
    (\<^verbatim>\<open>hev-circular-buffer.c\<close> of the task library): both refine a bounded list of bytes (locales
    \<open>byte_pipe\<close> and \<open>byte_queue\<close>).
  \<^item> \<open>MappedDNS\<close>, \<open>MappedDNSHandle\<close>: the name cache refines a list in order
    of use; the parser of queries stays inside its buffers on every input and answers what was asked.
  \<^item> \<open>Socks5Addr\<close>: address conversions (\<^verbatim>\<open>src/core/src/hev-socks5-misc.c\<close>,
    \<^verbatim>\<open>src/misc/hev-utils.c\<close>).
  \<^item> \<open>TaskIO\<close>: the socket calls of the task library over a scripted kernel;
    \<open>TaskSplice\<close>: its bidirectional relay and \<^verbatim>\<open>src/core/src/hev-socks5-tcp.c\<close>;
    \<open>TaskSync\<close>: its mutex and condition.
  \<^item> \<open>Socks5Base\<close>, \<open>Socks5Client\<close>, \<open>Socks5ClientProofs\<close>: the client
    with its subclasses; what it sends, what it accepts, that it always comes back and leaks no socket.
  \<^item> \<open>Authenticator\<close>: users, reference counts and the credential store, a finite map.
  \<^item> \<open>Socks5Server\<close>, \<open>Socks5ServerProofs\<close>, \<open>Socks5ServerRun\<close>: the
    server; no service without the login of a registered user, and client and server understand each other.
  \<^item> \<open>Socks5UDP\<close>, \<open>Socks5UDPProofs\<close> (\<^verbatim>\<open>src/core/src/hev-socks5-udp.c\<close>):
    datagrams framed on a stream or wrapped in datagrams, round trips, and the relay.
  \<^item> \<open>Pbuf\<close> (\<^verbatim>\<open>third-part/lwip/src/core/pbuf.c\<close>): chains of packet buffers refine byte lists.
  \<^item> \<open>SessionSet\<close>: the registry of the sessions; \<open>TunnelSync\<close>: starting and
    stopping, both of \<^verbatim>\<open>src/hev-socks5-tunnel.c\<close>.
  \<^item> \<open>Config\<close>: the configuration from the loaded YAML document on.
  \<^item> \<open>SessionTCP\<close> (\<^verbatim>\<open>src/hev-socks5-session.c\<close>, \<^verbatim>\<open>src/hev-socks5-session-tcp.c\<close> and the
    accept callback): the whole life of a TCP session.
  \<^item> This theory: sessions under an accepted configuration.

  \<^bold>\<open>State and effects.\<close>
  A structure is a record with the fields of the C structure, an object and its subclass are a record and
  its extension, and a pointer to a node of a list or a tree is an optional number into a heap of nodes.
  An access through \<^verbatim>\<open>NULL\<close> and a loop that does not end are \<^term>\<open>None\<close>, so every statement that
  a call equals \<^term>\<open>Some\<close> of a result also says that it is safe and returns.  The kernel is the
  record \<open>os\<close> of \<open>TaskIO\<close>: for each socket a script of what arrives and of how many
  bytes each call accepts, and a log of what was sent and closed.  The statements hold for all scripts.
  lwIP is a record of the same kind in \<open>SessionTCP\<close>; its callbacks come in batches wherever a
  session gives up the processor, so the statements hold for all interleavings.  The threads of
  \<open>TunnelSync\<close> and the tasks of \<open>TaskSync\<close> are inductive step relations, with
  invariants over all reachable states.

  \<^bold>\<open>Loops and bounds.\<close>
  Loops over lists are structural, the label loop of the DNS parser has a termination proof, and all
  others are \<^verbatim>\<open>partial_function (option)\<close>, with theorems that they end; the exceptions are the
  backward walk of the red-black tree and the loops of the UDP relay, whose rounds are specified when they
  return.  Loops that wait for a peer end because a connection has a timeout, which is then a
  hypothesis; the scripts are finite, and a script that is used up lets a wait run into its timeout.  No
  fuel is used.  Integers are unbounded except where the code depends on their width; there the
  reduction is written out: 8-bit lengths of names and frames, 16-bit lengths of packet buffers, 32-bit
  addresses and the sizes of the configuration, and \<^verbatim>\<open>size_t\<close> in the ring buffer.

  \<^bold>\<open>Not modelled.\<close>
  The UDP sessions (\<^verbatim>\<open>src/hev-socks5-session-udp.c\<close>), beyond the relay they call.  Setting up the network
  interface and the tasks that pass packets between the device and lwIP; the devices of the platforms
  and wintun; the program entry, JNI, logging and scripts: these are input and output.  The protocols of
  lwIP beyond its packet buffers, the YAML parser, the task scheduler with its timers, channels and
  allocators: their effect is a parameter or a script of the models that use them.  Name resolution and
  \<^verbatim>\<open>inet_pton\<close> are parameters.  The applications (\<^verbatim>\<open>V2rayNG\<close>, \<^verbatim>\<open>desktop\<close>) and the Go programs of the
  repository share no code with the tunnel.
\<close>

section \<open>Sessions under a configuration\<close>

text \<open>
  C5: For every configuration document that is accepted with a positive TCP buffer size, a session with
  a deadline whose ring buffer has that size comes to an end, whatever the server and lwIP do, and its
  relay was faithful in both directions: the clamp of the configuration is what keeps the lengths
  passed to lwIP within 16 bits and the bytes in its hands within its send buffer.
\<close>

theorem configured_session_relays:
  assumes "hev_config_init pton doc = (cfg, 0)" "0 < tcp_buffer_size cfg" "length mem = nat (tcp_buffer_size cfg)"
    and "session_ready self" "0 \<le> s5_timeout self" "s5_fd self \<notin> set (os_shut a)"
  shows "\<exists>self' a'. hev_socks5_session_tcp_splice (max_session_count cfg) mem (self, a) = Some (self', a') \<and>
    session_relayed (nat (tcp_buffer_size cfg)) self a self' a' \<and>
    int (length (lw_sent (ts_lwip self'))) \<le> int (lw_ackd (ts_lwip self')) + TCP_SND_BUF"
proof -
  have fit: "tcp_buffer_size cfg \<le> 65528" using config_init_fits [OF assms(1)] by (simp add: config_fits_def)
  then have ok: "ring_size_ok mem" using assms(2,3) by (auto simp: ring_size_ok_def)
  obtain self' a' where run: "hev_socks5_session_tcp_splice (max_session_count cfg) mem (self, a) = Some (self', a')"
    using session_splice_returns [OF assms(4) ok assms(6,5), of "max_session_count cfg"] by blast
  have rel: "session_relayed (length mem) self a self' a'" by (rule session_splice_sound [OF run assms(4) ok assms(6)])
  then have "length (lw_sent (ts_lwip self')) \<le> lw_ackd (ts_lwip self') + length mem" by (simp add: session_relayed_def)
  then show ?thesis using run rel fit assms(2,3) by (auto simp: TCP_SND_BUF_def TCP_MSS_def)
qed

theorem configured_session_relays_witness:
  "\<exists>cfg self' a'. hev_config_init (\<lambda>_. None) (Some (YRef (YMapping []))) = (cfg, 0) \<and>
     hev_socks5_session_tcp_splice (max_session_count cfg) (replicate (nat (tcp_buffer_size cfg)) 0) (session_demo, os_session_demo) =
       Some (self', a') \<and> session_relayed (nat (tcp_buffer_size cfg)) session_demo os_session_demo self' a'"
proof -
  have c: "hev_config_init (\<lambda>_. None) (Some (YRef (YMapping []))) = (fit_sizes hev_config_reset, 0)"
    by (simp add: hev_config_init_def hev_config_parse_doc_def)
  have "0 < tcp_buffer_size (fit_sizes hev_config_reset)"
    by (simp add: fit_sizes_def hev_config_reset_def Let_def TCP_SND_BUF_def TCP_MSS_def)
  from configured_session_relays [OF c this _ session_demo_ready(1,4,3), of "replicate (nat (tcp_buffer_size (fit_sizes hev_config_reset))) 0"]
  show ?thesis using c by (metis length_replicate)
qed

end
